(* ===== verification/Prelude.thy ===== *)
theory Prelude
  imports Main "HOL-Library.Word" "HOL-Library.Char_ord" "HOL-Library.List_Lexorder"
    "HOL-Library.AList" "HOL-Library.Sublist"
begin

text \<open>
  Shared vocabulary of the development.

  Go's \<^verbatim>\<open>string\<close> and \<^verbatim>\<open>[]byte\<close> are byte sequences; both are HOL
  \<^typ>\<open>string\<close>s, since a HOL \<^typ>\<open>char\<close> is one of exactly 256 values.  \<open>bv\<close> reads a
  byte as a number.  Go's \<^verbatim>\<open>int64\<close> (and \<^verbatim>\<open>int\<close>, on the 64-bit platforms the
  program targets) is a 64-bit word read with \<^const>\<open>sint\<close>.  A Go map from string to
  string is an association list with distinct keys; its order stands for the runtime's
  unspecified iteration order, and every encoder is proved independent of it.
\<close>

type_synonym i64 = "64 word"
type_synonym u64 = "64 word"
type_synonym u32 = "32 word"
type_synonym strings = "(string \<times> string) list"

text \<open>
  Two collections carry the codec proofs: what each reader does to the text its writer
  made, and which texts the walk over an opaque value accepts.
\<close>

named_theorems reads_back \<open>a reader applied to the text of its writer\<close>
named_theorems skips_intros \<open>texts that skipValue walks over\<close>

subsection \<open>Errors of the wire code\<close>

text \<open>
  \<open>Refusal\<close> carries the word and the offset; \<open>Panic\<close> is a Go run-time panic (an index out of
  range); \<open>HandlerError\<close> is an error value of code outside the generated file (a handler or
  a transport).
\<close>

datatype wire_error =
    Refusal string nat
  | DispatchError string
  | ServiceError string string
  | HandlerError string
  | Panic string

subsection \<open>Bytes\<close>

definition bv :: "char \<Rightarrow> nat" where
  "bv c = of_char c"

lemma bv_less_256 [simp]: "bv c < 256"
  by (simp add: bv_def)

lemma bv_inject [simp]: "bv a = bv b \<longleftrightarrow> a = b"
  by (simp add: bv_def)

lemma bv_char_of: "bv (char_of n) = n mod 256"
  by (simp add: bv_def)

lemma char_of_bv [simp]: "char_of (bv c) = c"
  by (simp add: bv_def)

lemma char_less_bv: "a < b \<longleftrightarrow> bv a < bv b"
  by (simp add: bv_def less_char_def)

text \<open>A byte below a bound is one of finitely many; used to enumerate digits.\<close>

lemma less_Suc_cases: "(n::nat) < Suc k \<Longrightarrow> n = k \<or> n < k"
  by auto

subsection \<open>Decimal digits\<close>

definition is_digit :: "char \<Rightarrow> bool" where
  "is_digit c \<longleftrightarrow> 48 \<le> bv c \<and> bv c \<le> 57"

definition digit :: "nat \<Rightarrow> char" where
  "digit n = char_of (48 + n)"

lemma bv_digit [simp]: "n < 10 \<Longrightarrow> bv (digit n) = 48 + n"
  by (simp add: digit_def bv_char_of)

lemma digit_0: "digit 0 = CHR ''0''"
  by code_simp

lemma is_digit_digit [simp]: "n < 10 \<Longrightarrow> is_digit (digit n)"
  by (simp add: is_digit_def)

lemma digit_bv: "is_digit c \<Longrightarrow> digit (bv c - 48) = c"
  by (simp add: is_digit_def digit_def)

lemma is_digitE:
  assumes "is_digit c"
  obtains n where "n < 10" "c = digit n"
proof
  show "bv c - 48 < 10" using assms by (auto simp: is_digit_def)
  show "c = digit (bv c - 48)" using assms by (simp add: digit_bv)
qed

lemma digit_eq_iff: "m < 10 \<Longrightarrow> n < 10 \<Longrightarrow> digit m = digit n \<longleftrightarrow> m = n"
  by (metis bv_digit add_left_cancel)

subsection \<open>Suffixes\<close>

lemma suffix_eq_drop: "suffix t xs \<Longrightarrow> drop (length xs - length t) xs = t"
  by (auto simp: suffix_def)

lemma suffix_drop_append: "drop n xs = a @ t \<Longrightarrow> suffix t xs"
  by (metis append.assoc append_take_drop_id suffix_def)

subsection \<open>Association lists that are Go maps\<close>

lemma map_of_eq_set_keys:
  "map_of m = map_of m' \<Longrightarrow> set (map fst m) = set (map fst m')"
  by (metis dom_map_of_conv_image_fst image_set)

text \<open>One element changed: all still satisfy a predicate, or how many do.\<close>

lemma list_all_update: "list_all p xs \<Longrightarrow> p y \<Longrightarrow> list_all p (xs[i := y])"
  by (auto simp: list_all_iff dest: set_update_subset_insert [THEN subsetD])

lemma count_move:
  assumes "i < length gs"
  shows "length (filter P (gs[i := g])) + of_bool (P (gs ! i)) = length (filter P gs) + of_bool (P g)"
proof -
  have "gs[i := g] = take i gs @ g # drop (Suc i) gs" using assms by (simp add: upd_conv_take_nth_drop)
  moreover have "gs = take i gs @ gs ! i # drop (Suc i) gs" using assms by (rule id_take_nth_drop)
  then have "length (filter P gs) = length (filter P (take i gs @ gs ! i # drop (Suc i) gs))" by simp
  ultimately show ?thesis by simp
qed

end
