(* ===== verification/Wire_Writer.thy ===== *)
theory Wire_Writer
  imports Prelude "HOL-Library.Multiset"
begin

text \<open>
  The byte writer of \<^verbatim>\<open>go/abstraction/logging/rec.go\<close>: string escaping, decimal
  numbers, indentation, sorted map keys and lists.  Every operation takes the bytes
  written so far and returns them extended, as the Go code's \<^verbatim>\<open>append\<close> does; the
  \<open>_append\<close> lemmas say that each only appends.
\<close>

subsection \<open>Strings\<close>

abbreviation QUOTE :: char where "QUOTE \<equiv> CHR 0x22"
abbreviation BSLASH :: char where "BSLASH \<equiv> CHR 0x5C"
abbreviation LF :: char where "LF \<equiv> CHR 0x0A"
abbreviation SPACE :: char where "SPACE \<equiv> CHR 0x20"

definition hex_digits :: string where
  "hex_digits = ''0123456789abcdef''"

definition escByte :: "string \<Rightarrow> char \<Rightarrow> string" where
  "escByte out c =
     (if c = QUOTE then out @ [BSLASH, QUOTE]
      else if c = BSLASH then out @ [BSLASH, BSLASH]
      else if c = CHR 0x08 then out @ [BSLASH, CHR ''b'']
      else if c = CHR 0x0C then out @ [BSLASH, CHR ''f'']
      else if c = LF then out @ [BSLASH, CHR ''n'']
      else if c = CHR 0x0D then out @ [BSLASH, CHR ''r'']
      else if c = CHR 0x09 then out @ [BSLASH, CHR ''t'']
      else if bv c < 0x20 then
        out @ [BSLASH, CHR ''u'', CHR ''0'', CHR ''0'',
               hex_digits ! (bv c div 16), hex_digits ! (bv c mod 16)]
      else out @ [c])"

definition esc :: "string \<Rightarrow> string \<Rightarrow> string" where
  "esc out s = foldl escByte (out @ [QUOTE]) s @ [QUOTE]"

subsection \<open>Numbers\<close>

text \<open>
  The loop of \<^verbatim>\<open>num\<close> fills a 24-byte array from its end; the accumulator is the
  part of the array filled so far.  \<open>num_digits_fit\<close> below shows that the array is never
  overrun.
\<close>

function num_loop :: "u64 \<Rightarrow> string \<Rightarrow> string" where
  "num_loop u d =
     (if u = 0 then d else num_loop (u div 10) (char_of (48 + unat (u mod 10)) # d))"
  by pat_completeness auto
termination
  by (relation "measure (\<lambda>(u, d). unat u)")
    (auto simp: unat_div intro!: div_less_dividend simp flip: unat_gt_0)

declare num_loop.simps [simp del]

definition num :: "string \<Rightarrow> i64 \<Rightarrow> string" where
  "num out n =
     (if n = 0 then out @ ''0''
      else let u = (if sint n < 0 then - n else n);
               out' = (if sint n < 0 then out @ ''-'' else out)
           in out' @ num_loop u [])"

definition decimal :: "i64 \<Rightarrow> string" where
  "decimal n = num [] n"

subsection \<open>Indentation\<close>

definition pad :: "string \<Rightarrow> nat \<Rightarrow> string" where
  "pad out depth = out @ replicate (depth * 2) SPACE"

subsection \<open>Sorted keys\<close>

fun byteLess :: "string \<Rightarrow> string \<Rightarrow> bool" where
  "byteLess (x # xs) (y # ys) = (if x \<noteq> y then x < y else byteLess xs ys)"
| "byteLess a b = (length a < length b)"

text \<open>
  The inner loop of \<^verbatim>\<open>sortedKeys\<close> swaps a key downwards while it is less than its
  left neighbour; the outer loop does so for each index from 1.
\<close>

fun sift :: "string list \<Rightarrow> nat \<Rightarrow> string list" where
  "sift keys 0 = keys"
| "sift keys (Suc j) =
     (if byteLess (keys ! Suc j) (keys ! j)
      then sift (keys[Suc j := keys ! j, j := keys ! Suc j]) j
      else keys)"

definition sortedKeys :: "(string \<times> 'v) list \<Rightarrow> string list" where
  "sortedKeys m = (let keys = map fst m in foldl sift keys [1..<length keys])"

subsection \<open>Maps and lists\<close>

text \<open>
  The two loops write a separator after every element but the last; the writer of an
  element may panic with a refusal, which ends the list.  \<open>the (map_of m k)\<close>
  is Go's \<^verbatim>\<open>m[k]\<close> for a key that is present.
\<close>

fun strmap_loop :: "string \<Rightarrow> strings \<Rightarrow> nat \<Rightarrow> string list \<Rightarrow> string" where
  "strmap_loop out m depth [] = out"
| "strmap_loop out m depth (k # ks) =
     (let out1 = esc (pad out (depth + 1)) k;
          out2 = esc (out1 @ '': '') (the (map_of m k));
          out3 = (if ks \<noteq> [] then out2 @ '','' else out2)
      in strmap_loop (out3 @ [LF]) m depth ks)"

definition strmap :: "string \<Rightarrow> strings \<Rightarrow> nat \<Rightarrow> string" where
  "strmap out m depth =
     (let keys = sortedKeys m
      in if keys = [] then out @ ''{}''
         else pad (strmap_loop (out @ [CHR ''{'', LF]) m depth keys) depth @ ''}'')"

fun encList_loop ::
  "string \<Rightarrow> 'a list \<Rightarrow> nat \<Rightarrow> (string \<Rightarrow> 'a \<Rightarrow> nat \<Rightarrow> wire_error + string) \<Rightarrow> wire_error + string"
  where
  "encList_loop out [] depth enc = Inr out"
| "encList_loop out (v # vs) depth enc =
     (case enc (pad out (depth + 1)) v (depth + 1) of
        Inl e \<Rightarrow> Inl e
      | Inr out1 \<Rightarrow>
          (let out2 = (if vs \<noteq> [] then out1 @ '','' else out1)
           in encList_loop (out2 @ [LF]) vs depth enc))"

definition encList ::
  "string \<Rightarrow> 'a list \<Rightarrow> nat \<Rightarrow> (string \<Rightarrow> 'a \<Rightarrow> nat \<Rightarrow> wire_error + string) \<Rightarrow> wire_error + string"
  where
  "encList out v depth enc =
     (if v = [] then Inr (out @ ''[]'')
      else case encList_loop (out @ [CHR ''['', LF]) v depth enc of
        Inl e \<Rightarrow> Inl e
      | Inr out1 \<Rightarrow> Inr (pad out1 depth @ '']''))"

subsection \<open>Writers only append\<close>

definition escText :: "string \<Rightarrow> string" where
  "escText s = concat (map (escByte []) s)"

lemma escByte_append: "escByte out c = out @ escByte [] c"
  by (simp add: escByte_def)

lemma escText_Nil [simp]: "escText [] = []"
  by (simp add: escText_def)

lemma escText_Cons [simp]: "escText (c # s) = escByte [] c @ escText s"
  by (simp add: escText_def)

lemma foldl_escByte: "foldl escByte out s = out @ escText s"
proof (induction s arbitrary: out)
  case (Cons c s)
  have "foldl escByte out (c # s) = (out @ escByte [] c) @ escText s"
    by (simp only: foldl.simps escByte_append [of out c] Cons.IH)
  then show ?case by simp
qed simp

lemma esc_text: "esc out s = out @ QUOTE # escText s @ [QUOTE]"
  by (simp add: esc_def foldl_escByte)

lemma unat_div10_less: "(u::u64) \<noteq> 0 \<Longrightarrow> unat (u div 10) < unat u"
  by (simp add: unat_div unat_gt_0 unat_eq_zero)

lemma num_loop_append: "num_loop u d = num_loop u [] @ d"
proof (induction u arbitrary: d rule: measure_induct_rule [where f = unat])
  case (less u)
  show ?case
  proof (cases "u = 0")
    case False
    then have IH: "num_loop (u div 10) d' = num_loop (u div 10) [] @ d'" for d'
      using less unat_div10_less by blast
    show ?thesis
      using False num_loop.simps [of u d] num_loop.simps [of u "[]"] IH
      by (metis append.assoc append_Cons append_Nil)
  qed (simp add: num_loop.simps)
qed

lemma num_append: "num out n = out @ num [] n"
  by (simp add: num_def Let_def)

lemma pad_append: "pad out n = out @ pad [] n"
  by (simp add: pad_def)

lemma strmap_loop_append: "strmap_loop out m depth ks = out @ strmap_loop [] m depth ks"
proof (induction ks arbitrary: out)
  case (Cons k ks)
  define t where "t = replicate (2 * (depth + 1)) SPACE
    @ QUOTE # escText k @ QUOTE # '': '' @ QUOTE # escText (the (map_of m k)) @ QUOTE
    # (if ks \<noteq> [] then '','' else []) @ [LF]"
  have "strmap_loop out' m depth (k # ks) = strmap_loop (out' @ t) m depth ks" for out'
    by (simp add: Let_def esc_text pad_def t_def mult.commute)
  from this Cons.IH have "strmap_loop out' m depth (k # ks)
      = (out' @ t) @ strmap_loop [] m depth ks" for out'
    by (rule trans)
  from this [of out] this [of "[]"] show ?case by (simp only: append.assoc append_Nil)
qed simp

lemma strmap_append: "strmap out m depth = out @ strmap [] m depth"
  unfolding strmap_def Let_def pad_def
  by (subst strmap_loop_append, subst (2) strmap_loop_append) simp

subsection \<open>Decimal spelling\<close>

text \<open>The reading of a digit string, and what \<^const>\<open>num_loop\<close> writes.\<close>

definition digits_value :: "nat \<Rightarrow> string \<Rightarrow> nat" where
  "digits_value a s = foldl (\<lambda>v c. v * 10 + (bv c - 48)) a s"

lemma digits_value_simps [simp]:
  "digits_value a [] = a"
  "digits_value a (c # s) = digits_value (a * 10 + (bv c - 48)) s"
  "digits_value a (s @ t) = digits_value (digits_value a s) t"
  by (simp_all add: digits_value_def)

lemma num_loop_unfold:
  assumes "u \<noteq> 0"
  shows "num_loop u [] = num_loop (u div 10) [] @ [digit (unat (u mod 10))]"
proof -
  have "num_loop u [] = num_loop (u div 10) [digit (unat (u mod 10))]"
    using assms num_loop.simps [of u "[]"] by (simp add: digit_def)
  then show ?thesis by (simp only: num_loop_append [of "u div 10" "[_]"])
qed

lemma unat_mod10: "unat ((u::u64) mod 10) = unat u mod 10"
  by (simp add: unat_mod_distrib)

lemma num_loop_digits:
  "(\<forall>c \<in> set (num_loop u []). is_digit c)
     \<and> digits_value 0 (num_loop u []) = unat u
     \<and> (u \<noteq> 0 \<longrightarrow> num_loop u [] \<noteq> [] \<and> hd (num_loop u []) \<noteq> CHR ''0'')"
proof (induction u rule: measure_induct_rule [where f = unat])
  case (less u)
  show ?case
  proof (cases "u = 0")
    case True
    then show ?thesis by (simp add: num_loop.simps)
  next
    case False
    note IH = less [OF unat_div10_less [OF False]]
    let ?m = "unat (u mod 10)"
    have m: "?m < 10" by (simp add: unat_mod10)
    have v: "unat (u div 10) * 10 + ?m = unat u"
      by (simp add: unat_mod10 unat_div_distrib)
    show ?thesis
    proof (cases "u div 10 = 0")
      case True
      then have "unat u = ?m" using v by simp
      moreover have "unat u \<noteq> 0" using False by (simp add: unat_eq_zero)
      ultimately have "?m \<noteq> 0" by metis
      then have "digit ?m \<noteq> CHR ''0''" using m digit_eq_iff [of ?m 0] by (simp add: digit_0)
      then show ?thesis
        using True m \<open>unat u = ?m\<close>
        by (simp add: num_loop_unfold [OF False] num_loop.simps [of 0])
    next
      case nz: False
      then show ?thesis
        using IH m v by (simp add: num_loop_unfold [OF False] hd_append)
    qed
  qed
qed

text \<open>A number of at most 64 bits has at most 20 digits, so the 24-byte array holds it.\<close>

lemma length_num_loop: "unat u < 10 ^ k \<Longrightarrow> length (num_loop u []) \<le> k"
proof (induction k arbitrary: u)
  case 0
  then have "u = 0" by (simp add: unat_eq_zero)
  then show ?case by (simp add: num_loop.simps)
next
  case (Suc k)
  show ?case
  proof (cases "u = 0")
    case False
    have "unat (u div 10) < 10 ^ k"
      using Suc.prems by (simp add: unat_div_distrib less_mult_imp_div_less)
    then show ?thesis using Suc.IH by (simp add: num_loop_unfold [OF False])
  qed (simp add: num_loop.simps)
qed

lemma num_digits_fit: "length (num_loop u []) \<le> 20"
proof (rule length_num_loop)
  have "unat u < 2 ^ 64" using unsigned_less [of u] by simp
  also have "\<dots> < 10 ^ 20" by simp
  finally show "unat u < 10 ^ 20" .
qed

subsection \<open>Sorted keys\<close>

lemma byteLess_less: "byteLess a b \<longleftrightarrow> a < b"
proof (induction a arbitrary: b)
  case Nil
  then show ?case by (cases b) simp_all
next
  case (Cons x a)
  then show ?case by (cases b) auto
qed

lemma sift_append: "j < length xs \<Longrightarrow> sift (xs @ ys) j = sift xs j @ ys"
  by (induction j arbitrary: xs) (auto simp: nth_append list_update_append)

lemma insort_snoc:
  assumes "sorted (xs @ [y])"
  shows "insort x (xs @ [y]) = (if x < y then insort x xs @ [y] else xs @ [y, x])"
proof -
  have "sort (x # xs @ [y]) = insort x (xs @ [y])"
    using assms by (intro properties_for_sort) (simp_all add: sorted_insort)
  moreover have "sort (x # xs @ [y]) = (if x < y then insort x xs @ [y] else xs @ [y, x])"
    using assms by (intro properties_for_sort)
      (auto simp: sorted_append sorted_insort set_insort_key)
  ultimately show ?thesis by simp
qed

lemma sift_snoc: "sorted xs \<Longrightarrow> sift (xs @ [x]) (length xs) = insort x xs"
proof (induction xs rule: rev_induct)
  case (snoc y xs)
  have swap: "((xs @ [y]) @ [x])[Suc (length xs) := y, length xs := x] = (xs @ [x]) @ [y]"
    by (simp add: list_update_append)
  have "sift ((xs @ [y]) @ [x]) (length (xs @ [y]))
      = (if x < y then sift ((xs @ [x]) @ [y]) (length xs) else xs @ [y, x])"
    using swap by (simp add: byteLess_less nth_append)
  also have "\<dots> = insort x (xs @ [y])"
    using snoc sift_append [of "length xs" "xs @ [x]" "[y]"] insort_snoc [of xs y x]
    by (simp add: sorted_append)
  finally show ?case .
qed simp

lemma foldl_sift:
  assumes "0 < n" "n \<le> length keys"
  shows "foldl sift keys [1..<n] = sort (take n keys) @ drop n keys"
  using assms
proof (induction n rule: nat_induct_non_zero)
  case 1
  then show ?case by (cases keys) auto
next
  case (Suc n)
  let ?s = "sort (take n keys)" and ?x = "keys ! n"
  have len: "length ?s = n" using Suc by simp
  have "drop n keys = ?x # drop (Suc n) keys"
    using Suc.prems by (simp add: Cons_nth_drop_Suc)
  then have "foldl sift keys [1..<Suc n] = sift ((?s @ [?x]) @ drop (Suc n) keys) n"
    using Suc by simp
  also have "\<dots> = sift (?s @ [?x]) n @ drop (Suc n) keys"
    using len by (intro sift_append) simp
  also have "sift (?s @ [?x]) n = insort ?x ?s"
    using sift_snoc [of ?s ?x] len by simp
  also have "insort ?x ?s = sort (take (Suc n) keys)"
    using Suc.prems by (intro properties_for_sort [symmetric])
      (simp_all add: take_Suc_conv_app_nth sorted_insort)
  finally show ?case .
qed

theorem sortedKeys_sort: "sortedKeys m = sort (map fst m)"
proof (cases m)
  case (Cons a m')
  then show ?thesis
    using foldl_sift [of "length (map fst m)" "map fst m"] by (simp add: sortedKeys_def Let_def)
qed (simp add: sortedKeys_def)

lemma set_sortedKeys: "set (sortedKeys m) = fst ` set m"
  by (simp add: sortedKeys_sort)

lemma sortedKeys_distinct: "distinct (map fst m) \<Longrightarrow> distinct (sortedKeys m)"
  by (simp add: sortedKeys_sort)

lemma sortedKeys_Nil_iff: "sortedKeys m = [] \<longleftrightarrow> m = []"
  by (metis set_sortedKeys image_is_empty set_empty)

text \<open>The bytes written for a map do not depend on its iteration order.\<close>

lemma strmap_loop_cong:
  "map_of m = map_of m' \<Longrightarrow> strmap_loop out m depth ks = strmap_loop out m' depth ks"
  by (induction ks arbitrary: out) (simp_all add: Let_def)

lemma sortedKeys_cong:
  assumes "distinct (map fst m)" "distinct (map fst m')" "map_of m = map_of m'"
  shows "sortedKeys m = sortedKeys m'"
proof -
  have "set (map fst m) = set (map fst m')"
    using assms(3) by (rule map_of_eq_set_keys)
  then show ?thesis
    using assms(1,2) unfolding sortedKeys_sort by (metis sorted_list_of_set_sort_remdups distinct_remdups_id)
qed

end
