(* ===== verification/Wire_Reader.thy ===== *)
theory Wire_Reader
  imports Wire_Writer
begin

unbundle bit_operations_syntax

text \<open>
  The byte reader of \<^verbatim>\<open>go/abstraction/logging/rec.go\<close>: the \<^verbatim>\<open>reader\<close> struct,
  its character tests, strings with their escapes, integers, literals, and the walk over
  opaque values.  A Go method that returns an error beside a value is a function into
  \<open>wire_error + ('a \<times> reader)\<close>; a refusal carries the offset the reader had reached.
  Two views of a reader: \<open>r_pos\<close> is the code's index into \<open>r_buf\<close>, and \<open>rest\<close> is what
  is still unread.  \<open>to r t\<close> is the reader moved so that \<open>t\<close> is left.
\<close>

subsection \<open>State\<close>

record reader =
  r_buf :: string
  r_pos :: nat
  r_depth :: nat

type_synonym 'a read = "wire_error + ('a \<times> reader)"

definition depthLimit :: nat where
  "depthLimit = 64"

definition refuse :: "reader \<Rightarrow> string \<Rightarrow> wire_error" where
  "refuse r w = Refusal w (r_pos r)"

definition at :: "reader \<Rightarrow> char" where
  "at r = (if r_pos r < length (r_buf r) then r_buf r ! r_pos r else CHR 0x00)"

definition skip1 :: "reader \<Rightarrow> reader" where
  "skip1 r = r\<lparr>r_pos := r_pos r + 1\<rparr>"

definition is_ws :: "char \<Rightarrow> bool" where
  "is_ws c \<longleftrightarrow> c = SPACE \<or> c = CHR 0x09 \<or> c = LF \<or> c = CHR 0x0D"

function ws :: "reader \<Rightarrow> reader" where
  "ws r = (if r_pos r < length (r_buf r) \<and> is_ws (r_buf r ! r_pos r)
           then ws (skip1 r) else r)"
  by pat_completeness auto
termination
  by (relation "measure (\<lambda>r. length (r_buf r) - r_pos r)") (auto simp: skip1_def)

declare ws.simps [simp del]

definition enter :: "reader \<Rightarrow> wire_error + reader" where
  "enter r = (let r' = r\<lparr>r_depth := r_depth r + 1\<rparr>
              in if r_depth r' > depthLimit then Inl (refuse r' ''depth_exceeded'') else Inr r')"

definition leave :: "reader \<Rightarrow> reader" where
  "leave r = (skip1 r)\<lparr>r_depth := r_depth r - 1\<rparr>"

subsection \<open>The unread suffix\<close>

definition rest :: "reader \<Rightarrow> string" where
  "rest r = drop (r_pos r) (r_buf r)"

definition to :: "reader \<Rightarrow> string \<Rightarrow> reader" where
  "to r t = r\<lparr>r_pos := length (r_buf r) - length t\<rparr>"

text \<open>A reader that has not run past its buffer, and a move that only goes forward.\<close>

definition in_buf :: "reader \<Rightarrow> bool" where
  "in_buf r \<longleftrightarrow> r_pos r \<le> length (r_buf r)"

definition forward :: "reader \<Rightarrow> reader \<Rightarrow> bool" where
  "forward r r' \<longleftrightarrow> r_buf r' = r_buf r \<and> r_depth r' = r_depth r \<and> r_pos r \<le> r_pos r'
     \<and> (in_buf r \<longrightarrow> in_buf r')"

lemma forward_refl [simp, intro]: "forward r r"
  by (simp add: forward_def)

lemma forward_trans [trans]: "forward a b \<Longrightarrow> forward b c \<Longrightarrow> forward a c"
  by (auto simp: forward_def)

lemma at_rest: "at r = (case rest r of [] \<Rightarrow> CHR 0x00 | c # _ \<Rightarrow> c)"
  by (auto simp: at_def rest_def Cons_nth_drop_Suc [symmetric] split: list.split)

lemma rest_nonempty: "rest r = c # t \<Longrightarrow> r_pos r < length (r_buf r) \<and> r_buf r ! r_pos r = c"
  by (metis list.distinct(1) drop_all list.inject not_le_imp_less rest_def Cons_nth_drop_Suc)

lemma at_Cons [simp]: "rest r = c # t \<Longrightarrow> at r = c"
  by (simp add: at_rest)

lemma rest_skip1 [simp]: "rest r = c # t \<Longrightarrow> rest (skip1 r) = t"
  by (metis drop_Suc drop_tl list.sel(3) rest_def skip1_def Suc_eq_plus1 reader.select_convs(1,2)
      reader.simps(7) reader.simps(5) reader.surjective reader.update_convs(2))

lemma at_nz_in: "at r \<noteq> CHR 0x00 \<Longrightarrow> r_pos r < length (r_buf r)"
  by (auto simp: at_def split: if_splits)

lemma forward_skip1: "r_pos r < length (r_buf r) \<Longrightarrow> forward r (skip1 r)"
  by (simp add: forward_def skip1_def in_buf_def)

lemma forward_ws: "forward r (ws r)"
proof (induction r rule: ws.induct)
  case (1 r)
  show ?case
  proof (cases "r_pos r < length (r_buf r) \<and> is_ws (r_buf r ! r_pos r)")
    case True
    then have "forward r (skip1 r)" by (simp add: forward_skip1)
    also have "forward (skip1 r) (ws (skip1 r))" using 1 True by blast
    finally show ?thesis using True by (simp add: ws.simps [of r])
  next
    case False
    then show ?thesis by (auto simp: ws.simps [of r])
  qed
qed

lemma rest_to: "rest r = a @ t \<Longrightarrow> rest (to r t) = t"
  using suffix_drop_append [of "r_pos r" "r_buf r" a t]
  by (simp add: rest_def to_def suffix_eq_drop)

lemma to_to [simp]: "to (to r s) t = to r t"
  by (simp add: to_def)

lemma to_rest: "in_buf r \<Longrightarrow> to r (rest r) = r"
  by (simp add: to_def rest_def in_buf_def)

lemma in_buf_to [simp]: "in_buf (to r t)"
  by (simp add: in_buf_def to_def)

lemma r_depth_to [simp]: "r_depth (to r t) = r_depth r"
  by (simp add: to_def)

lemma r_buf_to [simp]: "r_buf (to r t) = r_buf r"
  by (simp add: to_def)

lemma skip1_to:
  assumes "rest r = c # t"
  shows "skip1 r = to r t"
proof -
  have "length (rest r) = Suc (length t)" using assms by simp
  then have "length (r_buf r) - length t = Suc (r_pos r)"
    using rest_nonempty [OF assms] by (simp add: rest_def)
  then show ?thesis by (simp add: skip1_def to_def)
qed

lemma ws_stop: "(\<forall>c u. rest r = c # u \<longrightarrow> \<not> is_ws c) \<Longrightarrow> ws r = r"
  by (metis Cons_nth_drop_Suc rest_def ws.simps)

lemma ws_step: "rest r = c # t \<Longrightarrow> is_ws c \<Longrightarrow> ws r = ws (to r t)"
  using rest_nonempty [of r c t] skip1_to [of r c t] by (simp add: ws.simps [of r])

lemma ws_to:
  "rest r = w @ t \<Longrightarrow> \<forall>c \<in> set w. is_ws c \<Longrightarrow> (\<forall>c u. t = c # u \<longrightarrow> \<not> is_ws c) \<Longrightarrow> in_buf r
    \<Longrightarrow> ws r = to r t"
proof (induction w arbitrary: r)
  case Nil
  then show ?case using ws_stop [of r] to_rest [of r] by simp
next
  case (Cons c w)
  then have "rest (to r (w @ t)) = w @ t" using rest_to [of r "[c]"] by simp
  then show ?case using Cons ws_step [of r c "w @ t"] by simp
qed

subsection \<open>UTF-8\<close>

text \<open>
  \<^verbatim>\<open>validUTF8\<close> walks the bytes with an index; here the walk is over the bytes that are
  left.  A lead byte gives the width \<open>n\<close> and the first bits; \<^verbatim>\<open>c>>5\<close> is
  \<open>div 32\<close>, \<^verbatim>\<open>c&0x1F\<close> is \<open>mod 32\<close>.
\<close>

definition utf8_lead :: "char \<Rightarrow> (nat \<times> nat) option" where
  "utf8_lead c =
     (if bv c div 32 = 0x6 then Some (2, bv c mod 32)
      else if bv c div 16 = 0xE then Some (3, bv c mod 16)
      else if bv c div 8 = 0x1E then Some (4, bv c mod 8)
      else None)"

definition utf8_lowest :: "nat \<Rightarrow> nat" where
  "utf8_lowest n = [0, 0, 0x80, 0x800, 0x10000] ! n"

definition utf8_scalar :: "nat \<Rightarrow> nat \<Rightarrow> bool" where
  "utf8_scalar n cp \<longleftrightarrow>
     \<not> (cp < utf8_lowest n \<or> cp > 0x10FFFF \<or> (cp \<ge> 0xD800 \<and> cp \<le> 0xDFFF))"

definition is_cont :: "char \<Rightarrow> bool" where
  "is_cont c \<longleftrightarrow> bv c div 64 = 0x2"

function validUTF8 :: "string \<Rightarrow> bool" where
  "validUTF8 [] = True"
| "validUTF8 (c # cs) =
     (if bv c < 0x80 then validUTF8 cs
      else case utf8_lead c of
        None \<Rightarrow> False
      | Some (n, cp) \<Rightarrow>
          (if n > length (c # cs) then False
           else let ks = take (n - 1) cs;
                    cp' = foldl (\<lambda>v k. v * 64 + bv k mod 64) cp ks
                in list_all is_cont ks \<and> utf8_scalar n cp' \<and> validUTF8 (drop (n - 1) cs)))"
  by pat_completeness auto
termination
  by (relation "measure length") auto

definition appendRune :: "string \<Rightarrow> nat \<Rightarrow> string" where
  "appendRune out cp =
     (if cp < 0x80 then out @ [char_of cp]
      else if cp < 0x800 then
        out @ [char_of (0xC0 OR (cp div 64)), char_of (0x80 OR (cp AND 0x3F))]
      else if cp < 0x10000 then
        out @ [char_of (0xE0 OR (cp div 4096)), char_of (0x80 OR ((cp div 64) AND 0x3F)),
               char_of (0x80 OR (cp AND 0x3F))]
      else
        out @ [char_of (0xF0 OR (cp div 262144)), char_of (0x80 OR ((cp div 4096) AND 0x3F)),
               char_of (0x80 OR ((cp div 64) AND 0x3F)), char_of (0x80 OR (cp AND 0x3F))])"

subsection \<open>Strings\<close>

definition hex_value :: "char \<Rightarrow> nat option" where
  "hex_value c =
     (if CHR ''0'' \<le> c \<and> c \<le> CHR ''9'' then Some (bv c - bv (CHR ''0''))
      else if CHR ''a'' \<le> c \<and> c \<le> CHR ''f'' then Some (bv c - bv (CHR ''a'') + 10)
      else if CHR ''A'' \<le> c \<and> c \<le> CHR ''F'' then Some (bv c - bv (CHR ''A'') + 10)
      else None)"

fun hex4_loop :: "string \<Rightarrow> nat \<Rightarrow> nat option" where
  "hex4_loop [] u = Some u"
| "hex4_loop (c # cs) u =
     (case hex_value c of None \<Rightarrow> None | Some d \<Rightarrow> hex4_loop cs (push_bit 4 u OR d))"

definition hex4 :: "reader \<Rightarrow> nat read" where
  "hex4 r =
     (if r_pos r + 4 > length (r_buf r) then Inl (refuse r ''bad_string'')
      else case hex4_loop (take 4 (drop (r_pos r) (r_buf r))) 0 of
        None \<Rightarrow> Inl (refuse r ''bad_string'')
      | Some u \<Rightarrow> Inr (u, r\<lparr>r_pos := r_pos r + 4\<rparr>))"

definition escape :: "string \<Rightarrow> reader \<Rightarrow> string read" where
  "escape out r0 =
     (let r = skip1 r0 in
      if r_pos r \<ge> length (r_buf r) then Inl (refuse r ''malformed'')
      else
        let c = r_buf r ! r_pos r; r1 = skip1 r in
        if c = QUOTE \<or> c = BSLASH \<or> c = CHR ''/'' then Inr (out @ [c], r1)
        else if c = CHR ''b'' then Inr (out @ [CHR 0x08], r1)
        else if c = CHR ''f'' then Inr (out @ [CHR 0x0C], r1)
        else if c = CHR ''n'' then Inr (out @ [LF], r1)
        else if c = CHR ''r'' then Inr (out @ [CHR 0x0D], r1)
        else if c = CHR ''t'' then Inr (out @ [CHR 0x09], r1)
        else if c = CHR ''u'' then
          (case hex4 r1 of
             Inl e \<Rightarrow> Inl e
           | Inr (u, r2) \<Rightarrow>
               if u \<ge> 0xDC00 \<and> u \<le> 0xDFFF then Inl (refuse r2 ''bad_string'')
               else if u \<ge> 0xD800 \<and> u \<le> 0xDBFF then
                 (if r_pos r2 + 1 \<ge> length (r_buf r2) \<or> r_buf r2 ! r_pos r2 \<noteq> BSLASH
                     \<or> r_buf r2 ! (r_pos r2 + 1) \<noteq> CHR ''u''
                  then Inl (refuse r2 ''bad_string'')
                  else case hex4 (skip1 (skip1 r2)) of
                    Inl e \<Rightarrow> Inl e
                  | Inr (lo, r3) \<Rightarrow>
                      if lo < 0xDC00 \<or> lo > 0xDFFF then Inl (refuse r3 ''bad_string'')
                      else Inr (appendRune out
                             (0x10000 + push_bit 10 (u - 0xD800) + (lo - 0xDC00)), r3))
               else Inr (appendRune out u, r2))
        else Inl (refuse r1 ''bad_string''))"

lemma hex4_forward: "hex4 r = Inr (u, r') \<Longrightarrow> forward r r'"
  by (auto simp: hex4_def forward_def in_buf_def split: if_splits option.splits)

lemma escape_forward: "escape out r = Inr (out', r') \<Longrightarrow> forward (skip1 (skip1 r)) r'"
  by (auto simp: escape_def Let_def skip1_def forward_def in_buf_def
      dest!: hex4_forward split: if_splits sum.splits)

function str_loop :: "string \<Rightarrow> reader \<Rightarrow> string read" where
  "str_loop out r =
     (if r_pos r \<ge> length (r_buf r) then Inl (refuse r ''malformed'')
      else let c = r_buf r ! r_pos r in
        if c = QUOTE then
          (let r' = skip1 r in
           if \<not> validUTF8 out then Inl (refuse r' ''bad_string'') else Inr (out, r'))
        else if bv c < 0x20 then Inl (refuse r ''bad_string'')
        else if c = BSLASH then
          (case escape out r of Inl e \<Rightarrow> Inl e | Inr (out', r') \<Rightarrow> str_loop out' r')
        else str_loop (out @ [c]) (skip1 r))"
  by pat_completeness auto
termination
  by (relation "measure (\<lambda>(out, r). length (r_buf r) - r_pos r)")
    (auto simp: skip1_def forward_def dest!: escape_forward)

declare str_loop.simps [simp del]

definition str :: "reader \<Rightarrow> string read" where
  "str r = (if at r \<noteq> QUOTE then Inl (refuse r ''wrong_type'') else str_loop [] (skip1 r))"

subsection \<open>Reading back an escaped string\<close>

lemma hex4_loop_byte:
  assumes "n < 32"
  shows "hex4_loop [CHR ''0'', CHR ''0'', hex_digits ! (n div 16), hex_digits ! (n mod 16)] 0 = Some n"
proof -
  have "list_all (\<lambda>n. hex4_loop [CHR ''0'', CHR ''0'', hex_digits ! (n div 16),
      hex_digits ! (n mod 16)] 0 = Some n) [0..<32]"
    by code_simp
  then show ?thesis using assms by (simp add: list_all_iff)
qed

lemma rest_Cons_length: "rest r = a @ t \<Longrightarrow> a \<noteq> [] \<Longrightarrow> r_pos r + length a + length t = length (r_buf r)"
  by (metis append_is_Nil_conv drop_all le_add_diff_inverse length_append length_drop linorder_le_cases
      rest_def add.assoc)

lemma hex4_rest:
  assumes "rest r = a # b # c # d # u" "hex4_loop [a, b, c, d] 0 = Some v"
  shows "hex4 r = Inr (v, to r u)"
proof -
  have "r_pos r + 4 + length u = length (r_buf r)"
    using rest_Cons_length [of r "[a, b, c, d]" u] assms by simp
  moreover have "take 4 (drop (r_pos r) (r_buf r)) = [a, b, c, d]"
    using assms(1) by (simp add: rest_def)
  ultimately show ?thesis
    using assms(2) by (simp add: hex4_def to_def)
qed

lemma escape_rest:
  assumes "rest r = BSLASH # x # u"
  shows "skip1 r = to r (x # u)" "skip1 (skip1 r) = to r u"
    "r_pos (skip1 r) < length (r_buf (skip1 r))" "r_buf (skip1 r) ! r_pos (skip1 r) = x"
proof -
  have u: "rest (to r (x # u)) = x # u"
    by (rule rest_to [of r "[BSLASH]"]) (simp add: assms)
  show s: "skip1 r = to r (x # u)" by (rule skip1_to) (rule assms)
  show "skip1 (skip1 r) = to r u" using skip1_to [OF u] s by simp
  show "r_pos (skip1 r) < length (r_buf (skip1 r))" "r_buf (skip1 r) ! r_pos (skip1 r) = x"
    using rest_nonempty [OF u] s by simp_all
qed

lemma escape_escByte:
  assumes "rest r = escByte [] c @ u" "escByte [] c \<noteq> [c]"
  shows "escape out r = Inr (out @ [c], to r u)"
proof (cases "c \<in> {QUOTE, BSLASH, CHR 0x08, CHR 0x0C, LF, CHR 0x0D, CHR 0x09}")
  case True
  then obtain x where x: "escByte [] c = [BSLASH, x]"
    and e: "(x = QUOTE \<or> x = BSLASH) \<and> c = x \<or> x = CHR ''b'' \<and> c = CHR 0x08
      \<or> x = CHR ''f'' \<and> c = CHR 0x0C \<or> x = CHR ''n'' \<and> c = LF
      \<or> x = CHR ''r'' \<and> c = CHR 0x0D \<or> x = CHR ''t'' \<and> c = CHR 0x09"
    by (auto simp: escByte_def)
  have "rest r = BSLASH # x # u" using assms x by simp
  note er = escape_rest [OF this]
  show ?thesis using e er by (auto simp: escape_def Let_def)
next
  case False
  then have lt: "bv c < 32" and ec: "escByte [] c = [BSLASH, CHR ''u'', CHR ''0'', CHR ''0'',
      hex_digits ! (bv c div 16), hex_digits ! (bv c mod 16)]"
    using assms(2) by (auto simp: escByte_def split: if_splits)
  let ?h = "[CHR ''0'', CHR ''0'', hex_digits ! (bv c div 16), hex_digits ! (bv c mod 16)]"
  have r: "rest r = BSLASH # CHR ''u'' # ?h @ u" using assms(1) ec by simp
  note er = escape_rest [OF r]
  have "rest (to r (?h @ u)) = ?h @ u"
    by (rule rest_to [of r "[BSLASH, CHR ''u'']"]) (simp add: r)
  then have "hex4 (to r (?h @ u)) = Inr (bv c, to r u)"
    using hex4_rest hex4_loop_byte [OF lt] by simp
  then show ?thesis
    using er lt by (simp add: escape_def Let_def appendRune_def)
qed

lemma str_loop_escByte:
  assumes "rest r = escByte [] c @ u"
  shows "str_loop out r = str_loop (out @ [c]) (to r u)"
proof (cases "escByte [] c = [c]")
  case True
  then have "c \<noteq> QUOTE" "c \<noteq> BSLASH" "\<not> bv c < 32"
    by (auto simp: escByte_def split: if_splits)
  then show ?thesis
    using assms True rest_nonempty [of r c u] skip1_to [of r c u]
    by (simp add: str_loop.simps [of out r])
next
  case False
  then obtain x v where "escByte [] c = BSLASH # x # v"
    by (auto simp: escByte_def split: if_splits)
  then have "r_pos r < length (r_buf r)" "r_buf r ! r_pos r = BSLASH"
    using assms rest_nonempty [of r BSLASH "x # v @ u"] by simp_all
  then show ?thesis
    using escape_escByte [OF assms False] by (simp add: str_loop.simps [of out r] bv_def)
qed

lemma str_loop_text:
  "rest r = escText s @ QUOTE # t \<Longrightarrow> validUTF8 (out @ s) \<Longrightarrow>
    str_loop out r = Inr (out @ s, to r t)"
proof (induction s arbitrary: out r)
  case Nil
  then show ?case
    using rest_nonempty [of r QUOTE t] skip1_to [of r QUOTE t]
    by (simp add: str_loop.simps [of out r])
next
  case (Cons c s)
  let ?u = "escText s @ QUOTE # t"
  have r: "rest r = escByte [] c @ ?u" using Cons.prems by simp
  have "rest (to r ?u) = ?u" by (rule rest_to) (rule r)
  then show ?case
    using Cons.IH [of "to r ?u" "out @ [c]"] Cons.prems str_loop_escByte [OF r] by simp
qed

lemma str_text:
  assumes "rest r = esc [] s @ t" "validUTF8 s"
  shows "str r = Inr (s, to r t)"
proof -
  have r: "rest r = QUOTE # escText s @ QUOTE # t" using assms by (simp add: esc_text)
  then have "rest (to r (escText s @ QUOTE # t)) = escText s @ QUOTE # t"
    using rest_to [of r "[QUOTE]"] by simp
  then show ?thesis
    using str_loop_text [of "to r (escText s @ QUOTE # t)" s t "[]"] assms(2) r skip1_to [OF r]
    by (simp add: str_def)
qed

lemma str_loop_forward: "str_loop out r = Inr (v, r') \<Longrightarrow> forward r r' \<and> validUTF8 v"
proof (induction out r rule: str_loop.induct)
  case (1 out r)
  show ?case
  proof (cases "r_pos r < length (r_buf r)")
    case lt: True
    let ?c = "r_buf r ! r_pos r"
    note sk = forward_skip1 [OF lt]
    consider "?c = QUOTE" | "?c \<noteq> QUOTE" "\<not> bv ?c < 32" "?c = BSLASH"
      | "?c \<noteq> QUOTE" "\<not> bv ?c < 32" "?c \<noteq> BSLASH"
      using "1.prems" lt by (auto simp: str_loop.simps [of out r] Let_def split: if_splits)
    then show ?thesis
    proof cases
      case 1
      then show ?thesis
        using "1.prems" lt sk by (auto simp: str_loop.simps [of out r] Let_def split: if_splits)
    next
      case 2
      then obtain out' r1 where e: "escape out r = Inr (out', r1)"
        and l: "str_loop out' r1 = Inr (v, r')"
        using "1.prems" lt by (auto simp: str_loop.simps [of out r] Let_def split: sum.splits)
      have "forward (skip1 (skip1 r)) r1" using escape_forward [OF e] .
      then have "forward r r1"
        using e by (auto simp: forward_def skip1_def in_buf_def escape_def Let_def split: if_splits)
      moreover have "forward r1 r' \<and> validUTF8 v"
        using "1.IH"(1) lt 2 e l by (simp add: not_le)
      ultimately show ?thesis using forward_trans by blast
    next
      case 3
      then have "str_loop (out @ [?c]) (skip1 r) = Inr (v, r')"
        using "1.prems" lt by (simp add: str_loop.simps [of out r])
      then have "forward (skip1 r) r' \<and> validUTF8 v"
        using "1.IH"(2) lt 3 by (simp add: not_le)
      then show ?thesis using sk forward_trans by blast
    qed
  qed (use "1.prems" in \<open>simp add: str_loop.simps [of out r]\<close>)
qed

lemma str_forward:
  assumes "str r = Inr (v, r')"
  shows "forward r r' \<and> r_pos r < r_pos r' \<and> validUTF8 v"
proof -
  have a: "at r = QUOTE" and "str_loop [] (skip1 r) = Inr (v, r')"
    using assms by (auto simp: str_def split: if_splits)
  then have *: "forward (skip1 r) r'" "validUTF8 v" using str_loop_forward by blast+
  have "r_pos r < length (r_buf r)" using a by (intro at_nz_in) simp
  then show ?thesis
    using * forward_trans [OF forward_skip1 *(1)] by (simp add: forward_def skip1_def)
qed

subsection \<open>Integers\<close>

function int_loop :: "u64 \<Rightarrow> reader \<Rightarrow> u64 read" where
  "int_loop u r =
     (let d = at r in
      if is_digit d then
        (if u > 922337203685477580 then Inl (refuse r ''number_spelling'')
         else int_loop (u * 10 + of_nat (bv d - 48)) (skip1 r))
      else Inr (u, r))"
  by pat_completeness auto
termination
proof (relation "measure (\<lambda>(u, r). length (r_buf r) - r_pos r)", goal_cases)
  case (2 u r x)
  then have "r_pos r < length (r_buf r)" by (intro at_nz_in) (auto simp: is_digit_def bv_def)
  then show ?case by (simp add: skip1_def)
qed simp

declare int_loop.simps [simp del]

definition integer_value :: "bool \<Rightarrow> u64 \<Rightarrow> i64 option" where
  "integer_value neg u =
     (if neg \<and> u = 2 ^ 63 then Some (- (2 ^ 63))
      else if u > 2 ^ 63 - 1 then None
      else if neg then Some (- u)
      else Some u)"

definition integer :: "i64 \<Rightarrow> i64 \<Rightarrow> reader \<Rightarrow> i64 read" where
  "integer lo hi r =
     (let c = at r in
      if c \<noteq> CHR ''-'' \<and> \<not> is_digit c then Inl (refuse r ''wrong_type'')
      else
        let neg = (c = CHR ''-''); r1 = (if neg then skip1 r else r); d = at r1 in
        if \<not> is_digit d then Inl (refuse r1 ''malformed'')
        else (case (if d = CHR ''0'' then Inr (0, skip1 r1) else int_loop 0 r1) of
          Inl e \<Rightarrow> Inl e
        | Inr (u, r2) \<Rightarrow>
            (let c2 = at r2 in
             if c2 = CHR ''.'' \<or> c2 = CHR ''e'' \<or> c2 = CHR ''E'' \<or> is_digit c2
             then Inl (refuse r2 ''number_spelling'')
             else if neg \<and> u = 0 then Inl (refuse r2 ''number_spelling'')
             else (case integer_value neg u of
               None \<Rightarrow> Inl (refuse r2 ''number_spelling'')
             | Some n \<Rightarrow>
                 (if sint n < sint lo \<or> sint n > sint hi
                  then Inl (refuse r2 ''number_spelling'')
                  else Inr (n, r2))))))"

definition MinInt64 :: i64 where "MinInt64 = - (2 ^ 63)"
definition MaxInt64 :: i64 where "MaxInt64 = 2 ^ 63 - 1"

subsection \<open>Booleans and literals\<close>

definition literal :: "string \<Rightarrow> reader \<Rightarrow> unit read" where
  "literal word r =
     (if r_pos r + length word > length (r_buf r)
         \<or> take (length word) (drop (r_pos r) (r_buf r)) \<noteq> word
      then Inl (refuse r ''malformed'')
      else Inr ((), r\<lparr>r_pos := r_pos r + length word\<rparr>))"

definition boolean :: "reader \<Rightarrow> bool read" where
  "boolean r =
     (if at r = CHR ''t'' then
        (case literal ''true'' r of Inl e \<Rightarrow> Inl e | Inr (_, r') \<Rightarrow> Inr (True, r'))
      else if at r = CHR ''f'' then
        (case literal ''false'' r of Inl e \<Rightarrow> Inl e | Inr (_, r') \<Rightarrow> Inr (False, r'))
      else Inl (refuse r ''wrong_type''))"

lemma int_loop_forward: "int_loop u r = Inr (v, r') \<Longrightarrow> forward r r'"
proof (induction u r rule: int_loop.induct)
  case (1 u r)
  show ?case
  proof (cases "is_digit (at r)")
    case True
    then have "r_pos r < length (r_buf r)" by (intro at_nz_in) (auto simp: is_digit_def bv_def)
    then have "forward r (skip1 r)" by (rule forward_skip1)
    moreover have "forward (skip1 r) r'"
      using 1 True by (auto simp: int_loop.simps [of u r] Let_def split: if_splits)
    ultimately show ?thesis by (rule forward_trans)
  next
    case False
    then show ?thesis using "1.prems" by (simp add: int_loop.simps [of u r])
  qed
qed

lemma at_digit_in: "is_digit (at r) \<Longrightarrow> r_pos r < length (r_buf r)"
  by (intro at_nz_in) (auto simp: is_digit_def bv_def)

lemma integer_forward:
  assumes "integer lo hi r = Inr (n, r')"
  shows "forward r r'"
proof -
  let ?r1 = "if at r = CHR ''-'' then skip1 r else r"
  have d: "is_digit (at ?r1)"
    using assms by (auto simp: integer_def Let_def split: if_splits)
  obtain u where u: "(if at ?r1 = CHR ''0'' then Inr (0, skip1 ?r1) else int_loop 0 ?r1)
      = (Inr (u, r') :: u64 read)"
    using assms by (auto simp: integer_def Let_def split: if_splits sum.splits option.splits)
  have "forward r ?r1"
    using at_nz_in [of r] by (auto intro: forward_skip1)
  also have "forward ?r1 r'"
    using u int_loop_forward [of 0 ?r1 u r'] forward_skip1 [OF at_digit_in [OF d]]
    by (auto split: if_splits)
  finally show ?thesis .
qed

lemma literal_forward: "literal w r = Inr (u, r') \<Longrightarrow> forward r r'"
  by (auto simp: literal_def forward_def in_buf_def split: if_splits)

lemma boolean_forward: "boolean r = Inr (b, r') \<Longrightarrow> forward r r'"
  by (auto simp: boolean_def dest: literal_forward split: if_splits sum.splits)

subsection \<open>Reading back a number\<close>

definition no_number :: "string \<Rightarrow> bool" where
  "no_number t \<longleftrightarrow>
     (\<forall>c u. t = c # u \<longrightarrow> c \<notin> {CHR ''.'', CHR ''e'', CHR ''E''} \<and> \<not> is_digit c)"

lemma digits_value_ge: "a \<le> digits_value a s"
proof (induction s arbitrary: a)
  case (Cons c s)
  show ?case
    using order_trans [OF _ Cons.IH [of "a * 10 + (bv c - 48)"], of a] by simp
qed simp

lemma int_loop_digits:
  "rest r = ds @ t \<Longrightarrow> \<forall>c \<in> set ds. is_digit c \<Longrightarrow> no_number t \<Longrightarrow> in_buf r \<Longrightarrow>
    digits_value (unat u) ds \<le> 2 ^ 63 \<Longrightarrow>
    \<exists>v. int_loop u r = Inr (v, to r t) \<and> unat v = digits_value (unat u) ds"
proof (induction ds arbitrary: r u)
  case Nil
  have "\<not> is_digit (at r)"
    using Nil by (auto simp: at_rest no_number_def is_digit_def bv_def split: list.split)
  then show ?case using Nil to_rest [of r] by (simp add: int_loop.simps [of u r])
next
  case (Cons c ds)
  then obtain d where d: "d < 10" "c = digit d" by (auto elim: is_digitE)
  have le: "unat u * 10 + d \<le> 2 ^ 63"
    using Cons.prems(5) digits_value_ge [of "unat u * 10 + d" ds] d by simp
  then have u: "\<not> u > 922337203685477580" by (simp add: word_less_nat_alt not_less)
  have next_u: "unat (u * 10 + of_nat d) = unat u * 10 + d"
    using le d by (simp add: unat_word_ariths unat_of_nat)
  have "int_loop u r = int_loop (u * 10 + of_nat d) (to r (ds @ t))"
    using Cons.prems d u skip1_to [of r c "ds @ t"] by (simp add: int_loop.simps [of u r])
  moreover have "rest (to r (ds @ t)) = ds @ t" using rest_to [of r "[c]"] Cons.prems by simp
  ultimately show ?case
    using Cons.IH [of "to r (ds @ t)" "u * 10 + of_nat d"] Cons.prems d next_u by simp
qed

lemma is_ws_number: "is_ws c \<or> c = CHR '','' \<Longrightarrow> no_number (c # u)"
  by (auto simp: no_number_def is_ws_def is_digit_def bv_def)

lemma sint_neg_cases:
  fixes n :: i64
  assumes "sint n < 0"
  shows "unat (- n) = nat (- sint n)"
proof -
  have b: "- (2 ^ 63) \<le> sint n" using sint_greater_eq [of n] by simp
  have "- n = word_of_int (- sint n)" by simp
  then have "uint (- n) = (- sint n) mod 2 ^ 64"
    by (simp only: uint_word_of_int_eq take_bit_eq_mod) simp
  also have "\<dots> = - sint n" using assms b by (intro mod_pos_pos_trivial) simp_all
  finally show ?thesis by (metis nat_uint_eq)
qed

lemma sint_nonneg_cases:
  fixes n :: i64
  assumes "0 \<le> sint n"
  shows "unat n = nat (sint n)"
proof -
  have "sint n < 2 ^ 63" using sint_less [of n] by simp
  moreover have "uint n = sint n mod 2 ^ 64"
    by (simp add: uint_sint take_bit_eq_mod)
  ultimately have "uint n = sint n" using assms by (simp add: mod_pos_pos_trivial)
  then show ?thesis by (metis nat_uint_eq)
qed

lemma integer_value_num:
  assumes "unat u = (if sint n < 0 then unat (- n) else unat (n :: i64))"
  shows "integer_value (sint n < 0) u = Some n"
proof -
  have u: "u = (if sint n < 0 then - n else n)" using assms by (simp add: word_unat_eq_iff split: if_splits)
  have b: "- (2 ^ 63) \<le> sint n" "sint n < 2 ^ 63"
    using sint_greater_eq [of n] sint_less [of n] by simp_all
  show ?thesis
  proof (cases "sint n < 0")
    case neg: True
    show ?thesis
    proof (cases "u = 2 ^ 63")
      case True
      then show ?thesis using neg u by (simp add: integer_value_def) (metis minus_minus)
    next
      case False
      have "unat u \<le> 2 ^ 63" using u neg sint_neg_cases [OF neg] b by simp
      moreover have "unat u \<noteq> 2 ^ 63"
        using False by (simp add: word_unat_eq_iff)
      ultimately have "\<not> u > 2 ^ 63 - 1" by (simp add: word_less_nat_alt not_less)
      then show ?thesis using neg u False by (simp add: integer_value_def)
    qed
  next
    case False
    then have "unat u < 2 ^ 63" using u sint_nonneg_cases [of n] b by simp
    then have "\<not> u > 2 ^ 63 - 1" by (simp add: word_less_nat_alt not_less)
    then show ?thesis using False u by (simp add: integer_value_def)
  qed
qed

lemma integer_num:
  assumes r: "rest r = num [] n @ t" and t: "no_number t"
    and lo: "sint lo \<le> sint n" and hi: "sint n \<le> sint hi"
  shows "integer lo hi r = Inr (n, to r t)"
proof (cases "n = 0")
  case True
  then have r0: "rest r = CHR ''0'' # t" using r by (simp add: num_def)
  have "rest (to r t) = t" using rest_to [of r "''0''" t] r0 by simp
  then have "at (to r t) \<notin> {CHR ''.'', CHR ''e'', CHR ''E''}" "\<not> is_digit (at (to r t))"
    using t by (auto simp: at_rest no_number_def is_digit_def bv_def split: list.split)
  then show ?thesis
    using r0 skip1_to [OF r0] True lo hi
    by (simp add: integer_def Let_def is_digit_def bv_def integer_value_def)
next
  case False
  define u where "u = (if sint n < 0 then - n else n)"
  define r' where "r' = (if sint n < 0 then skip1 r else r)"
  let ?ds = "num_loop u []"
  have u0: "u \<noteq> 0" using False by (simp add: u_def)
  note nd = num_loop_digits [of u]
  have r1: "rest r' = ?ds @ t"
    using r False by (auto simp: num_def Let_def u_def r'_def)
  obtain d ds where ds: "?ds = d # ds" using nd u0 by (cases ?ds) auto
  have d: "is_digit d" "d \<noteq> CHR ''0''" using nd u0 ds by auto
  have ib: "in_buf r'" using r1 ds rest_nonempty [of r' d "ds @ t"] by (simp add: in_buf_def)
  have b: "- (2 ^ 63) \<le> sint n" "sint n < 2 ^ 63"
    using sint_greater_eq [of n] sint_less [of n] by simp_all
  have "unat u \<le> 2 ^ 63" using sint_neg_cases [of n] sint_nonneg_cases [of n] b by (auto simp: u_def)
  moreover have dv: "digits_value (unat (0::u64)) ?ds = unat u" using nd by (simp only: unat_0)
  ultimately have le: "digits_value (unat (0::u64)) ?ds \<le> 2 ^ 63" by (simp only:)
  from nd have "\<forall>c \<in> set ?ds. is_digit c" by (rule conjunct1)
  from int_loop_digits [OF r1 this t ib le]
  obtain v where v1: "int_loop 0 r' = Inr (v, to r' t)"
    and "unat v = digits_value (unat (0::u64)) ?ds" by blast
  from this(2) dv have v2: "unat v = unat u" by (rule trans)
  have v0: "v \<noteq> 0" using v2 u0 by (auto simp: word_unat_eq_iff)
  have at1: "at r' = d" using r1 ds by simp
  have c: "at r = (if sint n < 0 then CHR ''-'' else d)"
    using r ds False by (auto simp: num_def Let_def u_def)
  have dm: "d \<noteq> CHR ''-''" using d(1) by (auto simp: is_digit_def bv_def)
  have to1: "to r' t = to r t" by (simp add: to_def skip1_def r'_def)
  have "rest (to r t) = t" using rest_to [OF r1] to1 by simp
  then have e: "at (to r t) \<notin> {CHR ''.'', CHR ''e'', CHR ''E''}" "\<not> is_digit (at (to r t))"
    using t by (auto simp: at_rest no_number_def is_digit_def bv_def split: list.split)
  have iv: "integer_value (sint n < 0) v = Some n"
    by (rule integer_value_num) (use v2 in \<open>simp add: u_def\<close>)
  show ?thesis
    using c dm d at1 v1 v0 e iv lo hi to1
    by (simp add: integer_def Let_def r'_def split: if_splits)
qed

end
