(* ===== verification/Wire_Skip.thy ===== *)
theory Wire_Skip
  imports Wire_Reader
begin

text \<open>
  The walk over an opaque value: \<^verbatim>\<open>skipValue\<close>, \<^verbatim>\<open>skipNumber\<close> and
  \<^verbatim>\<open>skipContainer\<close> of \<^verbatim>\<open>rec.go\<close>.  The three recurse through each other and the
  loop continues from wherever the value read left the reader, so termination rests on
  a partial-correctness fact proved first: a successful walk never moves backwards.
\<close>

subsection \<open>Scalars\<close>

definition skipString :: "reader \<Rightarrow> wire_error + reader" where
  "skipString r = (case str r of Inl e \<Rightarrow> Inl e | Inr (_, r') \<Rightarrow> Inr r')"

function digits_loop :: "nat \<Rightarrow> reader \<Rightarrow> nat \<times> reader" where
  "digits_loop n r = (if is_digit (at r) then digits_loop (n + 1) (skip1 r) else (n, r))"
  by pat_completeness auto
termination
proof (relation "measure (\<lambda>(n, r). length (r_buf r) - r_pos r)", goal_cases)
  case (2 n r)
  then show ?case using at_digit_in [of r] by (simp add: skip1_def)
qed simp

declare digits_loop.simps [simp del]

definition someDigits :: "reader \<Rightarrow> wire_error + reader" where
  "someDigits r =
     (case digits_loop 0 r of (n, r') \<Rightarrow>
        if n = 0 then Inl (refuse r' ''number_spelling'') else Inr r')"

definition skipNumber :: "reader \<Rightarrow> wire_error + reader" where
  "skipNumber r =
     (let r1 = (if at r = CHR ''-'' then skip1 r else r) in
      case (if at r1 = CHR ''0'' then Inr (skip1 r1)
            else if CHR ''1'' \<le> at r1 \<and> at r1 \<le> CHR ''9'' then Inr (snd (digits_loop 0 r1))
            else Inl (refuse r1 ''number_spelling'')) of
        Inl e \<Rightarrow> Inl e
      | Inr r2 \<Rightarrow>
          (case (if at r2 = CHR ''.'' then someDigits (skip1 r2) else Inr r2) of
             Inl e \<Rightarrow> Inl e
           | Inr r3 \<Rightarrow>
               (if at r3 = CHR ''e'' \<or> at r3 = CHR ''E'' then
                  (let r4 = skip1 r3;
                       r5 = (if at r4 = CHR ''+'' \<or> at r4 = CHR ''-'' then skip1 r4 else r4)
                   in someDigits r5)
                else Inr r3)))"

definition skipLiteral :: "string \<Rightarrow> reader \<Rightarrow> wire_error + reader" where
  "skipLiteral w r = (case literal w r of Inl e \<Rightarrow> Inl e | Inr (_, r') \<Rightarrow> Inr r')"

text \<open>The key of an object member, with its colon and the white space around it.\<close>

definition member_key :: "reader \<Rightarrow> string read" where
  "member_key r =
     (if at r \<noteq> QUOTE then Inl (refuse r ''malformed'')
      else case str r of
        Inl e \<Rightarrow> Inl e
      | Inr (k, r1) \<Rightarrow>
          (let r2 = ws r1 in
           if at r2 \<noteq> CHR '':'' then Inl (refuse r2 ''malformed'')
           else Inr (k, ws (skip1 r2))))"

lemma digits_loop_forward: "forward r (snd (digits_loop n r))"
proof (induction n r rule: digits_loop.induct)
  case (1 n r)
  show ?case
  proof (cases "is_digit (at r)")
    case True
    then have "forward r (skip1 r)" by (intro forward_skip1 at_digit_in)
    also have "forward (skip1 r) (snd (digits_loop (n + 1) (skip1 r)))" using 1 True by blast
    finally show ?thesis using True by (simp add: digits_loop.simps [of n r])
  qed (simp add: digits_loop.simps [of n r])
qed

lemma forward_skip1_at: "at r = c \<Longrightarrow> c \<noteq> CHR 0x00 \<Longrightarrow> forward r (skip1 r)"
  using at_nz_in [of r] by (auto intro: forward_skip1)

lemma someDigits_forward: "someDigits r = Inr r' \<Longrightarrow> forward r r'"
  using digits_loop_forward [of r 0] by (auto simp: someDigits_def split: prod.splits if_splits)

lemma skipString_forward: "skipString r = Inr r' \<Longrightarrow> forward r r'"
  by (auto simp: skipString_def dest: str_forward split: sum.splits)

lemma skipLiteral_forward: "skipLiteral w r = Inr r' \<Longrightarrow> forward r r'"
  by (auto simp: skipLiteral_def dest: literal_forward split: sum.splits)

lemma skipNumber_forward:
  assumes "skipNumber r = Inr r'"
  shows "forward r r'"
proof -
  define r1 where "r1 = (if at r = CHR ''-'' then skip1 r else r)"
  have f1: "forward r r1" by (auto simp: r1_def intro: forward_skip1_at)
  obtain r2 where r2: "(if at r1 = CHR ''0'' then Inr (skip1 r1)
        else if CHR ''1'' \<le> at r1 \<and> at r1 \<le> CHR ''9'' then Inr (snd (digits_loop 0 r1))
        else Inl (refuse r1 ''number_spelling'')) = Inr r2"
    and r3: "(case (if at r2 = CHR ''.'' then someDigits (skip1 r2) else Inr r2) of
             Inl e \<Rightarrow> Inl e
           | Inr r3 \<Rightarrow>
               (if at r3 = CHR ''e'' \<or> at r3 = CHR ''E'' then
                  (let r4 = skip1 r3;
                       r5 = (if at r4 = CHR ''+'' \<or> at r4 = CHR ''-'' then skip1 r4 else r4)
                   in someDigits r5)
                else Inr r3)) = Inr r'"
    using assms unfolding skipNumber_def Let_def r1_def by (auto split: sum.splits)
  have f2: "forward r1 r2"
    using r2 digits_loop_forward [of r1 0] by (auto split: if_splits intro: forward_skip1_at)
  obtain r3' where r3': "(if at r2 = CHR ''.'' then someDigits (skip1 r2) else Inr r2) = Inr r3'"
    and r4: "(if at r3' = CHR ''e'' \<or> at r3' = CHR ''E'' then
                  (let r4 = skip1 r3';
                       r5 = (if at r4 = CHR ''+'' \<or> at r4 = CHR ''-'' then skip1 r4 else r4)
                   in someDigits r5)
                else Inr r3') = Inr r'"
    using r3 by (auto split: sum.splits)
  have f3: "forward r2 r3'"
    using r3' by (auto split: if_splits dest!: someDigits_forward
        intro: forward_trans [OF forward_skip1_at])
  have f4: "forward r3' r'"
    using r4 by (auto simp: Let_def split: if_splits dest!: someDigits_forward
        intro: forward_trans [OF forward_skip1_at] forward_skip1_at)
  show ?thesis using f1 f2 f3 f4 forward_trans by blast
qed

lemma member_key_forward:
  assumes "member_key r = Inr (k, r')"
  shows "forward r r' \<and> r_pos r < r_pos r'"
proof -
  obtain r1 where s: "str r = Inr (k, r1)" and c: "at (ws r1) = CHR '':''"
    and r': "r' = ws (skip1 (ws r1))"
    using assms by (auto simp: member_key_def Let_def split: if_splits sum.splits)
  have "forward r1 (ws r1)" by (rule forward_ws)
  also have "forward (ws r1) (skip1 (ws r1))" by (rule forward_skip1_at [OF c]) simp
  also have "forward (skip1 (ws r1)) r'" unfolding r' by (rule forward_ws)
  finally have "forward r1 r'" .
  moreover have "forward r r1 \<and> r_pos r < r_pos r1" using str_forward [OF s] by simp
  ultimately show ?thesis using forward_trans by (auto simp: forward_def)
qed

lemma enter_leave_forward:
  assumes "enter r = Inr r1" "forward (skip1 r1) r2" "at r2 \<noteq> CHR 0x00"
    "r_pos r < length (r_buf r)"
  shows "forward r (leave r2) \<and> r_pos r < r_pos (leave r2)"
  using assms at_nz_in [of r2]
  by (auto simp: enter_def leave_def skip1_def forward_def in_buf_def Let_def split: if_splits)

subsection \<open>Containers\<close>

function skipValue :: "reader \<Rightarrow> wire_error + reader"
  and skipContainer :: "reader \<Rightarrow> wire_error + reader"
  and skip_members :: "char \<Rightarrow> reader \<Rightarrow> wire_error + reader" where
  "skipValue r =
     (let c = at r in
      if c = QUOTE then skipString r
      else if c = CHR ''{'' \<or> c = CHR ''['' then skipContainer r
      else if c = CHR ''t'' then skipLiteral ''true'' r
      else if c = CHR ''f'' then skipLiteral ''false'' r
      else if c = CHR ''n'' then skipLiteral ''null'' r
      else if c = CHR ''-'' \<or> is_digit c then skipNumber r
      else Inl (refuse r ''malformed''))"
| "skipContainer r =
     (if r_pos r \<ge> length (r_buf r) then Inl (Panic ''index out of range'') else
      let opn = r_buf r ! r_pos r; shut = (if opn = CHR ''['' then CHR '']'' else CHR ''}'') in
      case enter r of
        Inl e \<Rightarrow> Inl e
      | Inr r1 \<Rightarrow>
          (let r2 = ws (skip1 r1) in
           case (if at r2 \<noteq> shut then skip_members opn r2 else Inr r2) of
             Inl e \<Rightarrow> Inl e
           | Inr r3 \<Rightarrow>
               (if at r3 \<noteq> shut then Inl (refuse r3 ''malformed'') else Inr (leave r3))))"
| "skip_members opn r =
     (let r0 = ws r in
      case (if opn = CHR ''{''
            then (case member_key r0 of Inl e \<Rightarrow> Inl e | Inr (_, r1) \<Rightarrow> Inr r1)
            else Inr r0) of
        Inl e \<Rightarrow> Inl e
      | Inr r1 \<Rightarrow>
          (case skipValue r1 of
             Inl e \<Rightarrow> Inl e
           | Inr r2 \<Rightarrow>
               (let r3 = ws r2 in
                if at r3 \<noteq> CHR '','' then Inr r3 else skip_members opn (skip1 r3))))"
  by pat_completeness auto

text \<open>
  Wherever the recursion is defined, a walk that succeeds has moved forward: this is what
  makes the loop's next call smaller.
\<close>

lemma skip_forward_dom:
  "skipValue_skipContainer_skip_members_dom (Inl r) \<Longrightarrow>
     skipValue r = Inr r' \<Longrightarrow> forward r r'"
  "skipValue_skipContainer_skip_members_dom (Inr (Inl r)) \<Longrightarrow>
     skipContainer r = Inr r' \<Longrightarrow> forward r r'"
  "skipValue_skipContainer_skip_members_dom (Inr (Inr (c, r))) \<Longrightarrow>
     skip_members c r = Inr r' \<Longrightarrow> forward r r'"
proof (induction r and r and c r arbitrary: r' and r' and r'
    rule: skipValue_skipContainer_skip_members.pinduct)
  case (1 r)
  then show ?case
    by (auto simp: skipValue.psimps Let_def is_digit_def bv_def split: if_splits
        dest!: skipString_forward skipLiteral_forward skipNumber_forward)
next
  case (2 r)
  have lt: "r_pos r < length (r_buf r)"
    using "2.prems" "2.hyps" by (auto simp: skipContainer.psimps split: if_splits)
  let ?c = "r_buf r ! r_pos r"
  define shut where "shut = (if ?c = CHR ''['' then CHR '']'' else CHR ''}'')"
  obtain r1 where e: "enter r = Inr r1"
    using "2.prems" "2.hyps" lt by (auto simp: skipContainer.psimps Let_def split: sum.splits)
  define r2 where "r2 = ws (skip1 r1)"
  obtain r3 where m: "(if at r2 \<noteq> shut then skip_members ?c r2 else Inr r2) = Inr r3"
    and s: "at r3 = shut" and r': "r' = leave r3"
    using "2.prems"(1) "2.hyps" e lt
    by (auto simp: skipContainer.psimps Let_def shut_def [symmetric] r2_def [symmetric]
        split: sum.splits if_splits)
  have "forward r2 r3"
    using m "2.IH" [OF _ refl shut_def e r2_def] lt by (auto split: if_splits)
  then have "forward (skip1 r1) r3" using forward_ws forward_trans unfolding r2_def by blast
  moreover have "at r3 \<noteq> CHR 0x00" using s by (auto simp: shut_def)
  ultimately show ?case
    using enter_leave_forward [OF e _ _ lt] r' by blast
next
  case (3 opn r)
  define r0 where "r0 = ws r"
  let ?key = "if opn = CHR ''{''
            then (case member_key r0 of Inl e \<Rightarrow> Inl e | Inr (_, r1) \<Rightarrow> Inr r1)
            else Inr r0"
  obtain r1 r2 where k: "?key = Inr r1" and v: "skipValue r1 = Inr r2"
    and n: "(if at (ws r2) \<noteq> CHR '','' then Inr (ws r2) else skip_members opn (skip1 (ws r2)))
      = Inr r'"
    using "3.prems" "3.hyps"
    by (auto simp: skip_members.psimps [OF "3.hyps"] Let_def r0_def [symmetric] split: sum.splits)
  have "forward r r0" unfolding r0_def by (rule forward_ws)
  also have "forward r0 r1"
    using k by (auto split: if_splits sum.splits dest: member_key_forward)
  also have "forward r1 r2" using "3.IH"(1) [OF r0_def k v] .
  also have "forward r2 (ws r2)" by (rule forward_ws)
  also have "forward (ws r2) r'"
    using n "3.IH"(2) [OF r0_def k v refl]
    by (auto split: if_splits intro: forward_trans [OF forward_skip1_at])
  finally show ?case .
qed

lemma enter_pos: "enter r = Inr r1 \<Longrightarrow> r_pos r1 = r_pos r \<and> r_buf r1 = r_buf r"
  by (auto simp: enter_def Let_def split: if_splits)

lemma members_key_forward:
  "(if c = CHR ''{'' then (case member_key (ws r) of Inl e \<Rightarrow> Inl e | Inr (_, r1) \<Rightarrow> Inr r1)
     else Inr (ws r)) = Inr r1 \<Longrightarrow> forward r r1"
  using forward_ws [of r]
  by (auto split: if_splits sum.splits dest!: member_key_forward intro: forward_trans)

lemma skip_dom: "All skipValue_skipContainer_skip_members_dom"
proof (relation "measure (\<lambda>x. case x of
      Inl r \<Rightarrow> 3 * (length (r_buf r) - r_pos r) + 1
    | Inr (Inl r) \<Rightarrow> 3 * (length (r_buf r) - r_pos r)
    | Inr (Inr (c, r)) \<Rightarrow> 3 * (length (r_buf r) - r_pos r) + 2)", goal_cases)
  case (3 r c shut r1 r2)
  have "forward (skip1 r1) r2" unfolding 3 by (rule forward_ws)
  then show ?case using 3 enter_pos [OF 3(4)] by (auto simp: forward_def skip1_def)
next
  case (4 c r r0 r1)
  then show ?case using members_key_forward [of c r r1] by (auto simp: forward_def)
next
  case (5 c r r0 r1 r2 r3)
  have "forward r r1" using 5(2) unfolding 5(1) by (rule members_key_forward)
  also have "forward r1 r2" using skip_forward_dom(1) 5 by blast
  also have "forward r2 r3" unfolding 5 by (rule forward_ws)
  finally have "forward r r3" .
  moreover have "r_pos r3 < length (r_buf r3)" using 5 by (intro at_nz_in) auto
  ultimately show ?case by (auto simp: forward_def skip1_def)
qed simp_all

termination skipValue
  by (rule skip_dom)

declare skipValue.simps [simp del] skipContainer.simps [simp del] skip_members.simps [simp del]

lemma skipValue_forward: "skipValue r = Inr r' \<Longrightarrow> forward r r'"
  using skip_forward_dom(1) skip_dom by blast

end
