(* ===== verification/Wire_Timestamp.thy ===== *)
theory Wire_Timestamp
  imports Wire_Reader
begin

text \<open>
  Timestamps of \<^verbatim>\<open>rec.go\<close>: what a reader accepts (\<^verbatim>\<open>lexicalTimestamp\<close> and the
  calendar checks), and the one spelling a writer emits (\<^verbatim>\<open>normalizedTimestamp\<close>: six
  fractional digits, upper-case separators, UTC).  Go's \<^verbatim>\<open>int\<close> is \<^typ>\<open>int\<close> here: every
  number read has at most four digits.  The result \<open>''''\<close> means "not a timestamp", as in
  the code.
\<close>

subsection \<open>The lexical form\<close>

definition digits :: "string \<Rightarrow> nat \<Rightarrow> nat \<Rightarrow> bool" where
  "digits s i n \<longleftrightarrow> i + n \<le> length s \<and> list_all (\<lambda>k. is_digit (s ! (i + k))) [0..<n]"

definition datePart :: "string \<Rightarrow> bool" where
  "datePart s \<longleftrightarrow>
     length s \<ge> 19 \<and> digits s 0 4 \<and> s ! 4 = CHR ''-'' \<and> digits s 5 2 \<and> s ! 7 = CHR ''-''
     \<and> digits s 8 2 \<and> digits s 11 2 \<and> s ! 13 = CHR '':'' \<and> digits s 14 2
     \<and> s ! 16 = CHR '':'' \<and> digits s 17 2"

text \<open>The loop that counts the digits from index \<open>i\<close> on.\<close>

definition digit_run :: "string \<Rightarrow> nat \<Rightarrow> nat" where
  "digit_run s i = length (takeWhile is_digit (drop i s))"

definition lexicalTimestamp :: "string \<Rightarrow> bool" where
  "lexicalTimestamp s =
     (if \<not> datePart s \<or> (s ! 10 \<noteq> CHR ''T'' \<and> s ! 10 \<noteq> CHR ''t'') then False
      else
        let dot = (19 < length s \<and> s ! 19 = CHR ''.'');
            n = digit_run s 20;
            i = (if dot then 20 + n else 19)
        in
        if dot \<and> (n < 1 \<or> n > 9) then False
        else if i \<ge> length s then False
        else if s ! i = CHR ''Z'' \<or> s ! i = CHR ''z'' then i + 1 = length s
        else if s ! i \<noteq> CHR ''+'' \<and> s ! i \<noteq> CHR ''-'' then False
        else length s = i + 6 \<and> digits s (i + 1) 2 \<and> s ! (i + 3) = CHR '':''
             \<and> digits s (i + 4) 2)"

subsection \<open>Normalization\<close>

definition timestampNumber :: "string \<Rightarrow> nat \<Rightarrow> nat \<Rightarrow> int" where
  "timestampNumber s i n = foldl (\<lambda>v k. v * 10 + (int (bv (s ! (i + k))) - 48)) 0 [0..<n]"

definition timestampDays :: "int \<Rightarrow> int \<Rightarrow> int" where
  "timestampDays y m =
     (if m = 2 then
        (if y mod 4 = 0 \<and> (y mod 100 \<noteq> 0 \<or> y mod 400 = 0) then 29 else 28)
      else if m = 4 \<or> m = 6 \<or> m = 9 \<or> m = 11 then 30
      else 31)"

text \<open>The day after the minutes of the day were moved by the offset, and its carries.\<close>

definition carry_total :: "int \<Rightarrow> int \<Rightarrow> int \<times> int" where
  "carry_total mins d =
     (if mins < 0 then (mins + 1440, d - 1)
      else if mins \<ge> 1440 then (mins - 1440, d + 1)
      else (mins, d))"

definition carry_down :: "int \<Rightarrow> int \<Rightarrow> int \<Rightarrow> int \<times> int \<times> int" where
  "carry_down y m d =
     (if d = 0 then
        (let m' = m - 1; y' = (if m' = 0 then y - 1 else y); m'' = (if m' = 0 then 12 else m')
         in (y', m'', timestampDays y' m''))
      else (y, m, d))"

definition carry_up :: "int \<Rightarrow> int \<Rightarrow> int \<Rightarrow> int \<times> int \<times> int" where
  "carry_up y m d =
     (if d > timestampDays y m then
        (let m' = m + 1 in if m' = 13 then (y + 1, 1, 1) else (y, m', 1))
      else (y, m, d))"

fun put_number :: "string \<Rightarrow> nat \<Rightarrow> nat \<Rightarrow> int \<Rightarrow> string" where
  "put_number out a 0 value = out"
| "put_number out a (Suc k) value =
     put_number (out[a + k := char_of (48 + nat (value mod 10))]) a k (value div 10)"

fun put_fraction :: "string \<Rightarrow> nat \<Rightarrow> string \<Rightarrow> string" where
  "put_fraction out k [] = out"
| "put_fraction out k (c # cs) =
     (if k < 6 then put_fraction (out[20 + k := c]) (Suc k) cs else out)"

definition render_timestamp ::
  "int \<Rightarrow> int \<Rightarrow> int \<Rightarrow> int \<Rightarrow> int \<Rightarrow> string \<Rightarrow> string" where
  "render_timestamp y m d mins sec fraction =
     (let out = ''0000-00-00T00:00:00.000000Z'';
          out = put_number out 0 4 y;
          out = put_number out 5 2 m;
          out = put_number out 8 2 d;
          out = put_number out 11 2 (mins div 60);
          out = put_number out 14 2 (mins mod 60);
          out = put_number out 17 2 sec
      in put_fraction out 0 fraction)"

definition normalizedTimestamp :: "string \<Rightarrow> string" where
  "normalizedTimestamp s =
     (if \<not> lexicalTimestamp s then ''''
      else
        let y = timestampNumber s 0 4; m = timestampNumber s 5 2; d = timestampNumber s 8 2;
            h = timestampNumber s 11 2; minute = timestampNumber s 14 2;
            sec = timestampNumber s 17 2
        in
        if m < 1 \<or> m > 12 \<or> d < 1 \<or> d > timestampDays y m \<or> h > 23 \<or> minute > 59 \<or> sec > 59
        then ''''
        else
          let i = (if s ! 19 = CHR ''.'' then 20 + digit_run s 20 else 19);
              fraction = (if s ! 19 = CHR ''.'' then take (digit_run s 20) (drop 20 s) else '''');
              oh = timestampNumber s (i + 1) 2; om = timestampNumber s (i + 4) 2;
              signed = (s ! i = CHR ''+'' \<or> s ! i = CHR ''-'')
          in
          if signed \<and> (oh > 23 \<or> om > 59) then ''''
          else
            let offset = oh * 60 + om;
                mins = h * 60 + minute;
                mins = (if \<not> signed then mins
                         else if s ! i = CHR ''+'' then mins - offset else mins + offset);
                (mins, d) = carry_total mins d;
                (y, m, d) = carry_down y m d;
                (y, m, d) = carry_up y m d
            in
            if y < 0 \<or> y > 9999 then '''' else render_timestamp y m d mins sec fraction)"

definition MicrosTimestamp :: "string \<Rightarrow> bool" where
  "MicrosTimestamp s \<longleftrightarrow> length s = 27 \<and> normalizedTimestamp s = s"

definition WideTimestamp :: "string \<Rightarrow> bool" where
  "WideTimestamp s \<longleftrightarrow> normalizedTimestamp s \<noteq> ''''"

text \<open>A writer panics with a refusal when the instant it holds is not a timestamp.\<close>

definition writeTimestamp :: "string \<Rightarrow> wire_error + string" where
  "writeTimestamp s =
     (let result = normalizedTimestamp s
      in if result = '''' then Inl (Refusal ''bad_timestamp'' 0) else Inr result)"

definition timestamp :: "reader \<Rightarrow> string read" where
  "timestamp r =
     (case str r of
        Inl e \<Rightarrow> Inl e
      | Inr (s, r') \<Rightarrow>
          (if \<not> WideTimestamp s then Inl (refuse (r'\<lparr>r_pos := r_pos r\<rparr>) ''bad_timestamp'')
           else Inr (s, r')))"

subsection \<open>The shape of a normalized timestamp\<close>

definition D :: "int \<Rightarrow> char" where
  "D v = digit (nat (v mod 10))"

lemma is_digit_D [simp]: "is_digit (D v)"
  by (simp add: D_def nat_less_iff)

lemma bv_D [simp]: "int (bv (D v)) - 48 = v mod 10"
  by (simp add: D_def nat_less_iff)

lemma put_number_2: "put_number out a 2 v = out[a + 1 := D v, a := D (v div 10)]"
  by (simp add: eval_nat_numeral D_def digit_def)

lemma put_number_4:
  "put_number out a 4 v =
     out[a + 3 := D v, a + 2 := D (v div 10), a + 1 := D (v div 100), a := D (v div 1000)]"
  by (simp add: eval_nat_numeral D_def digit_def flip: zdiv_zmult2_eq)

lemma put_fraction_shape:
  assumes "length base = 20 + k" "length zs = 6 - k"
  shows "put_fraction (base @ zs @ t) k f = base @ (take (6 - k) f @ drop (length f) zs) @ t"
  using assms
proof (induction f arbitrary: k base zs)
  case (Cons c f)
  show ?case
  proof (cases "k < 6")
    case True
    then obtain z zs' where zs: "zs = z # zs'" using Cons.prems by (cases zs) auto
    have "6 - k = Suc (5 - k)" using True by simp
    moreover have "(base @ zs @ t)[20 + k := c] = (base @ [c]) @ zs' @ t"
      using Cons.prems zs by (simp add: list_update_append)
    ultimately show ?thesis
      using True zs Cons.IH [of "base @ [c]" "Suc k" zs'] Cons.prems by simp
  qed (use Cons.prems in simp)
qed simp

definition date_time_text :: "int \<Rightarrow> int \<Rightarrow> int \<Rightarrow> int \<Rightarrow> int \<Rightarrow> string" where
  "date_time_text y m d mins sec =
    [D (y div 1000), D (y div 100), D (y div 10), D y, CHR ''-'', D (m div 10), D m, CHR ''-'',
     D (d div 10), D d, CHR ''T'', D (mins div 60 div 10), D (mins div 60), CHR '':'',
     D (mins mod 60 div 10), D (mins mod 60), CHR '':'', D (sec div 10), D sec, CHR ''.'']"

lemma render_timestamp_shape:
  "render_timestamp y m d mins sec f =
    date_time_text y m d mins sec @ (take 6 f @ drop (length f) ''000000'') @ ''Z''"
  using put_fraction_shape [of "date_time_text y m d mins sec" 0 "''000000''" "''Z''" f]
  by (simp add: render_timestamp_def date_time_text_def Let_def put_number_2 put_number_4)

text \<open>Any six digits after the date and time spell a timestamp the reader accepts.\<close>

lemma length_6: "length z = 6 \<Longrightarrow> \<exists>a b c d e g. z = [a, b, c, d, e, g]"
  by (auto simp: numeral_eq_Suc length_Suc_conv)

lemma six_digits:
  assumes "list_all is_digit f"
  shows "\<exists>a b c d e g. take 6 f @ drop (length f) ''000000'' = [a, b, c, d, e, g]
    \<and> list_all is_digit [a, b, c, d, e, g]"
proof -
  let ?z = "take 6 f @ drop (length f) ''000000''"
  have "length ?z = 6" by simp
  then obtain a b c d e g where z: "?z = [a, b, c, d, e, g]"
    using length_6 by blast
  have "list_all is_digit ''000000''" by code_simp
  then have "list_all is_digit ?z"
    using assms by (auto simp: list_all_iff dest: in_set_takeD in_set_dropD)
  then show ?thesis using z by metis
qed

lemma upt_2: "[0..<2] = [0, 1::nat]" and upt_4: "[0..<4] = [0, 1, 2, 3::nat]"
  by (simp_all add: upt_rec)

lemma lexical_date_time:
  assumes "list_all is_digit [f0, f1, f2, f3, f4, f5]"
  shows "lexicalTimestamp (date_time_text y m d mins sec @ [f0, f1, f2, f3, f4, f5] @ ''Z'')"
    and "digit_run (date_time_text y m d mins sec @ [f0, f1, f2, f3, f4, f5] @ ''Z'') 20 = 6"
proof -
  let ?s = "date_time_text y m d mins sec @ [f0, f1, f2, f3, f4, f5] @ ''Z''"
  have nz: "\<not> is_digit (CHR ''Z'')" by code_simp
  show run: "digit_run ?s 20 = 6"
    using assms nz by (simp add: digit_run_def date_time_text_def)
  have "datePart ?s"
    by (simp add: datePart_def digits_def upt_2 upt_4 date_time_text_def)
  then show "lexicalTimestamp ?s"
    using run by (simp add: lexicalTimestamp_def date_time_text_def)
qed

lemma number_4:
  assumes "0 \<le> y" "y \<le> (9999::int)"
  shows "((y div 1000 mod 10 * 10 + y div 100 mod 10) * 10 + y div 10 mod 10) * 10 + y mod 10 = y"
proof -
  have "y div 1000 = y div 100 div 10" "y div 100 = y div 10 div 10"
    by (simp_all flip: zdiv_zmult2_eq)
  moreover have "y div 1000 mod 10 = y div 1000" using assms by (intro mod_pos_pos_trivial) auto
  ultimately show ?thesis by (metis div_mult_mod_eq)
qed

lemma number_2:
  assumes "0 \<le> v" "v \<le> (99::int)"
  shows "v div 10 mod 10 * 10 + v mod 10 = v"
proof -
  have "v div 10 mod 10 = v div 10" using assms by (intro mod_pos_pos_trivial) auto
  then show ?thesis by simp
qed

subsection \<open>Normalization is idempotent\<close>

definition civil :: "int \<Rightarrow> int \<Rightarrow> int \<Rightarrow> int \<Rightarrow> int \<Rightarrow> bool" where
  "civil y m d mins sec \<longleftrightarrow>
     0 \<le> y \<and> y \<le> 9999 \<and> 1 \<le> m \<and> m \<le> 12 \<and> 1 \<le> d \<and> d \<le> timestampDays y m
     \<and> 0 \<le> mins \<and> mins < 1440 \<and> 0 \<le> sec \<and> sec \<le> 59"

lemma timestampDays_bounds: "28 \<le> timestampDays y m" "timestampDays y m \<le> 31"
  by (simp_all add: timestampDays_def)

lemma number_of_text:
  "timestampNumber (date_time_text y m d mins sec @ t) 0 4
     = ((y div 1000 mod 10 * 10 + y div 100 mod 10) * 10 + y div 10 mod 10) * 10 + y mod 10"
  "timestampNumber (date_time_text y m d mins sec @ t) 5 2 = m div 10 mod 10 * 10 + m mod 10"
  "timestampNumber (date_time_text y m d mins sec @ t) 8 2 = d div 10 mod 10 * 10 + d mod 10"
  "timestampNumber (date_time_text y m d mins sec @ t) 11 2
     = mins div 60 div 10 mod 10 * 10 + mins div 60 mod 10"
  "timestampNumber (date_time_text y m d mins sec @ t) 14 2
     = mins mod 60 div 10 mod 10 * 10 + mins mod 60 mod 10"
  "timestampNumber (date_time_text y m d mins sec @ t) 17 2
     = sec div 10 mod 10 * 10 + sec mod 10"
  by (simp_all only: timestampNumber_def upt_2 upt_4 date_time_text_def) simp_all

lemma render_fixed:
  assumes c: "civil y m d mins sec" and f: "list_all is_digit f"
  shows "normalizedTimestamp (render_timestamp y m d mins sec f) = render_timestamp y m d mins sec f"
proof -
  obtain a0 a1 a2 a3 a4 a5
    where fr: "take 6 f @ drop (length f) ''000000'' = [a0, a1, a2, a3, a4, a5]"
      and di: "list_all is_digit [a0, a1, a2, a3, a4, a5]"
    using six_digits [OF f] by blast
  define s where "s = date_time_text y m d mins sec @ [a0, a1, a2, a3, a4, a5] @ ''Z''"
  have sf: "render_timestamp y m d mins sec f = s"
    unfolding render_timestamp_shape fr s_def ..
  have run: "digit_run s 20 = 6" and lex: "lexicalTimestamp s"
    using lexical_date_time [OF di] by (simp_all add: s_def)
  have b: "0 \<le> mins div 60" "mins div 60 \<le> 99" "0 \<le> mins mod 60" "mins mod 60 \<le> 99"
    "0 \<le> d" "d \<le> 99" "0 \<le> m" "m \<le> 99" "0 \<le> sec" "sec \<le> 99"
    using c timestampDays_bounds(2) [of y m] by (auto simp: civil_def)
  have n2: "timestampNumber s 5 2 = m" "timestampNumber s 8 2 = d"
    "timestampNumber s 11 2 = mins div 60" "timestampNumber s 14 2 = mins mod 60"
    "timestampNumber s 17 2 = sec"
    unfolding s_def number_of_text
    using b by (simp_all only: number_2)
  have n4: "timestampNumber s 0 4 = y"
    unfolding s_def number_of_text using c number_4 [of y] by (simp only: civil_def)
  have i: "s ! 19 = CHR ''.''" "s ! 26 = CHR ''Z''" "take 6 (drop 20 s) = [a0, a1, a2, a3, a4, a5]"
    by (simp_all add: s_def date_time_text_def)
  have "render_timestamp y m d mins sec [a0, a1, a2, a3, a4, a5] = s"
    by (simp add: render_timestamp_shape s_def)
  moreover have "mins div 60 \<le> 23" "mins mod 60 \<le> 59" "mins div 60 * 60 + mins mod 60 = mins"
    using c by (auto simp: civil_def)
  ultimately show ?thesis
    unfolding sf using lex n2 n4 i run c
    by (simp add: normalizedTimestamp_def Let_def civil_def carry_total_def carry_down_def
        carry_up_def not_less)
qed

lemma timestampNumber_2_nonneg: "digits s i 2 \<Longrightarrow> 0 \<le> timestampNumber s i 2"
  by (auto simp: digits_def timestampNumber_def upt_2 is_digit_def)

lemma timestampNumber_4_nonneg: "digits s i 4 \<Longrightarrow> 0 \<le> timestampNumber s i 4"
  by (auto simp: digits_def timestampNumber_def upt_4 is_digit_def)

lemma carry_civil:
  assumes "1 \<le> m" "m \<le> 12" "1 \<le> d" "d \<le> timestampDays y m"
    "- 1440 \<le> t" "t < 2880" "carry_total t d = (mins, d1)" "carry_down y m d1 = (y2, m2, d2)"
    "carry_up y2 m2 d2 = (y3, m3, d3)" "0 \<le> y3" "y3 \<le> 9999" "0 \<le> sec" "sec \<le> 59"
  shows "civil y3 m3 d3 mins sec"
proof -
  have "0 \<le> mins" "mins < 1440" "0 \<le> d1" "d1 \<le> timestampDays y m + 1"
    using assms(3-7) by (auto simp: carry_total_def split: if_splits)
  moreover have "1 \<le> m2" "m2 \<le> 12" "1 \<le> d2"
    using assms(1,2,8) \<open>0 \<le> d1\<close> timestampDays_bounds(1) [of y2 m2]
    by (auto simp: carry_down_def Let_def split: if_splits)
  moreover from this have "1 \<le> m3" "m3 \<le> 12" "1 \<le> d3" "d3 \<le> timestampDays y3 m3"
    using assms(9) timestampDays_bounds(1) [of y3 m3]
    by (auto simp: carry_up_def Let_def split: if_splits)
  ultimately show ?thesis using assms(10-) by (simp add: civil_def)
qed

lemma normalized_is_render:
  assumes "normalizedTimestamp s \<noteq> ''''"
  shows "\<exists>y m d mins sec f. normalizedTimestamp s = render_timestamp y m d mins sec f
    \<and> civil y m d mins sec \<and> list_all is_digit f"
proof -
  define y m d h minute sec where "y = timestampNumber s 0 4" and "m = timestampNumber s 5 2"
    and "d = timestampNumber s 8 2" and "h = timestampNumber s 11 2"
    and "minute = timestampNumber s 14 2" and "sec = timestampNumber s 17 2"
  define i where "i = (if s ! 19 = CHR ''.'' then 20 + digit_run s 20 else 19)"
  define f where "f = (if s ! 19 = CHR ''.'' then take (digit_run s 20) (drop 20 s) else [])"
  define oh om where "oh = timestampNumber s (i + 1) 2" and "om = timestampNumber s (i + 4) 2"
  define sg where "sg \<longleftrightarrow> s ! i = CHR ''+'' \<or> s ! i = CHR ''-''"
  define t where "t = (if \<not> sg then h * 60 + minute
    else if s ! i = CHR ''+'' then h * 60 + minute - (oh * 60 + om)
    else h * 60 + minute + (oh * 60 + om))"
  obtain mins d1 y2 m2 d2 y3 m3 d3 where c: "carry_total t d = (mins, d1)"
    "carry_down y m d1 = (y2, m2, d2)" "carry_up y2 m2 d2 = (y3, m3, d3)"
    by (metis surj_pair)
  note defs = y_def [symmetric] m_def [symmetric] d_def [symmetric] h_def [symmetric]
    minute_def [symmetric] sec_def [symmetric] i_def [symmetric] f_def [symmetric]
    oh_def [symmetric] om_def [symmetric] sg_def [symmetric]
  have lex: "lexicalTimestamp s" using assms by (simp add: normalizedTimestamp_def split: if_splits)
  have "normalizedTimestamp s =
    (if m < 1 \<or> m > 12 \<or> d < 1 \<or> d > timestampDays y m \<or> h > 23 \<or> minute > 59 \<or> sec > 59
     then '''' else if sg \<and> (oh > 23 \<or> om > 59) then ''''
     else if y3 < 0 \<or> y3 > 9999 then '''' else render_timestamp y3 m3 d3 mins sec f)"
    using lex c unfolding normalizedTimestamp_def Let_def defs t_def by auto
  with assms have r: "1 \<le> m" "m \<le> 12" "1 \<le> d" "d \<le> timestampDays y m" "h \<le> 23"
    "minute \<le> 59" "sec \<le> 59" "sg \<longrightarrow> oh \<le> 23 \<and> om \<le> 59" "0 \<le> y3" "y3 \<le> 9999"
    and n: "normalizedTimestamp s = render_timestamp y3 m3 d3 mins sec f"
    by (auto split: if_splits)
  have "datePart s" using lex by (auto simp: lexicalTimestamp_def split: if_splits)
  then have "0 \<le> h" "0 \<le> minute" "0 \<le> sec"
    by (auto simp: datePart_def h_def minute_def sec_def intro: timestampNumber_2_nonneg)
  moreover have "sg \<longrightarrow> digits s (i + 1) 2 \<and> digits s (i + 4) 2"
    using lex by (auto simp: lexicalTimestamp_def Let_def sg_def i_def split: if_splits)
  then have "sg \<longrightarrow> 0 \<le> oh \<and> 0 \<le> om"
    by (auto simp: oh_def om_def intro: timestampNumber_2_nonneg)
  ultimately have "- 1440 \<le> t" "t < 2880" using r by (auto simp: t_def)
  then have "civil y3 m3 d3 mins sec"
    using carry_civil r c \<open>0 \<le> sec\<close> by blast
  moreover have "list_all is_digit f"
    by (auto simp: f_def digit_run_def list_all_iff takeWhile_eq_take [symmetric]
        dest: set_takeWhileD)
  ultimately show ?thesis using n by blast
qed

theorem normalizedTimestamp_idem: "normalizedTimestamp (normalizedTimestamp s) = normalizedTimestamp s"
proof (cases "normalizedTimestamp s = ''''")
  case True
  have "normalizedTimestamp '''' = ''''" by code_simp
  then show ?thesis using True by simp
next
  case False
  then show ?thesis using normalized_is_render render_fixed by metis
qed

lemma WideTimestamp_normalized: "WideTimestamp s \<Longrightarrow> WideTimestamp (normalizedTimestamp s)"
  by (simp add: WideTimestamp_def normalizedTimestamp_idem)

subsection \<open>Reading and writing\<close>

lemma timestamp_forward: "timestamp r = Inr (s, r') \<Longrightarrow> forward r r'"
  by (auto simp: timestamp_def dest: str_forward split: sum.splits if_splits)

lemma writeTimestamp_Inr:
  "writeTimestamp s = Inr t \<longleftrightarrow> WideTimestamp s \<and> t = normalizedTimestamp s"
  by (auto simp: writeTimestamp_def WideTimestamp_def Let_def)

lemma validUTF8_ascii: "list_all (\<lambda>c. bv c < 0x80) s \<Longrightarrow> validUTF8 s"
  by (induction s) simp_all

lemma ascii_digit: "is_digit c \<Longrightarrow> bv c < 0x80"
  by (simp add: is_digit_def)

lemma validUTF8_normalized: "validUTF8 (normalizedTimestamp s)"
proof (cases "normalizedTimestamp s = ''''")
  case False
  then obtain y m d mins sec f where n: "normalizedTimestamp s = render_timestamp y m d mins sec f"
    and f: "list_all is_digit f" using normalized_is_render by blast
  obtain a b c e g h where "take 6 f @ drop (length f) ''000000'' = [a, b, c, e, g, h]"
    "list_all is_digit [a, b, c, e, g, h]" using six_digits [OF f] by blast
  moreover have "list_all (\<lambda>c. bv c < 0x80) (date_time_text y m d mins sec)"
  proof -
    have "list_all (\<lambda>c. bv c < 0x80) ''-T:.Z''" by code_simp
    then show ?thesis by (simp add: date_time_text_def ascii_digit)
  qed
  moreover have "bv (CHR ''Z'') < 0x80" by code_simp
  ultimately show ?thesis
    unfolding n render_timestamp_shape
    by (intro validUTF8_ascii) (simp add: ascii_digit)
qed simp

lemma timestamp_text:
  assumes "rest r = esc [] (normalizedTimestamp s) @ t" "WideTimestamp s"
  shows "timestamp r = Inr (normalizedTimestamp s, to r t)"
  using str_text [OF assms(1) validUTF8_normalized] WideTimestamp_normalized [OF assms(2)]
  by (simp add: timestamp_def)

end
