(* ===== verification/Wire_Objects.thy ===== *)
theory Wire_Objects
  imports Wire_Skip Wire_Timestamp
begin

text \<open>
  Objects and lists.  Every generated \<^verbatim>\<open>decodeX\<close> is the same loop around its own switch
  on the key, and every generated \<^verbatim>\<open>encX\<close> lays its fields out the same way.  The loop of
  one type is defined with that type; what all of them share is proved once here, in the
  locale \<open>object_decoder\<close>, whose assumptions are the loop's equation and the promise
  that the switch never moves the reader backwards.  \<open>list_decoder\<close> is the same for
  \<^verbatim>\<open>decodeList\<close>.
\<close>

subsection \<open>One member of an object\<close>

text \<open>
  \<open>once\<close> is one case of a switch: the \<^verbatim>\<open>seen\<close> bit refuses a duplicate, then the value
  is read and stored.  \<open>object_step\<close> is one turn of the loop; the flag says whether a
  comma follows.
\<close>

definition once ::
  "u32 \<Rightarrow> (reader \<Rightarrow> 'x read) \<Rightarrow> ('x \<Rightarrow> 'v) \<Rightarrow> u32 \<Rightarrow> reader \<Rightarrow> ('v \<times> u32) read" where
  "once flag rd store seen r =
     (if seen AND flag \<noteq> 0 then Inl (refuse r ''duplicate_field'')
      else case rd r of
        Inl e \<Rightarrow> Inl e
      | Inr (x, r') \<Rightarrow> Inr ((store x, seen OR flag), r'))"

definition skip_field :: "'v \<Rightarrow> u32 \<Rightarrow> reader \<Rightarrow> ('v \<times> u32) read" where
  "skip_field v seen r = (case skipValue r of Inl e \<Rightarrow> Inl e | Inr r' \<Rightarrow> Inr ((v, seen), r'))"

definition object_step ::
  "(string \<Rightarrow> 'v \<Rightarrow> u32 \<Rightarrow> reader \<Rightarrow> ('v \<times> u32) read) \<Rightarrow> 'v \<Rightarrow> u32 \<Rightarrow> reader
    \<Rightarrow> (bool \<times> 'v \<times> u32) read" where
  "object_step field v seen r =
     (case member_key (ws r) of
        Inl e \<Rightarrow> Inl e
      | Inr (key, r1) \<Rightarrow>
          (case field key v seen r1 of
             Inl e \<Rightarrow> Inl e
           | Inr ((v', seen'), r2) \<Rightarrow>
               (let r3 = ws r2 in
                if at r3 \<noteq> CHR '','' then Inr ((False, v', seen'), r3)
                else Inr ((True, v', seen'), skip1 r3))))"

definition decode_object ::
  "('v \<Rightarrow> u32 \<Rightarrow> reader \<Rightarrow> ('v \<times> u32) read) \<Rightarrow> u32 \<Rightarrow> 'v \<Rightarrow> reader \<Rightarrow> 'v read" where
  "decode_object loop required zero r =
     (if at r \<noteq> CHR ''{'' then Inl (refuse r ''wrong_type'')
      else case enter r of
        Inl e \<Rightarrow> Inl e
      | Inr r1 \<Rightarrow>
          (let r2 = ws (skip1 r1) in
           case (if at r2 \<noteq> CHR ''}'' then loop zero 0 r2 else Inr ((zero, 0), r2)) of
             Inl e \<Rightarrow> Inl e
           | Inr ((v, seen), r3) \<Rightarrow>
               (if at r3 \<noteq> CHR ''}'' then Inl (refuse r3 ''malformed'')
                else
                  let r4 = leave r3 in
                  if seen AND required \<noteq> required then Inl (refuse r4 ''missing_field'')
                  else Inr (v, r4))))"

definition list_step :: "(reader \<Rightarrow> 'a read) \<Rightarrow> reader \<Rightarrow> (bool \<times> 'a) read" where
  "list_step elem r =
     (case elem (ws r) of
        Inl e \<Rightarrow> Inl e
      | Inr (v, r1) \<Rightarrow>
          (let r2 = ws r1 in
           if at r2 \<noteq> CHR '','' then Inr ((False, v), r2) else Inr ((True, v), skip1 r2)))"

definition decode_list ::
  "('a list \<Rightarrow> reader \<Rightarrow> 'a list read) \<Rightarrow> reader \<Rightarrow> 'a list read" where
  "decode_list loop r =
     (if at r \<noteq> CHR ''['' then Inl (refuse r ''wrong_type'')
      else case enter r of
        Inl e \<Rightarrow> Inl e
      | Inr r1 \<Rightarrow>
          (let r2 = ws (skip1 r1) in
           case (if at r2 \<noteq> CHR '']'' then loop [] r2 else Inr ([], r2)) of
             Inl e \<Rightarrow> Inl e
           | Inr (out, r3) \<Rightarrow>
               (if at r3 \<noteq> CHR '']'' then Inl (refuse r3 ''malformed'')
                else Inr (out, leave r3))))"

subsection \<open>Forward moves\<close>

lemma once_forward:
  "once flag rd store seen r = Inr (x, r') \<Longrightarrow> (\<And>y. rd r = Inr (y, r') \<Longrightarrow> forward r r') \<Longrightarrow>
    forward r r'"
  by (auto simp: once_def split: if_splits sum.splits)

lemma skip_field_forward: "skip_field v seen r = Inr (x, r') \<Longrightarrow> forward r r'"
  by (auto simp: skip_field_def dest: skipValue_forward split: sum.splits)

lemma comma_forward: "at r = CHR '','' \<Longrightarrow> forward r (skip1 r)"
  by (erule forward_skip1_at) simp

lemma object_step_forward:
  assumes "object_step field v seen r = Inr (x, r')"
    and f: "\<And>k v seen r x r'. field k v seen r = Inr (x, r') \<Longrightarrow> forward r r'"
  shows "forward r r' \<and> r_pos r < r_pos r' \<and> r_pos r < length (r_buf r)"
proof -
  obtain k r1 y r2 where k: "member_key (ws r) = Inr (k, r1)"
    and y: "field k v seen r1 = Inr (y, r2)"
    and r': "r' = (if at (ws r2) \<noteq> CHR '','' then ws r2 else skip1 (ws r2))"
    using assms(1) by (auto simp: object_step_def Let_def split: sum.splits if_splits)
  have "at (ws r) = QUOTE" using k by (auto simp: member_key_def split: if_splits)
  then have "r_pos (ws r) < length (r_buf (ws r))" by (intro at_nz_in) simp
  moreover have "forward r (ws r)" by (rule forward_ws)
  moreover have "forward (ws r) r1 \<and> r_pos (ws r) < r_pos r1"
    using member_key_forward [OF k] .
  moreover have "forward r1 r2" using f [OF y] .
  moreover have "forward r2 (ws r2)" by (rule forward_ws)
  moreover have "forward (ws r2) r'" using r' comma_forward by auto
  ultimately show ?thesis by (auto simp: forward_def)
qed

lemma list_step_forward:
  assumes "list_step elem r = Inr (x, r')"
    and f: "\<And>r y r'. elem r = Inr (y, r') \<Longrightarrow> forward r r'"
  shows "forward r r' \<and> (fst x \<longrightarrow> r_pos r < r_pos r' \<and> r_pos r < length (r_buf r))"
proof -
  obtain y r1 where y: "elem (ws r) = Inr (y, r1)"
    and r': "r' = (if at (ws r1) \<noteq> CHR '','' then ws r1 else skip1 (ws r1))"
    and x: "fst x \<longleftrightarrow> at (ws r1) = CHR '',''"
    using assms(1) by (auto simp: list_step_def Let_def split: sum.splits if_splits)
  have "forward r (ws r)" by (rule forward_ws)
  also have "forward (ws r) r1" using f [OF y] .
  also have "forward r1 (ws r1)" by (rule forward_ws)
  finally have a: "forward r (ws r1)" .
  have "fst x \<Longrightarrow> r_pos (ws r1) < length (r_buf (ws r1))"
    using x by (intro at_nz_in) simp
  then show ?thesis
    using a r' x comma_forward [of "ws r1"] by (auto simp: forward_def skip1_def)
qed

subsection \<open>The text of an object\<close>

text \<open>
  \<open>key_text d k\<close> is what every \<^verbatim>\<open>encX\<close> writes before a value at depth \<open>d\<close>: a new
  line, the indentation, the escaped key and a colon.
\<close>

definition key_text :: "nat \<Rightarrow> string \<Rightarrow> string" where
  "key_text d k = LF # pad [] (d + 1) @ esc [] k @ '': ''"

definition close_text :: "nat \<Rightarrow> string \<Rightarrow> string" where
  "close_text d c = LF # pad [] d @ c"

text \<open>A text a value can start with, and a text that can follow a value.\<close>

definition value_start :: "string \<Rightarrow> bool" where
  "value_start u \<longleftrightarrow> (\<exists>c t. u = c # t \<and> \<not> is_ws c)"

definition follows :: "string \<Rightarrow> bool" where
  "follows t \<longleftrightarrow> (\<exists>c u. t = c # u \<and> c \<in> {CHR '','', LF, CHR ''}'', CHR '']''})"

lemma follows_no_number: "follows t \<Longrightarrow> no_number t"
  by (auto simp: follows_def no_number_def is_digit_def bv_def)

lemma follows_simps [simp]:
  "follows (CHR '','' # u)" "follows (LF # u)" "follows (CHR ''}'' # u)" "follows (CHR '']'' # u)" "follows (close_text d c @ u)"
  by (auto simp: follows_def close_text_def)

lemma value_start_append [simp]: "value_start u \<Longrightarrow> value_start (u @ t)"
  by (auto simp: value_start_def)

lemma value_start_Cons [simp]: "value_start (c # t) \<longleftrightarrow> \<not> is_ws c"
  by (simp add: value_start_def)

lemma is_ws_simps [simp]:
  "is_ws SPACE" "is_ws LF" "\<not> is_ws QUOTE" "\<not> is_ws (CHR '','')" "\<not> is_ws (CHR '':'')"
  "\<not> is_ws (CHR ''{'')" "\<not> is_ws (CHR ''}'')" "\<not> is_ws (CHR ''['')" "\<not> is_ws (CHR '']'')"
  "\<not> is_ws (CHR ''t'')" "\<not> is_ws (CHR ''f'')" "\<not> is_ws (CHR ''-'')"
  by (simp_all add: is_ws_def)

lemma value_start_esc [simp]: "value_start (esc [] s)"
  by (simp add: esc_text)

lemma set_pad: "c \<in> set (pad [] n) \<Longrightarrow> is_ws c"
  by (auto simp: pad_def)

lemma in_buf_rest: "rest r \<noteq> [] \<Longrightarrow> in_buf r"
  by (auto simp: rest_def in_buf_def)

lemma ws_pad:
  assumes "rest r = LF # pad [] n @ u" "value_start u"
  shows "ws r = to r u"
proof (rule ws_to)
  show "rest r = (LF # pad [] n) @ u" using assms by simp
  show "\<forall>c \<in> set (LF # pad [] n). is_ws c" using set_pad by auto
qed (use assms in \<open>auto simp: value_start_def intro: in_buf_rest\<close>)

lemma ws_none: "rest r = u \<Longrightarrow> value_start u \<Longrightarrow> ws r = r"
  by (auto simp: value_start_def intro: ws_stop)

lemma member_key_text:
  assumes r: "rest r = key_text d k @ u" and k: "validUTF8 k" and u: "value_start u"
  shows "member_key (ws r) = Inr (k, to r u)"
proof -
  let ?a = "esc [] k @ '': '' @ u"
  have w: "ws r = to r ?a"
    by (rule ws_pad [where n = "d + 1"]) (use r in \<open>simp_all add: key_text_def\<close>)
  have ra: "rest (to r ?a) = ?a"
    by (rule rest_to [where a = "LF # pad [] (d + 1)"]) (use r in \<open>simp add: key_text_def\<close>)
  have s: "str (to r ?a) = Inr (k, to r ('': '' @ u))"
    using str_text [OF ra k] by simp
  have rc: "rest (to r ('': '' @ u)) = CHR '':'' # SPACE # u"
    using rest_to [OF ra] by simp
  have w2: "ws (to r ('': '' @ u)) = to r ('': '' @ u)" by (rule ws_none [OF rc]) simp
  have rs: "rest (to r (SPACE # u)) = SPACE # u"
    using rest_to [of "to r ('': '' @ u)" "'':''" "SPACE # u"] rc by simp
  have "\<forall>c v. u = c # v \<longrightarrow> \<not> is_ws c" using u by (auto simp: value_start_def)
  then have "ws (to r (SPACE # u)) = to r u"
    using ws_to [of "to r (SPACE # u)" "[SPACE]" u] rs by simp
  moreover have "skip1 (to r ('': '' @ u)) = to r (SPACE # u)" using skip1_to [OF rc] by simp
  moreover have "at (to r ?a) = QUOTE" using ra by (simp add: esc_text)
  ultimately show ?thesis
    using w s w2 rc by (simp add: member_key_def Let_def)
qed

subsection \<open>Entering a container\<close>

definition deeper :: "reader \<Rightarrow> reader" where
  "deeper r = r\<lparr>r_depth := r_depth r + 1\<rparr>"

lemma rest_deeper [simp]: "rest (deeper r) = rest r"
  by (simp add: deeper_def rest_def)

lemma r_depth_deeper [simp]: "r_depth (deeper r) = r_depth r + 1"
  by (simp add: deeper_def)

lemma ws_ws: "ws (ws r) = ws r"
proof (induction r rule: ws.induct)
  case (1 r)
  show ?case
  proof (cases "r_pos r < length (r_buf r) \<and> is_ws (r_buf r ! r_pos r)")
    case True
    then show ?thesis using 1 by (simp add: ws.simps [of r])
  next
    case False
    then have "ws r = r" by (simp only: ws.simps [of r] if_False)
    then show ?thesis by simp
  qed
qed

subsection \<open>What every generated object decoder does\<close>

text \<open>
  \<open>after v seen r\<close> is the loop once a value has been read: it either takes the comma and
  goes on, or stops before whatever follows.
\<close>

definition after_value ::
  "('v \<Rightarrow> u32 \<Rightarrow> reader \<Rightarrow> ('v \<times> u32) read) \<Rightarrow> 'v \<Rightarrow> u32 \<Rightarrow> reader \<Rightarrow> ('v \<times> u32) read" where
  "after_value loop v seen r =
     (let r' = ws r in
      if at r' \<noteq> CHR '','' then Inr ((v, seen), r') else loop v seen (skip1 r'))"

locale object_decoder =
  fixes field :: "string \<Rightarrow> 'v \<Rightarrow> u32 \<Rightarrow> reader \<Rightarrow> ('v \<times> u32) read"
    and loop :: "'v \<Rightarrow> u32 \<Rightarrow> reader \<Rightarrow> ('v \<times> u32) read"
  assumes loop_eq: "loop v seen r =
    (case object_step field v seen r of
       Inl e \<Rightarrow> Inl e
     | Inr ((again, v', seen'), r') \<Rightarrow>
         (if again then loop v' seen' r' else Inr ((v', seen'), r')))"
    and field_forward: "field k v seen r = Inr (x, r') \<Longrightarrow> forward r r'"
begin

lemma loop_forward: "loop v seen r = Inr (x, r') \<Longrightarrow> forward r r'"
proof (induction r arbitrary: v seen rule: measure_induct_rule [where f = "\<lambda>r. length (r_buf r) - r_pos r"])
  case (less r)
  then obtain m v1 seen1 r1 where s: "object_step field v seen r = Inr ((m, v1, seen1), r1)"
    and l: "(if m then loop v1 seen1 r1 else Inr ((v1, seen1), r1)) = Inr (x, r')"
    using loop_eq [of v seen r] by (auto split: sum.splits)
  have f: "forward r r1 \<and> r_pos r < r_pos r1 \<and> r_pos r < length (r_buf r)"
    using object_step_forward [OF s] field_forward by blast
  show ?case
  proof (cases m)
    case True
    have "length (r_buf r1) - r_pos r1 < length (r_buf r) - r_pos r"
      using f by (auto simp: forward_def)
    then have "forward r1 r'" using less.IH l True by auto
    then show ?thesis using f forward_trans by blast
  qed (use f l in auto)
qed

lemma decode_forward:
  assumes "decode_object loop required zero r = Inr (v, r')"
  shows "forward r r'"
proof -
  obtain r1 r3 x where e: "enter r = Inr r1"
    and l: "(if at (ws (skip1 r1)) \<noteq> CHR ''}'' then loop zero 0 (ws (skip1 r1))
      else Inr ((zero, 0), ws (skip1 r1))) = Inr (x, r3)"
    and c: "at r3 = CHR ''}''" "at r = CHR ''{''" and r': "r' = leave r3"
    using assms by (auto simp: decode_object_def Let_def split: if_splits sum.splits prod.splits)
  have "forward (skip1 r1) (ws (skip1 r1))" by (rule forward_ws)
  also have "forward (ws (skip1 r1)) r3" using l loop_forward by (auto split: if_splits)
  finally have "forward (skip1 r1) r3" .
  moreover have "r_pos r < length (r_buf r)" "at r3 \<noteq> CHR 0x00"
    using c at_nz_in [of r] by simp_all
  ultimately show ?thesis using enter_leave_forward [OF e] r' by blast
qed

text \<open>The loop over a text the writer made: the first member, a next member, the end.\<close>

lemma first_member:
  assumes "rest r = key_text d k @ val @ t" "validUTF8 k" "value_start val"
    and "field k v seen (to r (val @ t)) = Inr ((v', seen'), to r t)"
  shows "loop v seen r = after_value loop v' seen' (to r t)"
  using member_key_text [of r d k "val @ t"] assms
  by (simp add: loop_eq [of v seen r] object_step_def after_value_def Let_def)

lemma next_member:
  assumes r: "rest r = CHR '','' # key_text d k @ val @ t" and k: "validUTF8 k" "value_start val"
    and f: "field k v seen (to r (val @ t)) = Inr ((v', seen'), to r t)"
  shows "after_value loop v seen r = after_value loop v' seen' (to r t)"
proof -
  have "ws r = r" by (rule ws_none [OF r]) simp
  moreover have "rest (to r (key_text d k @ val @ t)) = key_text d k @ val @ t"
    by (rule rest_to [of r "'',''"]) (simp add: r)
  from first_member [OF this k] f
  have "loop v seen (to r (key_text d k @ val @ t)) = after_value loop v' seen' (to r t)" by simp
  ultimately show ?thesis
    using r skip1_to [OF r] by (simp add: after_value_def)
qed

lemma last_member:
  assumes "rest r = close_text d (CHR ''}'' # u) @ t"
  shows "after_value loop v seen r = Inr ((v, seen), to r (CHR ''}'' # u @ t))"
proof -
  have w: "ws r = to r (CHR ''}'' # u @ t)"
    by (rule ws_pad [where n = d]) (use assms in \<open>simp_all add: close_text_def\<close>)
  have "rest (to r (CHR ''}'' # u @ t)) = CHR ''}'' # u @ t"
    by (rule rest_to [where a = "LF # pad [] d"]) (use assms in \<open>simp add: close_text_def\<close>)
  then show ?thesis using w by (simp add: after_value_def)
qed

lemma loop_ws: "loop v seen (ws r) = loop v seen r"
  using loop_eq [of v seen r] loop_eq [of v seen "ws r"] by (simp add: object_step_def ws_ws)

lemma decode_text:
  assumes r: "rest r = CHR ''{'' # key_text d k @ u @ CHR ''}'' # t"
    and dep: "r_depth r < depthLimit"
    and l: "loop zero 0 (to (deeper r) (key_text d k @ u @ CHR ''}'' # t))
      = Inr ((v, seen), to (deeper r) (CHR ''}'' # t))"
    and req: "seen AND required = required"
  shows "decode_object loop required zero r = Inr (v, to r t)"
proof -
  let ?b = "key_text d k @ u @ CHR ''}'' # t"
  have en: "enter r = Inr (deeper r)" using dep by (simp add: enter_def deeper_def Let_def)
  have rd: "rest (deeper r) = CHR ''{'' # ?b" using r by simp
  have sk: "skip1 (deeper r) = to (deeper r) ?b" using skip1_to [OF rd] .
  have rb: "rest (to (deeper r) ?b) = ?b" using rest_to [of "deeper r" "''{''"] rd by simp
  have "ws (to (deeper r) ?b) = to (deeper r) (esc [] k @ '': '' @ u @ CHR ''}'' # t)"
    using ws_pad [of "to (deeper r) ?b" "d + 1"] rb by (simp add: key_text_def)
  moreover have "rest (to (deeper r) (esc [] k @ '': '' @ u @ CHR ''}'' # t))
      = esc [] k @ '': '' @ u @ CHR ''}'' # t"
    by (rule rest_to [where a = "CHR ''{'' # LF # pad [] (d + 1)"]) (use r in \<open>simp add: key_text_def\<close>)
  ultimately have at: "at (ws (to (deeper r) ?b)) \<noteq> CHR ''}''" by (simp add: esc_text)
  have rc: "rest (to (deeper r) (CHR ''}'' # t)) = CHR ''}'' # t"
    by (rule rest_to [where a = "CHR ''{'' # key_text d k @ u"]) (use r in simp)
  have "leave (to (deeper r) (CHR ''}'' # t)) = to r t"
    using skip1_to [OF rc] by (simp add: leave_def deeper_def to_def)
  then show ?thesis
    using r en sk at l rc req by (simp add: decode_object_def Let_def loop_ws)
qed

end

subsection \<open>What every generated list decoder does\<close>

text \<open>
  \<open>items_text\<close> is what \<^const>\<open>encList\<close> writes between the brackets; \<open>txt v\<close> is the text of
  one element at the depth of the list plus one.
\<close>

definition item_line :: "nat \<Rightarrow> string" where
  "item_line d = LF # pad [] (d + 1)"

fun items_text :: "nat \<Rightarrow> ('a \<Rightarrow> string) \<Rightarrow> 'a list \<Rightarrow> string" where
  "items_text d txt [] = []"
| "items_text d txt (v # vs) = CHR '','' # item_line d @ txt v @ items_text d txt vs"

definition list_text :: "nat \<Rightarrow> ('a \<Rightarrow> string) \<Rightarrow> 'a list \<Rightarrow> string" where
  "list_text d txt vs =
     (case vs of [] \<Rightarrow> ''[]''
      | v # vs' \<Rightarrow> CHR ''['' # item_line d @ txt v @ items_text d txt vs' @ close_text d '']'')"

lemma value_start_list_text [simp]: "value_start (list_text d txt vs)"
  by (simp add: list_text_def split: list.split)

locale list_decoder =
  fixes elem :: "reader \<Rightarrow> 'a read"
    and loop :: "'a list \<Rightarrow> reader \<Rightarrow> 'a list read"
  assumes loop_eq: "loop out r =
    (case list_step elem r of
       Inl e \<Rightarrow> Inl e
     | Inr ((again, v), r') \<Rightarrow>
         (if again then loop (out @ [v]) r' else Inr (out @ [v], r')))"
    and elem_forward: "elem r = Inr (v, r') \<Longrightarrow> forward r r'"
begin

lemma loop_forward: "loop out r = Inr (x, r') \<Longrightarrow> forward r r'"
proof (induction r arbitrary: out rule: measure_induct_rule [where f = "\<lambda>r. length (r_buf r) - r_pos r"])
  case (less r)
  then obtain m v r1 where s: "list_step elem r = Inr ((m, v), r1)"
    and l: "(if m then loop (out @ [v]) r1 else Inr (out @ [v], r1)) = Inr (x, r')"
    using loop_eq [of out r] by (auto split: sum.splits)
  have f: "forward r r1 \<and> (m \<longrightarrow> r_pos r < r_pos r1 \<and> r_pos r < length (r_buf r))"
    using list_step_forward [OF s] elem_forward by fastforce
  show ?case
  proof (cases m)
    case True
    have "length (r_buf r1) - r_pos r1 < length (r_buf r) - r_pos r"
      using f True by (auto simp: forward_def)
    then have "forward r1 r'" using less.IH l True by auto
    then show ?thesis using f forward_trans by blast
  qed (use f l in auto)
qed

lemma decode_forward:
  assumes "decode_list loop r = Inr (v, r')"
  shows "forward r r'"
proof -
  obtain r1 r3 where e: "enter r = Inr r1"
    and l: "(if at (ws (skip1 r1)) \<noteq> CHR '']'' then loop [] (ws (skip1 r1))
      else Inr ([], ws (skip1 r1))) = Inr (v, r3)"
    and c: "at r3 = CHR '']''" "at r = CHR ''[''" and r': "r' = leave r3"
    using assms by (auto simp: decode_list_def Let_def split: if_splits sum.splits prod.splits)
  have "forward (skip1 r1) (ws (skip1 r1))" by (rule forward_ws)
  also have "forward (ws (skip1 r1)) r3" using l loop_forward by (auto split: if_splits)
  finally have "forward (skip1 r1) r3" .
  moreover have "r_pos r < length (r_buf r)" "at r3 \<noteq> CHR 0x00"
    using c at_nz_in [of r] by simp_all
  ultimately show ?thesis using enter_leave_forward [OF e] r' by blast
qed

lemma loop_ws: "loop out (ws r) = loop out r"
  using loop_eq [of out r] loop_eq [of out "ws r"] by (simp add: list_step_def ws_ws)

lemma loop_items:
  assumes "rest r = item_line d @ txt v @ items_text d txt vs @ close_text d '']'' @ t"
    and "\<And>w r u. w \<in> set (v # vs) \<Longrightarrow> rest r = txt w @ u \<Longrightarrow> follows u \<Longrightarrow> r_depth r = n \<Longrightarrow>
      elem r = Inr (g w, to r u)"
    and "\<And>w. w \<in> set (v # vs) \<Longrightarrow> value_start (txt w)" and "r_depth r = n"
  shows "loop out r = Inr (out @ map g (v # vs), to r (CHR '']'' # t))"
  using assms
proof (induction vs arbitrary: v r out)
  case (Nil v)
  let ?u = "close_text d '']'' @ t"
  have r: "rest r = item_line d @ txt v @ ?u" using Nil.prems by simp
  have w: "ws r = to r (txt v @ ?u)"
    by (rule ws_pad [where n = "d + 1"]) (use r Nil.prems in \<open>simp_all add: item_line_def\<close>)
  have rv: "rest (to r (txt v @ ?u)) = txt v @ ?u" by (rule rest_to [OF r])
  have e: "elem (ws r) = Inr (g v, to r ?u)"
    unfolding w using Nil.prems(2) [OF _ rv] Nil.prems(4) by simp
  have ru: "rest (to r ?u) = LF # pad [] d @ CHR '']'' # t"
    using rest_to [OF rv] by (simp add: close_text_def)
  have w2: "ws (to r ?u) = to r (CHR '']'' # t)" using ws_pad [OF ru] by simp
  have "rest (to r (CHR '']'' # t)) = CHR '']'' # t"
    using rest_to [of "to r ?u" "LF # pad [] d"] ru by simp
  then show ?case using e w2 by (simp add: loop_eq [of out r] list_step_def Let_def)
next
  case (Cons x vs v)
  let ?b = "item_line d @ txt x @ items_text d txt vs @ close_text d '']'' @ t"
  let ?u = "CHR '','' # ?b"
  have r: "rest r = item_line d @ txt v @ ?u" using Cons.prems by simp
  have w: "ws r = to r (txt v @ ?u)"
    by (rule ws_pad [where n = "d + 1"]) (use r Cons.prems in \<open>simp_all add: item_line_def\<close>)
  have rv: "rest (to r (txt v @ ?u)) = txt v @ ?u" by (rule rest_to [OF r])
  have e: "elem (ws r) = Inr (g v, to r ?u)"
    unfolding w using Cons.prems(2) [OF _ rv] Cons.prems(4) by simp
  have ru: "rest (to r ?u) = ?u" using rest_to [OF rv] by simp
  have w2: "ws (to r ?u) = to r ?u" by (rule ws_none [OF ru]) simp
  have rb: "rest (to r ?b) = ?b" using rest_to [of "to r ?u" "'',''" ?b] ru by simp
  have "loop out r = loop (out @ [g v]) (to r ?b)"
    using e w2 skip1_to [OF ru] ru by (simp add: loop_eq [of out r] list_step_def Let_def)
  also have "\<dots> = Inr ((out @ [g v]) @ map g (x # vs), to (to r ?b) (CHR '']'' # t))"
    by (rule Cons.IH [OF rb]) (use Cons.prems in auto)
  finally show ?case by simp
qed

lemma decode_list_text:
  assumes r: "rest r = list_text d txt vs @ t" and dep: "r_depth r < depthLimit"
    and e: "\<And>w q u. w \<in> set vs \<Longrightarrow> rest q = txt w @ u \<Longrightarrow> follows u \<Longrightarrow> r_depth q = r_depth r + 1 \<Longrightarrow>
      elem q = Inr (g w, to q u)"
    and s: "\<And>w. w \<in> set vs \<Longrightarrow> value_start (txt w) \<and> hd (txt w) \<noteq> CHR '']''"
  shows "decode_list loop r = Inr (map g vs, to r t)"
proof (cases vs)
  case Nil
  let ?q = "to (deeper r) (CHR '']'' # t)"
  have en: "enter r = Inr (deeper r)" using dep by (simp add: enter_def deeper_def Let_def)
  have rd: "rest (deeper r) = CHR ''['' # CHR '']'' # t" using r Nil by (simp add: list_text_def)
  have rq: "rest ?q = CHR '']'' # t" using rest_to [of "deeper r" "''[''"] rd by simp
  have "ws ?q = ?q" by (rule ws_none [OF rq]) simp
  moreover have "leave ?q = to r t"
    using skip1_to [OF rq] by (simp add: leave_def deeper_def to_def)
  ultimately show ?thesis
    using Nil rd rq en skip1_to [OF rd] by (simp add: decode_list_def Let_def)
next
  case (Cons v vs')
  let ?tail = "items_text d txt vs' @ close_text d '']'' @ t"
  let ?b = "item_line d @ txt v @ ?tail"
  let ?q = "to (deeper r) ?b" and ?c = "to (deeper r) (CHR '']'' # t)"
  have en: "enter r = Inr (deeper r)" using dep by (simp add: enter_def deeper_def Let_def)
  have rd: "rest (deeper r) = CHR ''['' # ?b" using r Cons by (simp add: list_text_def)
  have rq: "rest ?q = ?b" using rest_to [of "deeper r" "''[''"] rd by simp
  have l: "loop [] ?q = Inr ([] @ map g (v # vs'), to ?q (CHR '']'' # t))"
    by (rule loop_items [OF rq, where n = "r_depth r + 1"]) (use e s Cons in auto)
  obtain c u where cu: "txt v = c # u" "\<not> is_ws c" "c \<noteq> CHR '']''"
    using s [of v] Cons by (auto simp: value_start_def)
  have w: "ws ?q = to ?q (txt v @ ?tail)"
    by (rule ws_pad [where n = "d + 1"]) (use rq cu in \<open>simp_all add: item_line_def\<close>)
  have "rest (to ?q (txt v @ ?tail)) = txt v @ ?tail" by (rule rest_to [OF rq])
  then have a: "at (ws ?q) \<noteq> CHR '']''" using w cu by simp
  have rc: "rest ?c = CHR '']'' # t"
    by (rule rest_to [where a = "CHR ''['' # item_line d @ txt v @ items_text d txt vs' @ LF # pad [] d"])
      (use rd in \<open>simp add: close_text_def\<close>)
  have "leave ?c = to r t"
    using skip1_to [OF rc] by (simp add: leave_def deeper_def to_def)
  then show ?thesis
    using Cons rd en skip1_to [OF rd] a l rc by (simp add: decode_list_def Let_def loop_ws)
qed

end

subsection \<open>Objects as lists of members\<close>

text \<open>
  A member is a key, the text its value is written as, what reading it back stores, and
  its \<^verbatim>\<open>seen\<close> bit.  \<open>object_text\<close> is the text \<^verbatim>\<open>encX\<close> writes for the members it
  writes; \<open>distinct_flags\<close> is what keeps \<^verbatim>\<open>duplicate_field\<close> from firing.
\<close>

datatype 'v member =
  Member (m_key: string) (m_text: string) (m_store: "'v \<Rightarrow> 'v") (m_flag: u32)

fun members_text :: "nat \<Rightarrow> (string \<times> string) list \<Rightarrow> string" where
  "members_text d [] = []"
| "members_text d ((k, x) # ms) = CHR '','' # key_text d k @ x @ members_text d ms"

definition object_text :: "nat \<Rightarrow> (string \<times> string) list \<Rightarrow> string" where
  "object_text d ms = CHR ''{'' # tl (members_text d ms) @ close_text d ''}''"

definition texts :: "'v member list \<Rightarrow> (string \<times> string) list" where
  "texts ms = map (\<lambda>m. (m_key m, m_text m)) ms"

definition stored :: "'v member list \<Rightarrow> 'v \<Rightarrow> 'v" where
  "stored ms v = fold m_store ms v"

definition flags :: "'v member list \<Rightarrow> u32" where
  "flags ms = fold (\<lambda>m s. s OR m_flag m) ms 0"

definition distinct_flags :: "'v member list \<Rightarrow> bool" where
  "distinct_flags ms = sorted_wrt (\<lambda>m n. m_flag m AND m_flag n = 0) ms"

definition optional :: "bool \<Rightarrow> 'v member \<Rightarrow> 'v member list" where
  "optional b m = (if b then [m] else [])"

lemma texts_simps [simp]:
  "texts [] = []" "texts (m # ms) = (m_key m, m_text m) # texts ms"
  "texts (ms @ ns) = texts ms @ texts ns"
  by (simp_all add: texts_def)

lemma stored_simps [simp]:
  "stored [] v = v" "stored (m # ms) v = stored ms (m_store m v)"
  "stored (ms @ ns) v = stored ns (stored ms v)"
  by (simp_all add: stored_def)

lemma members_text_append [simp]:
  "members_text d (ms @ ns) = members_text d ms @ members_text d ns"
  by (induction ms rule: members_text.induct) simp_all

lemma flags_fold: "fold (\<lambda>m s. s OR m_flag m) ms s = s OR flags ms"
proof (induction ms arbitrary: s)
  case (Cons m ms)
  show ?case
    using Cons [of "s OR m_flag m"] Cons [of "0 OR m_flag m"]
    by (simp add: flags_def ac_simps)
qed (simp add: flags_def)

lemma flags_simps [simp]:
  "flags [] = 0" "flags (m # ms) = m_flag m OR flags ms" "flags (ms @ ns) = flags ms OR flags ns"
  using flags_fold [of ms "m_flag m"] flags_fold [of ns "flags ms"]
  by (simp_all add: flags_def)

lemma optional_simps [simp]:
  "(\<forall>m \<in> set (optional b n). P m) \<longleftrightarrow> (b \<longrightarrow> P n)"
  "stored (optional b n) v = (if b then m_store n v else v)"
  "flags (optional b n) = (if b then m_flag n else 0)"
  "members_text d (texts (optional b n)) = (if b then members_text d (texts [n]) else [])"
  "sorted_wrt R (optional b n)"
  by (simp_all add: optional_def)

lemma flags_disjoint:
  "\<forall>m \<in> set ms. f AND m_flag m = 0 \<Longrightarrow> f AND flags ms = 0"
  by (induction ms) (auto simp: bit.conj_disj_distrib)

lemma required_or: "(s AND a = a) \<Longrightarrow> (s AND b = b) \<Longrightarrow> s AND (a OR b) = (a OR b)" for s :: u32
  by (simp add: bit.conj_disj_distrib)

lemma flags_member: "m \<in> set ms \<Longrightarrow> flags ms AND m_flag m = m_flag m"
proof (induction ms)
  case (Cons n ms)
  show ?case
  proof (cases "m = n")
    case True
    then show ?thesis by (simp add: and.commute)
  next
    case False
    then show ?thesis
      using Cons by (simp add: bit.conj_disj_distrib2 or.assoc [symmetric])
  qed
qed simp

subsection \<open>Reading an object back\<close>

text \<open>
  \<open>reads_member\<close>: the switch reads the member's text back, at depth \<open>n\<close>, and stores it.
\<close>

definition reads_member ::
  "(string \<Rightarrow> 'v \<Rightarrow> u32 \<Rightarrow> reader \<Rightarrow> ('v \<times> u32) read) \<Rightarrow> nat \<Rightarrow> 'v member \<Rightarrow> bool" where
  "reads_member field n m \<longleftrightarrow>
     validUTF8 (m_key m) \<and> value_start (m_text m) \<and>
     (\<forall>q u v seen. rest q = m_text m @ u \<longrightarrow> follows u \<longrightarrow> r_depth q = n \<longrightarrow> seen AND m_flag m = 0 \<longrightarrow>
        field (m_key m) v seen q = Inr ((m_store m v, seen OR m_flag m), to q u))"

lemma follows_members_text: "follows (members_text d ms @ close_text d c @ t)"
  by (cases "(d, ms)" rule: members_text.cases) simp_all

context object_decoder
begin

lemma after_members:
  assumes "rest q = members_text d (texts ms) @ close_text d (CHR ''}'' # u) @ t"
    and "\<forall>m \<in> set ms. reads_member field (r_depth q) m" and "distinct_flags ms"
    and "\<forall>m \<in> set ms. seen AND m_flag m = 0"
  shows "after_value loop v seen q = Inr ((stored ms v, seen OR flags ms), to q (CHR ''}'' # u @ t))"
  using assms
proof (induction ms arbitrary: q v seen)
  case Nil
  then show ?case using last_member [of q d u t v seen] by simp
next
  case (Cons m ms)
  let ?t = "members_text d (texts ms) @ close_text d (CHR ''}'' # u) @ t"
  let ?k = "key_text d (m_key m)" and ?x = "m_text m"
  have r: "rest q = CHR '','' # ?k @ ?x @ ?t" using Cons.prems by simp
  have ok: "reads_member field (r_depth q) m" using Cons.prems by simp
  have rx: "rest (to q (?x @ ?t)) = ?x @ ?t"
    by (rule rest_to [where a = "CHR '','' # ?k"]) (simp add: r)
  have f: "field (m_key m) v seen (to q (?x @ ?t)) = Inr ((m_store m v, seen OR m_flag m), to q ?t)"
    using ok rx Cons.prems(4) follows_members_text by (simp add: reads_member_def)
  have rt: "rest (to q ?t) = ?t" using rest_to [OF rx] by simp
  have "after_value loop v seen q = after_value loop (m_store m v) (seen OR m_flag m) (to q ?t)"
    by (rule next_member [OF r _ _ f]) (use ok in \<open>simp_all add: reads_member_def\<close>)
  also have "\<dots> = Inr ((stored ms (m_store m v), (seen OR m_flag m) OR flags ms),
      to (to q ?t) (CHR ''}'' # u @ t))"
    by (rule Cons.IH [OF rt])
      (use Cons.prems in \<open>auto simp: distinct_flags_def bit.conj_disj_distrib2\<close>)
  finally show ?case by (simp add: or.assoc)
qed

lemma decode_members:
  assumes r: "rest r = object_text d (texts ms) @ t" and ms: "ms \<noteq> []"
    and dep: "r_depth r < depthLimit"
    and ok: "\<forall>m \<in> set ms. reads_member field (r_depth r + 1) m" and df: "distinct_flags ms"
    and req: "flags ms AND required = required"
  shows "decode_object loop required zero r = Inr (stored ms zero, to r t)"
proof -
  obtain m ns where mn: "ms = m # ns" using ms by (cases ms) auto
  let ?tail = "members_text d (texts ns) @ close_text d ''}'' @ t"
  let ?b = "key_text d (m_key m) @ m_text m @ ?tail"
  let ?q = "to (deeper r) ?b"
  have r': "rest r = CHR ''{'' # key_text d (m_key m) @ (m_text m @ members_text d (texts ns)
      @ LF # pad [] d) @ CHR ''}'' # t"
    using r mn by (simp add: object_text_def close_text_def)
  have rq: "rest ?q = ?b"
    by (rule rest_to [where a = "''{''"]) (use r' in \<open>simp add: close_text_def\<close>)
  have okm: "reads_member field (r_depth ?q) m" using ok mn by simp
  have rx: "rest (to ?q (m_text m @ ?tail)) = m_text m @ ?tail" by (rule rest_to [OF rq])
  have f: "field (m_key m) zero 0 (to ?q (m_text m @ ?tail))
      = Inr ((m_store m zero, 0 OR m_flag m), to ?q ?tail)"
    using okm rx follows_members_text [of d "texts ns" "''}''" t] by (simp add: reads_member_def)
  have rt: "rest (to ?q ?tail) = ?tail" using rest_to [OF rx] by simp
  have "loop zero 0 ?q = after_value loop (m_store m zero) (0 OR m_flag m) (to ?q ?tail)"
    by (rule first_member [OF rq _ _ f]) (use okm in \<open>simp_all add: reads_member_def\<close>)
  also have "\<dots> = Inr ((stored ns (m_store m zero), (0 OR m_flag m) OR flags ns),
      to (to ?q ?tail) (CHR ''}'' # [] @ t))"
    by (rule after_members) (use rt ok df mn in \<open>auto simp: distinct_flags_def\<close>)
  finally have l: "loop zero 0 ?q = Inr ((stored ms zero, flags ms), to (deeper r) (CHR ''}'' # t))"
    using mn by simp
  show ?thesis
    by (rule decode_text [OF r' dep _ req]) (use l in \<open>simp add: close_text_def\<close>)
qed

end

lemma once_text:
  "rd q = Inr (x, q') \<Longrightarrow> seen AND flag = 0 \<Longrightarrow>
    once flag rd store seen q = Inr ((store x, seen OR flag), q')"
  by (simp add: once_def)

lemma reads_memberI:
  assumes "\<And>q u v seen. rest q = m_text m @ u \<Longrightarrow> follows u \<Longrightarrow> r_depth q = n \<Longrightarrow> seen AND m_flag m = 0 \<Longrightarrow>
      field (m_key m) v seen q = Inr ((m_store m v, seen OR m_flag m), to q u)"
    and "validUTF8 (m_key m)" "value_start (m_text m)"
  shows "reads_member field n m"
  using assms by (simp add: reads_member_def)

subsection \<open>What every accepted object satisfies\<close>

lemma member_key_utf8: "member_key r = Inr (k, r') \<Longrightarrow> validUTF8 k"
  using str_forward by (auto simp: member_key_def Let_def split: if_splits sum.splits)

context object_decoder
begin

lemma loop_invariant:
  assumes step: "\<And>k v seen r v' seen' r'. validUTF8 k \<Longrightarrow>
      field k v seen r = Inr ((v', seen'), r') \<Longrightarrow> P v seen \<Longrightarrow> P v' seen'"
  shows "loop v seen r = Inr ((v', seen'), r') \<Longrightarrow> P v seen \<Longrightarrow> P v' seen'"
proof (induction r arbitrary: v seen rule: measure_induct_rule [where f = "\<lambda>r. length (r_buf r) - r_pos r"])
  case (less r)
  then obtain m v1 seen1 r1 where s: "object_step field v seen r = Inr ((m, v1, seen1), r1)"
    and l: "(if m then loop v1 seen1 r1 else Inr ((v1, seen1), r1)) = Inr ((v', seen'), r')"
    using loop_eq [of v seen r] by (auto split: sum.splits)
  obtain k a b where "member_key (ws r) = Inr (k, a)" and f: "field k v seen a = Inr ((v1, seen1), b)"
    using s by (auto simp: object_step_def Let_def split: sum.splits if_splits)
  then have "P v1 seen1"
    using step [OF member_key_utf8 f less.prems(2)] by blast
  moreover have "forward r r1 \<and> r_pos r < r_pos r1 \<and> r_pos r < length (r_buf r)"
    using object_step_forward [OF s] field_forward by blast
  then have "length (r_buf r1) - r_pos r1 < length (r_buf r) - r_pos r" by (auto simp: forward_def)
  ultimately show ?case using less.IH l by (cases m) auto
qed

lemma decode_invariant:
  assumes "decode_object loop required zero r = Inr (v, r')"
    and step: "\<And>k v seen r v' seen' r'. validUTF8 k \<Longrightarrow>
      field k v seen r = Inr ((v', seen'), r') \<Longrightarrow> P v seen \<Longrightarrow> P v' seen'"
    and "P zero 0"
  shows "\<exists>seen. P v seen \<and> seen AND required = required"
proof -
  obtain seen where l: "(\<exists>r1 r3. loop zero 0 r1 = Inr ((v, seen), r3)) \<or> (v, seen) = (zero, 0)"
    and req: "seen AND required = required"
    using assms(1)
    by (simp add: decode_object_def Let_def split: if_splits sum.splits prod.splits) blast+
  have "P v seen" if "loop zero 0 r1 = Inr ((v, seen), r3)" for r1 r3
    by (rule loop_invariant [of P, OF _ that assms(3)]) (rule step)
  then show ?thesis using req l assms(3) by blast
qed

end

context list_decoder
begin

lemma loop_all:
  assumes elem: "\<And>r v r'. elem r = Inr (v, r') \<Longrightarrow> Q v"
  shows "loop out r = Inr (vs, r') \<Longrightarrow> list_all Q out \<Longrightarrow> list_all Q vs"
proof (induction r arbitrary: out rule: measure_induct_rule [where f = "\<lambda>r. length (r_buf r) - r_pos r"])
  case (less r)
  then obtain m v r1 where s: "list_step elem r = Inr ((m, v), r1)"
    and l: "(if m then loop (out @ [v]) r1 else Inr (out @ [v], r1)) = Inr (vs, r')"
    using loop_eq [of out r] by (auto split: sum.splits)
  have "Q v" using s elem by (auto simp: list_step_def Let_def split: sum.splits if_splits)
  then have "list_all Q (out @ [v])" using less.prems by simp
  moreover have "forward r r1 \<and> (m \<longrightarrow> r_pos r < r_pos r1 \<and> r_pos r < length (r_buf r))"
    using list_step_forward [OF s] elem_forward by fastforce
  then have "m \<Longrightarrow> length (r_buf r1) - r_pos r1 < length (r_buf r) - r_pos r" by (auto simp: forward_def)
  ultimately show ?case using less.IH l by (cases m) auto
qed

lemma decode_all:
  assumes "decode_list loop r = Inr (vs, r')" and elem: "\<And>r v r'. elem r = Inr (v, r') \<Longrightarrow> Q v"
  shows "list_all Q vs"
proof -
  have "(\<exists>r1 r3. loop [] r1 = Inr (vs, r3)) \<or> vs = []"
    using assms(1)
    by (simp add: decode_list_def Let_def split: if_splits sum.splits prod.splits) blast
  moreover have "list_all Q vs" if "loop [] r1 = Inr (vs, r3)" for r1 r3
    by (rule loop_all [of Q, OF _ that]) (use elem in auto)
  ultimately show ?thesis by auto
qed

end

text \<open>What a case of a switch did.\<close>

lemma once_InrE:
  assumes "once flag rd store seen r = Inr ((v', seen'), r')"
  obtains x where "rd r = Inr (x, r')" "v' = store x" "seen' = seen OR flag" "seen AND flag = 0"
  using assms by (auto simp: once_def split: if_splits sum.splits)

lemma skip_field_InrE:
  assumes "skip_field v seen r = Inr ((v', seen'), r')"
  obtains "v' = v" "seen' = seen"
  using assms by (auto simp: skip_field_def split: sum.splits)

end
