(* ===== verification/Wire_Codec.thy ===== *)
theory Wire_Codec
  imports Wire_Objects
begin

text \<open>
  The record codec of \<^verbatim>\<open>go/abstraction/logging/rec.go\<close>: \<^verbatim>\<open>Attestation\<close> and
  \<^verbatim>\<open>Record\<close> with their writers and readers, \<^verbatim>\<open>strMap\<close>, \<^verbatim>\<open>Encode\<close> and
  \<^verbatim>\<open>Decode\<close>.  Each reader's switch is a \<open>_field\<close> function, its loop a \<open>_loop\<close>; the
  interpretations of \<^const>\<open>object_decoder\<close> and \<^const>\<open>list_decoder\<close> give each its
  forward and read-back facts.
\<close>

subsection \<open>Types\<close>

record wire_attestation =
  wa_by :: string
  wa_verified :: bool
  wa_hop :: i64
  wa_program :: string
  wa_host :: string
  wa_user :: string
  wa_exe :: string
  wa_uid :: i64
  wa_gid :: i64
  wa_pid :: i64
  wa_key :: string
  wa_mac :: string

record wire_record =
  wr_schema :: i64
  wr_time :: string
  wr_level :: i64
  wr_msg :: string
  wr_identity :: "wire_attestation list"
  wr_job :: string
  wr_attrs :: strings

text \<open>Go's zero values.\<close>

definition zero_attestation :: wire_attestation where
  "zero_attestation =
     \<lparr>wa_by = [], wa_verified = False, wa_hop = 0, wa_program = [], wa_host = [], wa_user = [],
      wa_exe = [], wa_uid = 0, wa_gid = 0, wa_pid = 0, wa_key = [], wa_mac = []\<rparr>"

definition zero_record :: wire_record where
  "zero_record =
     \<lparr>wr_schema = 0, wr_time = [], wr_level = 0, wr_msg = [], wr_identity = [], wr_job = [],
      wr_attrs = []\<rparr>"

subsection \<open>Writers\<close>

text \<open>The lines that precede every value: a new line, the indentation, the key, a colon.\<close>

definition put_key :: "string \<Rightarrow> nat \<Rightarrow> string \<Rightarrow> string" where
  "put_key out depth k = esc (pad (out @ [LF]) (depth + 1)) k @ '': ''"

definition put_bool :: "string \<Rightarrow> bool \<Rightarrow> string" where
  "put_bool out b = (if b then out @ ''true'' else out @ ''false'')"

definition put_close :: "string \<Rightarrow> nat \<Rightarrow> string" where
  "put_close out depth = pad (out @ [LF]) depth @ ''}''"

definition encAttestation :: "string \<Rightarrow> wire_attestation \<Rightarrow> nat \<Rightarrow> string" where
  "encAttestation out v depth =
     (let out = out @ ''{'';
          out = esc (put_key out depth ''by'') (wa_by v);
          out = put_bool (put_key (out @ '','') depth ''verified'') (wa_verified v);
          out = num (put_key (out @ '','') depth ''hop'') (wa_hop v);
          out = (if wa_program v \<noteq> [] then esc (put_key (out @ '','') depth ''program'') (wa_program v) else out);
          out = (if wa_host v \<noteq> [] then esc (put_key (out @ '','') depth ''host'') (wa_host v) else out);
          out = (if wa_user v \<noteq> [] then esc (put_key (out @ '','') depth ''user'') (wa_user v) else out);
          out = (if wa_exe v \<noteq> [] then esc (put_key (out @ '','') depth ''exe'') (wa_exe v) else out);
          out = num (put_key (out @ '','') depth ''uid'') (wa_uid v);
          out = num (put_key (out @ '','') depth ''gid'') (wa_gid v);
          out = num (put_key (out @ '','') depth ''pid'') (wa_pid v);
          out = (if wa_key v \<noteq> [] then esc (put_key (out @ '','') depth ''key'') (wa_key v) else out);
          out = (if wa_mac v \<noteq> [] then esc (put_key (out @ '','') depth ''mac'') (wa_mac v) else out)
      in put_close out depth)"

definition encRecord :: "string \<Rightarrow> wire_record \<Rightarrow> nat \<Rightarrow> wire_error + string" where
  "encRecord out v depth =
     (if wr_schema v \<noteq> 1 then Inl (Refusal ''bad_schema'' 0)
      else
        let out = out @ ''{'';
            out = num (put_key out depth ''schema'') (wr_schema v);
            out = put_key (out @ '','') depth ''time''
        in case writeTimestamp (wr_time v) of
             Inl e \<Rightarrow> Inl e
           | Inr time \<Rightarrow>
               (let out = esc out time;
                    out = num (put_key (out @ '','') depth ''level'') (wr_level v);
                    out = esc (put_key (out @ '','') depth ''msg'') (wr_msg v)
                in case (if wr_identity v \<noteq> []
                         then encList (put_key (out @ '','') depth ''identity'') (wr_identity v) (depth + 1)
                                (\<lambda>out a d. Inr (encAttestation out a d))
                         else Inr out) of
                     Inl e \<Rightarrow> Inl e
                   | Inr out \<Rightarrow>
                       (let out = (if wr_job v \<noteq> [] then esc (put_key (out @ '','') depth ''job'') (wr_job v) else out);
                            out = (if wr_attrs v \<noteq> [] then strmap (put_key (out @ '','') depth ''attrs'') (wr_attrs v) (depth + 1)
                                   else out)
                        in Inr (put_close out depth))))"

definition Encode :: "wire_record \<Rightarrow> wire_error + string" where
  "Encode v = (case encRecord [] v 0 of Inl e \<Rightarrow> Inl e | Inr out \<Rightarrow> Inr (out @ [LF]))"

subsection \<open>Readers\<close>

definition any_int :: "reader \<Rightarrow> i64 read" where
  "any_int r = integer MinInt64 MaxInt64 r"

text \<open>
  \<^verbatim>\<open>strMap\<close> runs the same loop over members with no \<^verbatim>\<open>seen\<close> bits: a repeated key
  overwrites.
\<close>

definition strMap_field :: "string \<Rightarrow> strings \<Rightarrow> u32 \<Rightarrow> reader \<Rightarrow> (strings \<times> u32) read" where
  "strMap_field k m seen r =
     (case str r of Inl e \<Rightarrow> Inl e | Inr (x, r') \<Rightarrow> Inr ((AList.update k x m, seen), r'))"

definition attestation_field ::
  "string \<Rightarrow> wire_attestation \<Rightarrow> u32 \<Rightarrow> reader \<Rightarrow> (wire_attestation \<times> u32) read" where
  "attestation_field key v seen r =
     (if key = ''by'' then once 1 str (\<lambda>x. v\<lparr>wa_by := x\<rparr>) seen r
      else if key = ''verified'' then once 2 boolean (\<lambda>x. v\<lparr>wa_verified := x\<rparr>) seen r
      else if key = ''hop'' then once 4 any_int (\<lambda>x. v\<lparr>wa_hop := x\<rparr>) seen r
      else if key = ''program'' then once 8 str (\<lambda>x. v\<lparr>wa_program := x\<rparr>) seen r
      else if key = ''host'' then once 16 str (\<lambda>x. v\<lparr>wa_host := x\<rparr>) seen r
      else if key = ''user'' then once 32 str (\<lambda>x. v\<lparr>wa_user := x\<rparr>) seen r
      else if key = ''exe'' then once 64 str (\<lambda>x. v\<lparr>wa_exe := x\<rparr>) seen r
      else if key = ''uid'' then once 128 any_int (\<lambda>x. v\<lparr>wa_uid := x\<rparr>) seen r
      else if key = ''gid'' then once 256 any_int (\<lambda>x. v\<lparr>wa_gid := x\<rparr>) seen r
      else if key = ''pid'' then once 512 any_int (\<lambda>x. v\<lparr>wa_pid := x\<rparr>) seen r
      else if key = ''key'' then once 1024 str (\<lambda>x. v\<lparr>wa_key := x\<rparr>) seen r
      else if key = ''mac'' then once 2048 str (\<lambda>x. v\<lparr>wa_mac := x\<rparr>) seen r
      else skip_field v seen r)"

text \<open>Every reader of this layer moves forward.\<close>

lemma any_int_forward: "any_int r = Inr (n, r') \<Longrightarrow> forward r r'"
  by (simp add: any_int_def integer_forward)

lemma str_forward': "str r = Inr (n, r') \<Longrightarrow> forward r r'"
  using str_forward by blast

lemmas scalar_forward = any_int_forward str_forward' boolean_forward timestamp_forward

lemma strMap_field_forward: "strMap_field k m seen r = Inr (x, r') \<Longrightarrow> forward r r'"
  by (auto simp: strMap_field_def dest: str_forward' split: sum.splits)

lemma attestation_field_forward: "attestation_field k v seen r = Inr (x, r') \<Longrightarrow> forward r r'"
  unfolding attestation_field_def
  by (auto split: if_splits dest!: skip_field_forward elim!: once_forward intro: scalar_forward)

text \<open>The measure that every loop over members decreases.\<close>

definition unread :: "reader \<Rightarrow> nat" where
  "unread r = length (r_buf r) - r_pos r"

lemma object_step_unread:
  assumes "object_step field v seen r = Inr ((True, x), r')"
    and "\<And>k v seen r x r'. field k v seen r = Inr (x, r') \<Longrightarrow> forward r r'"
  shows "unread r' < unread r"
  using object_step_forward [OF assms(1)] assms(2) by (fastforce simp: unread_def forward_def)

lemma list_step_unread:
  assumes "list_step elem r = Inr ((True, v), r')"
    and "\<And>r y r'. elem r = Inr (y, r') \<Longrightarrow> forward r r'"
  shows "unread r' < unread r"
  using list_step_forward [OF assms(1)] assms(2) by (fastforce simp: unread_def forward_def)

subsection \<open>Loops\<close>

function strMap_loop :: "strings \<Rightarrow> u32 \<Rightarrow> reader \<Rightarrow> (strings \<times> u32) read" where
  "strMap_loop v seen r =
     (case object_step strMap_field v seen r of
        Inl e \<Rightarrow> Inl e
      | Inr ((again, v', seen'), r') \<Rightarrow>
          (if again then strMap_loop v' seen' r' else Inr ((v', seen'), r')))"
  by pat_completeness auto
termination
  by (relation "measure (\<lambda>(v, seen, r). unread r)")
    (auto dest: object_step_unread strMap_field_forward)

definition strMap :: "reader \<Rightarrow> strings read" where
  "strMap r = decode_object strMap_loop 0 [] r"

function attestation_loop ::
  "wire_attestation \<Rightarrow> u32 \<Rightarrow> reader \<Rightarrow> (wire_attestation \<times> u32) read" where
  "attestation_loop v seen r =
     (case object_step attestation_field v seen r of
        Inl e \<Rightarrow> Inl e
      | Inr ((again, v', seen'), r') \<Rightarrow>
          (if again then attestation_loop v' seen' r' else Inr ((v', seen'), r')))"
  by pat_completeness auto
termination
  by (relation "measure (\<lambda>(v, seen, r). unread r)")
    (auto dest: object_step_unread attestation_field_forward)

definition decodeAttestation :: "reader \<Rightarrow> wire_attestation read" where
  "decodeAttestation r = decode_object attestation_loop 903 zero_attestation r"

declare strMap_loop.simps [simp del] attestation_loop.simps [simp del]

interpretation str_map: object_decoder strMap_field strMap_loop
  by unfold_locales (rule strMap_loop.simps, rule strMap_field_forward)

interpretation attestation: object_decoder attestation_field attestation_loop
  by unfold_locales (rule attestation_loop.simps, rule attestation_field_forward)

lemma strMap_forward: "strMap r = Inr (m, r') \<Longrightarrow> forward r r'"
  by (simp add: strMap_def str_map.decode_forward)

lemma decodeAttestation_forward: "decodeAttestation r = Inr (a, r') \<Longrightarrow> forward r r'"
  by (simp add: decodeAttestation_def attestation.decode_forward)

function identity_loop :: "wire_attestation list \<Rightarrow> reader \<Rightarrow> wire_attestation list read" where
  "identity_loop out r =
     (case list_step decodeAttestation r of
        Inl e \<Rightarrow> Inl e
      | Inr ((again, v), r') \<Rightarrow>
          (if again then identity_loop (out @ [v]) r' else Inr (out @ [v], r')))"
  by pat_completeness auto
termination
  by (relation "measure (\<lambda>(out, r). unread r)")
    (auto dest: list_step_unread decodeAttestation_forward)

declare identity_loop.simps [simp del]

interpretation identity: list_decoder decodeAttestation identity_loop
  by unfold_locales (rule identity_loop.simps, rule decodeAttestation_forward)

definition record_field ::
  "string \<Rightarrow> wire_record \<Rightarrow> u32 \<Rightarrow> reader \<Rightarrow> (wire_record \<times> u32) read" where
  "record_field key v seen r =
     (if key = ''schema'' then once 1 any_int (\<lambda>x. v\<lparr>wr_schema := x\<rparr>) seen r
      else if key = ''time'' then once 2 timestamp (\<lambda>x. v\<lparr>wr_time := x\<rparr>) seen r
      else if key = ''level'' then once 4 any_int (\<lambda>x. v\<lparr>wr_level := x\<rparr>) seen r
      else if key = ''msg'' then once 8 str (\<lambda>x. v\<lparr>wr_msg := x\<rparr>) seen r
      else if key = ''identity'' then once 16 (decode_list identity_loop) (\<lambda>x. v\<lparr>wr_identity := x\<rparr>) seen r
      else if key = ''job'' then once 32 str (\<lambda>x. v\<lparr>wr_job := x\<rparr>) seen r
      else if key = ''attrs'' then once 64 strMap (\<lambda>x. v\<lparr>wr_attrs := x\<rparr>) seen r
      else skip_field v seen r)"

lemma record_field_forward: "record_field k v seen r = Inr (x, r') \<Longrightarrow> forward r r'"
  unfolding record_field_def
  by (auto split: if_splits dest!: skip_field_forward elim!: once_forward
      intro: scalar_forward strMap_forward identity.decode_forward)

function record_loop :: "wire_record \<Rightarrow> u32 \<Rightarrow> reader \<Rightarrow> (wire_record \<times> u32) read" where
  "record_loop v seen r =
     (case object_step record_field v seen r of
        Inl e \<Rightarrow> Inl e
      | Inr ((again, v', seen'), r') \<Rightarrow>
          (if again then record_loop v' seen' r' else Inr ((v', seen'), r')))"
  by pat_completeness auto
termination
  by (relation "measure (\<lambda>(v, seen, r). unread r)")
    (auto dest: object_step_unread record_field_forward)

declare record_loop.simps [simp del]

interpretation wire_record: object_decoder record_field record_loop
  by unfold_locales (rule record_loop.simps, rule record_field_forward)

definition decodeRecord :: "reader \<Rightarrow> wire_record read" where
  "decodeRecord r =
     (case decode_object record_loop 15 zero_record r of
        Inl e \<Rightarrow> Inl e
      | Inr (v, r') \<Rightarrow>
          (if wr_schema v \<noteq> 1 then Inl (refuse r' ''bad_schema'') else Inr (v, r')))"

lemma decodeRecord_forward: "decodeRecord r = Inr (v, r') \<Longrightarrow> forward r r'"
  by (auto simp: decodeRecord_def dest: wire_record.decode_forward split: sum.splits if_splits)

text \<open>A whole document: white space, one value, white space, and nothing after it.\<close>

definition fresh_reader :: "string \<Rightarrow> reader" where
  "fresh_reader s = \<lparr>r_buf = s, r_pos = 0, r_depth = 0\<rparr>"

definition Decode :: "string \<Rightarrow> wire_error + wire_record" where
  "Decode s =
     (case decodeRecord (ws (fresh_reader s)) of
        Inl e \<Rightarrow> Inl e
      | Inr (v, r) \<Rightarrow>
          (let r' = ws r in
           if r_pos r' < length (r_buf r') then Inl (refuse r' ''trailing_bytes'') else Inr v))"

subsection \<open>What the writers write\<close>

lemma put_key_text: "put_key out d k = out @ key_text d k"
  by (simp add: put_key_def key_text_def esc_text pad_def)

lemma put_bool_text: "put_bool out b = out @ put_bool [] b"
  by (simp add: put_bool_def)

lemma put_close_text: "put_close out d = out @ close_text d ''}''"
  by (simp add: put_close_def close_text_def pad_def)

lemma esc_out: "esc (a @ b) s = a @ b @ esc [] s"
  by (simp add: esc_text)

lemma num_out: "num (a @ b) n = a @ b @ num [] n"
  using num_append [of "a @ b" n] by simp

lemma put_bool_out: "put_bool (a @ b) c = a @ b @ put_bool [] c"
  by (simp add: put_bool_def)

lemma if_out: "(if b then out @ t else out) = out @ (if b then t else [])"
  by simp

lemmas writes = put_key_text put_close_text esc_out num_out put_bool_out if_out

definition attestation_members :: "wire_attestation \<Rightarrow> wire_attestation member list" where
  "attestation_members v =
     [Member ''by'' (esc [] (wa_by v)) (\<lambda>w. w\<lparr>wa_by := wa_by v\<rparr>) 1,
      Member ''verified'' (put_bool [] (wa_verified v)) (\<lambda>w. w\<lparr>wa_verified := wa_verified v\<rparr>) 2,
      Member ''hop'' (num [] (wa_hop v)) (\<lambda>w. w\<lparr>wa_hop := wa_hop v\<rparr>) 4] @
     optional (wa_program v \<noteq> []) (Member ''program'' (esc [] (wa_program v)) (\<lambda>w. w\<lparr>wa_program := wa_program v\<rparr>) 8) @
     optional (wa_host v \<noteq> []) (Member ''host'' (esc [] (wa_host v)) (\<lambda>w. w\<lparr>wa_host := wa_host v\<rparr>) 16) @
     optional (wa_user v \<noteq> []) (Member ''user'' (esc [] (wa_user v)) (\<lambda>w. w\<lparr>wa_user := wa_user v\<rparr>) 32) @
     optional (wa_exe v \<noteq> []) (Member ''exe'' (esc [] (wa_exe v)) (\<lambda>w. w\<lparr>wa_exe := wa_exe v\<rparr>) 64) @
     [Member ''uid'' (num [] (wa_uid v)) (\<lambda>w. w\<lparr>wa_uid := wa_uid v\<rparr>) 128,
      Member ''gid'' (num [] (wa_gid v)) (\<lambda>w. w\<lparr>wa_gid := wa_gid v\<rparr>) 256,
      Member ''pid'' (num [] (wa_pid v)) (\<lambda>w. w\<lparr>wa_pid := wa_pid v\<rparr>) 512] @
     optional (wa_key v \<noteq> []) (Member ''key'' (esc [] (wa_key v)) (\<lambda>w. w\<lparr>wa_key := wa_key v\<rparr>) 1024) @
     optional (wa_mac v \<noteq> []) (Member ''mac'' (esc [] (wa_mac v)) (\<lambda>w. w\<lparr>wa_mac := wa_mac v\<rparr>) 2048)"

definition attestation_text :: "nat \<Rightarrow> wire_attestation \<Rightarrow> string" where
  "attestation_text d v = object_text d (texts (attestation_members v))"

lemma encAttestation_text: "encAttestation out v d = out @ attestation_text d v"
  unfolding encAttestation_def attestation_text_def object_text_def attestation_members_def
  by (simp only: writes append_assoc) (simp only: Let_def append_assoc texts_simps members_text_append optional_simps members_text.simps
      member.sel append_Cons append_Nil append_Nil2 list.sel)

text \<open>An optional member that is absent leaves the zero value it would have stored.\<close>

lemma attestation_optional:
  "(if s \<noteq> [] then wa_program_update (\<lambda>_. s) w else w) = w\<lparr>wa_program := if s \<noteq> [] then s else wa_program w\<rparr>"
  "(if s \<noteq> [] then wa_host_update (\<lambda>_. s) w else w) = w\<lparr>wa_host := if s \<noteq> [] then s else wa_host w\<rparr>"
  "(if s \<noteq> [] then wa_user_update (\<lambda>_. s) w else w) = w\<lparr>wa_user := if s \<noteq> [] then s else wa_user w\<rparr>"
  "(if s \<noteq> [] then wa_exe_update (\<lambda>_. s) w else w) = w\<lparr>wa_exe := if s \<noteq> [] then s else wa_exe w\<rparr>"
  "(if s \<noteq> [] then wa_key_update (\<lambda>_. s) w else w) = w\<lparr>wa_key := if s \<noteq> [] then s else wa_key w\<rparr>"
  "(if s \<noteq> [] then wa_mac_update (\<lambda>_. s) w else w) = w\<lparr>wa_mac := if s \<noteq> [] then s else wa_mac w\<rparr>"
  by simp_all

lemma empty_or_self: "(if s \<noteq> [] then s else []) = s"
  by simp

lemma attestation_stored: "stored (attestation_members v) zero_attestation = v"
  unfolding attestation_members_def zero_attestation_def stored_simps optional_simps member.sel
  by (simp only: attestation_optional wire_attestation.simps empty_or_self)
    (cases v, simp)

lemma attestation_flags:
  "distinct_flags (attestation_members v)" "flags (attestation_members v) AND 903 = 903"
  by (simp_all add: attestation_members_def distinct_flags_def sorted_wrt_append ball_Un)

subsection \<open>Reading back\<close>

lemma value_start_num [simp]: "value_start (num [] n)"
proof (cases "n = 0 \<or> sint n < 0")
  case True
  then show ?thesis by (auto simp: num_def Let_def value_start_def is_ws_def)
next
  case False
  then have "num_loop n [] \<noteq> []" "\<forall>c \<in> set (num_loop n []). is_digit c"
    using num_loop_digits [of n] by simp_all
  then obtain c t where "num_loop n [] = c # t" "is_digit c" by (cases "num_loop n []") auto
  then show ?thesis using False by (auto simp: num_def value_start_def is_ws_def is_digit_def bv_def)
qed

lemma value_start_bool [simp]: "value_start (put_bool [] b)"
  by (simp add: put_bool_def)

lemma sint_bounds: "sint MinInt64 \<le> sint n" "sint n \<le> sint MaxInt64" for n :: i64
  using sint_ge [of n] sint_lt [of n] by (simp_all add: MinInt64_def MaxInt64_def)

lemma str_back [reads_back]: "rest q = esc [] s @ u \<Longrightarrow> validUTF8 s \<Longrightarrow> str q = Inr (s, to q u)"
  by (rule str_text)

lemma any_int_back [reads_back]: "rest q = num [] n @ u \<Longrightarrow> follows u \<Longrightarrow> any_int q = Inr (n, to q u)"
  unfolding any_int_def by (rule integer_num) (auto intro: follows_no_number sint_bounds)

lemma literal_text: "rest q = w @ u \<Longrightarrow> w \<noteq> [] \<Longrightarrow> literal w q = Inr ((), to q u)"
proof -
  assume r: "rest q = w @ u" "w \<noteq> []"
  have "r_pos q + length w + length u = length (r_buf q)" by (rule rest_Cons_length [OF r])
  moreover have "take (length w) (drop (r_pos q) (r_buf q)) = w" using r by (simp add: rest_def)
  ultimately show ?thesis by (auto simp: literal_def to_def)
qed

lemma boolean_back [reads_back]: "rest q = put_bool [] b @ u \<Longrightarrow> boolean q = Inr (b, to q u)"
  using literal_text [of q "put_bool [] b" u]
  by (cases b) (simp_all add: boolean_def put_bool_def)

lemma timestamp_back [reads_back]:
  "rest q = esc [] (normalizedTimestamp s) @ u \<Longrightarrow> WideTimestamp s \<Longrightarrow>
    timestamp q = Inr (normalizedTimestamp s, to q u)"
  by (rule timestamp_text)

declare validUTF8.simps [simp del]

lemma attestation_keys [simp]:
  "validUTF8 ''by''" "validUTF8 ''verified''" "validUTF8 ''hop''" "validUTF8 ''program''"
  "validUTF8 ''host''" "validUTF8 ''user''" "validUTF8 ''exe''" "validUTF8 ''uid''" "validUTF8 ''gid''"
  "validUTF8 ''pid''" "validUTF8 ''key''" "validUTF8 ''mac''"
  by code_simp+

definition utf8_attestation :: "wire_attestation \<Rightarrow> bool" where
  "utf8_attestation a \<longleftrightarrow> list_all validUTF8
     [wa_by a, wa_program a, wa_host a, wa_user a, wa_exe a, wa_key a, wa_mac a]"

lemma reads_attestation_members:
  assumes "utf8_attestation a"
  shows "\<forall>m \<in> set (attestation_members a). reads_member attestation_field n m"
  using assms unfolding attestation_members_def utf8_attestation_def
  by (simp add: ball_Un) (intro conjI impI; rule reads_memberI; simp add: attestation_field_def once_def reads_back)

lemma object_text_start [simp]: "value_start (object_text d ms)" "hd (object_text d ms) = CHR ''{''"
  by (simp_all add: object_text_def)

lemma decodeAttestation_text [reads_back]:
  assumes "rest q = attestation_text d a @ u" "utf8_attestation a" "r_depth q < depthLimit"
  shows "decodeAttestation q = Inr (a, to q u)"
proof -
  have "attestation_members a \<noteq> []" by (simp add: attestation_members_def)
  then show ?thesis
    using attestation.decode_members [of q d "attestation_members a" u 903 zero_attestation]
      reads_attestation_members [OF assms(2)] assms(1,3) attestation_flags attestation_stored
    by (simp add: decodeAttestation_def attestation_text_def)
qed

subsection \<open>Maps\<close>

text \<open>The entries in the order the writer gives them.\<close>

definition sorted_map :: "strings \<Rightarrow> strings" where
  "sorted_map m = map (\<lambda>k. (k, the (map_of m k))) (sortedKeys m)"

definition map_members :: "strings \<Rightarrow> strings member list" where
  "map_members m = map (\<lambda>(k, x). Member k (esc [] x) (AList.update k x) 0) m"

lemma sorted_map_keys: "map fst (sorted_map m) = sortedKeys m"
  by (simp add: sorted_map_def comp_def)

lemma sorted_map_Nil: "sorted_map m = [] \<longleftrightarrow> m = []"
  by (simp add: sorted_map_def sortedKeys_Nil_iff)

lemma map_of_sorted_map: "map_of (sorted_map m) = map_of m"
proof
  fix k
  show "map_of (sorted_map m) k = map_of m k"
  proof (cases "k \<in> fst ` set m")
    case True
    then obtain v where "map_of m k = Some v" by (metis map_of_eq_None_iff not_Some_eq)
    then show ?thesis
      using True map_of_map_restrict [of "\<lambda>k. the (map_of m k)" "sortedKeys m"]
      by (simp add: sorted_map_def set_sortedKeys restrict_map_def)
  next
    case False
    then have "map_of m k = None" "map_of (sorted_map m) k = None"
      using sorted_map_keys [of m] set_sortedKeys [of m]
      by (simp_all add: map_of_eq_None_iff flip: set_map)
    then show ?thesis by simp
  qed
qed

lemma sorted_map_cong:
  assumes "distinct (map fst m)" "distinct (map fst m')" "map_of m = map_of m'"
  shows "sorted_map m = sorted_map m'"
  using sortedKeys_cong [OF assms] assms(3) by (simp add: sorted_map_def)

lemma sorted_map_sorted: "sorted_map (sorted_map m) = sorted_map m"
proof -
  have "sortedKeys (sorted_map m) = sortedKeys m"
    by (simp add: sortedKeys_sort [of "sorted_map m"] sorted_map_keys) (simp add: sortedKeys_sort sort_key_id_if_sorted)
  then show ?thesis by (simp add: sorted_map_def [of "sorted_map m"] map_of_sorted_map) (simp add: sorted_map_def)
qed

lemma strmap_loop_text:
  assumes "ks \<noteq> []"
  shows "strmap_loop (out @ [LF]) m d ks
    = out @ tl (members_text d (texts (map_members (map (\<lambda>k. (k, the (map_of m k))) ks)))) @ [LF]"
  using assms
proof (induction ks arbitrary: out)
  case (Cons k ks)
  show ?case
  proof (cases "ks = []")
    case True
    then show ?thesis by (simp add: map_members_def key_text_def esc_text pad_def Let_def)
  next
    case False
    let ?x = "the (map_of m k)"
    have "strmap_loop (out @ [LF]) m d (k # ks)
        = strmap_loop ((out @ key_text d k @ esc [] ?x @ '','') @ [LF]) m d ks"
      using False by (simp add: key_text_def esc_text pad_def Let_def)
    also have "\<dots> = (out @ key_text d k @ esc [] ?x @ '','') @
        tl (members_text d (texts (map_members (map (\<lambda>k. (k, the (map_of m k))) ks)))) @ [LF]"
      using Cons.IH False by blast
    finally show ?thesis using False by (cases ks) (simp_all add: map_members_def)
  qed
qed simp

lemma strmap_text:
  "m \<noteq> [] \<Longrightarrow> strmap out m d = out @ object_text d (texts (map_members (sorted_map m)))"
  using strmap_loop_text [of "sortedKeys m" "out @ ''{''" m d]
  by (simp add: strmap_def Let_def sortedKeys_Nil_iff object_text_def sorted_map_def close_text_def pad_def)

lemma stored_map_members:
  "distinct (map fst (m @ m')) \<Longrightarrow> stored (map_members m') m = m @ m'"
proof (induction m' arbitrary: m)
  case (Cons e m')
  obtain k x where e: "e = (k, x)" by (cases e)
  have "AList.update k x m = m @ [(k, x)]"
    using Cons.prems e by (induction m) auto
  then show ?case using Cons.IH [of "m @ [(k, x)]"] Cons.prems e by (simp add: map_members_def)
qed (simp add: map_members_def)

definition utf8_map :: "strings \<Rightarrow> bool" where
  "utf8_map m \<longleftrightarrow> list_all (\<lambda>(k, x). validUTF8 k \<and> validUTF8 x) m"

lemma strMap_back [reads_back]:
  assumes "rest q = object_text d (texts (map_members m)) @ u" "m \<noteq> []" "utf8_map m"
    "distinct (map fst m)" "r_depth q < depthLimit"
  shows "strMap q = Inr (m, to q u)"
proof -
  have "reads_member strMap_field n (Member k (esc [] x) (AList.update k x) 0)"
    if "(k, x) \<in> set m" for n k x
    using that assms(3)
    by (intro reads_memberI) (auto simp: strMap_field_def reads_back utf8_map_def list_all_iff)
  then have "\<forall>e \<in> set (map_members m). reads_member strMap_field n e" for n
    by (auto simp: map_members_def)
  moreover have "distinct_flags (map_members m)"
    by (simp add: distinct_flags_def map_members_def sorted_wrt_map split_beta sorted_wrt_iff_nth_less)
  moreover have "stored (map_members m) [] = m" using stored_map_members [of "[]" m] assms by simp
  moreover have "map_members m \<noteq> []" using assms by (simp add: map_members_def)
  ultimately show ?thesis
    using str_map.decode_members [of q d "map_members m" u 0 "[]"] assms by (simp add: strMap_def)
qed

lemma sorted_map_subset: "set (sorted_map m) \<subseteq> set m"
proof
  fix e assume "e \<in> set (sorted_map m)"
  then obtain k where k: "k \<in> fst ` set m" "e = (k, the (map_of m k))"
    by (auto simp: sorted_map_def set_sortedKeys)
  then obtain v where "map_of m k = Some v" by (metis map_of_eq_None_iff not_Some_eq)
  then show "e \<in> set m" using k map_of_SomeD by fastforce
qed

lemma utf8_sorted_map: "utf8_map m \<Longrightarrow> utf8_map (sorted_map m)"
  using sorted_map_subset by (auto simp: utf8_map_def list_all_iff)

subsection \<open>Lists\<close>

lemma encList_loop_text:
  assumes "vs \<noteq> []" "\<And>v out. v \<in> set vs \<Longrightarrow> enc out v (d + 1) = Inr (out @ txt v)"
  shows "\<exists>v vs'. vs = v # vs' \<and>
    encList_loop (out @ [LF]) vs d enc = Inr (out @ item_line d @ txt v @ items_text d txt vs' @ [LF])"
  using assms
proof (induction vs arbitrary: out)
  case (Cons v vs)
  show ?case
  proof (cases "vs = []")
    case True
    then show ?thesis using Cons.prems by (simp add: item_line_def pad_def)
  next
    case False
    let ?out = "out @ item_line d @ txt v @ '','' "
    have "encList_loop (out @ [LF]) (v # vs) d enc = encList_loop (?out @ [LF]) vs d enc"
      using False Cons.prems by (simp add: item_line_def pad_def Let_def)
    moreover obtain w ws where "vs = w # ws" "encList_loop (?out @ [LF]) vs d enc
        = Inr (?out @ item_line d @ txt w @ items_text d txt ws @ [LF])"
      using Cons.IH [of ?out] Cons.prems False by auto
    ultimately show ?thesis by simp
  qed
qed simp

lemma encList_text:
  assumes "\<And>v out. v \<in> set vs \<Longrightarrow> enc out v (d + 1) = Inr (out @ txt v)"
  shows "encList out vs d enc = Inr (out @ list_text d txt vs)"
proof (cases "vs = []")
  case False
  then obtain v vs' where "vs = v # vs'" "encList_loop ((out @ ''['') @ [LF]) vs d enc
      = Inr ((out @ ''['') @ item_line d @ txt v @ items_text d txt vs' @ [LF])"
    using encList_loop_text [of vs enc d "txt" "out @ ''[''"] assms by blast
  then show ?thesis by (simp add: encList_def list_text_def close_text_def pad_def)
qed (simp add: encList_def list_text_def)

text \<open>A list is written only when every element is.\<close>

lemma encList_loop_Inr:
  "encList_loop out vs d enc = Inr out' \<Longrightarrow> v \<in> set vs \<Longrightarrow> \<exists>o1 o2. enc o1 v (d + 1) = Inr o2"
  by (induction vs arbitrary: out) (auto simp: Let_def split: sum.splits if_splits)

lemma encList_Inr:
  "encList out vs d enc = Inr out' \<Longrightarrow> v \<in> set vs \<Longrightarrow> \<exists>o1 o2. enc o1 v (d + 1) = Inr o2"
  using encList_loop_Inr by (fastforce simp: encList_def split: if_splits sum.splits)

subsection \<open>Records\<close>

text \<open>
  The record a reader gets: the timestamp normalized, the attributes in the writer's order.
\<close>

definition canonical :: "wire_record \<Rightarrow> wire_record" where
  "canonical v = v\<lparr>wr_time := normalizedTimestamp (wr_time v), wr_attrs := sorted_map (wr_attrs v)\<rparr>"

definition writable :: "wire_record \<Rightarrow> bool" where
  "writable v \<longleftrightarrow> wr_schema v = 1 \<and> WideTimestamp (wr_time v)"

definition utf8_record :: "wire_record \<Rightarrow> bool" where
  "utf8_record v \<longleftrightarrow> validUTF8 (wr_msg v) \<and> validUTF8 (wr_job v) \<and> utf8_map (wr_attrs v)
     \<and> list_all utf8_attestation (wr_identity v)"

text \<open>Go's map invariant: no key twice.\<close>

definition map_record :: "wire_record \<Rightarrow> bool" where
  "map_record v \<longleftrightarrow> distinct (map fst (wr_attrs v))"

definition record_members :: "nat \<Rightarrow> wire_record \<Rightarrow> wire_record member list" where
  "record_members d v =
     [Member ''schema'' (num [] (wr_schema v)) (\<lambda>w. w\<lparr>wr_schema := wr_schema v\<rparr>) 1,
      Member ''time'' (esc [] (normalizedTimestamp (wr_time v))) (\<lambda>w. w\<lparr>wr_time := normalizedTimestamp (wr_time v)\<rparr>) 2,
      Member ''level'' (num [] (wr_level v)) (\<lambda>w. w\<lparr>wr_level := wr_level v\<rparr>) 4,
      Member ''msg'' (esc [] (wr_msg v)) (\<lambda>w. w\<lparr>wr_msg := wr_msg v\<rparr>) 8] @
     optional (wr_identity v \<noteq> [])
       (Member ''identity'' (list_text (d + 1) (attestation_text (d + 2)) (wr_identity v))
         (\<lambda>w. w\<lparr>wr_identity := wr_identity v\<rparr>) 16) @
     optional (wr_job v \<noteq> []) (Member ''job'' (esc [] (wr_job v)) (\<lambda>w. w\<lparr>wr_job := wr_job v\<rparr>) 32) @
     optional (wr_attrs v \<noteq> [])
       (Member ''attrs'' (object_text (d + 1) (texts (map_members (sorted_map (wr_attrs v)))))
         (\<lambda>w. w\<lparr>wr_attrs := sorted_map (wr_attrs v)\<rparr>) 64)"

definition record_text :: "nat \<Rightarrow> wire_record \<Rightarrow> string" where
  "record_text d v = object_text d (texts (record_members d v))"

lemma if_Inr: "(if b then Inr (out @ t) else Inr out) = Inr (out @ (if b then t else []))"
  by simp

lemma if_strmap:
  "(if m \<noteq> [] then strmap out m d else out')
    = (if m \<noteq> [] then out @ object_text d (texts (map_members (sorted_map m))) else out')"
  by (simp add: strmap_text)

lemma encRecord_text:
  assumes "writable v"
  shows "encRecord out v d = Inr (out @ record_text d v)"
proof -
  have id: "encList o2 (wr_identity v) (d + 1) (\<lambda>out a d. Inr (encAttestation out a d))
      = Inr (o2 @ list_text (d + 1) (attestation_text (d + 2)) (wr_identity v))" for o2
    by (rule encList_text) (simp add: encAttestation_text)
  have wt: "writeTimestamp (wr_time v) = Inr (normalizedTimestamp (wr_time v))"
    and sc: "wr_schema v = 1"
    using assms by (simp_all add: writable_def writeTimestamp_Inr)
  show ?thesis
    unfolding encRecord_def wt record_text_def object_text_def record_members_def id
    by (simp only: writes if_strmap append_assoc sum.case if_Inr)
      (simp only: Let_def append_assoc texts_simps members_text_append optional_simps members_text.simps
        member.sel append_Cons append_Nil append_Nil2 list.sel sum.case if_Inr writes sc simp_thms if_False,
       simp add: object_text_def)
qed

lemma encRecord_Inr: "(\<exists>out'. encRecord out v d = Inr out') \<longleftrightarrow> writable v"
proof (cases "writable v")
  case False
  then have "wr_schema v \<noteq> 1 \<or> (\<exists>e. writeTimestamp (wr_time v) = Inl e)"
    by (auto simp: writable_def writeTimestamp_def WideTimestamp_def Let_def)
  then show ?thesis using False by (auto simp: encRecord_def Let_def)
qed (simp add: encRecord_text)

lemma record_stored: "stored (record_members d v) zero_record = canonical v"
  by (cases v) (simp add: record_members_def zero_record_def canonical_def sorted_map_def sortedKeys_def)

lemma record_flags:
  "distinct_flags (record_members d v)" "flags (record_members d v) AND 15 = 15"
  by (simp_all add: record_members_def distinct_flags_def sorted_wrt_append ball_Un)

lemma record_keys [simp]:
  "validUTF8 ''schema''" "validUTF8 ''time''" "validUTF8 ''level''" "validUTF8 ''msg''"
  "validUTF8 ''identity''" "validUTF8 ''job''" "validUTF8 ''attrs''"
  by code_simp+

lemma attestation_text_start: "value_start (attestation_text d a) \<and> hd (attestation_text d a) \<noteq> CHR '']''"
  by (simp add: attestation_text_def)

lemma identity_back [reads_back]:
  assumes "rest q = list_text d (attestation_text d') as @ u" "list_all utf8_attestation as"
    "r_depth q + 1 < depthLimit"
  shows "decode_list identity_loop q = Inr (as, to q u)"
  using identity.decode_list_text [of q d "attestation_text d'" as u id] assms
    decodeAttestation_text attestation_text_start
  by (simp add: list_all_iff)

lemma reads_record_members:
  assumes "utf8_record v" "writable v" "map_record v" "n + 1 < depthLimit"
  shows "\<forall>m \<in> set (record_members d v). reads_member record_field n m"
  using assms unfolding record_members_def utf8_record_def writable_def map_record_def
  by (simp add: ball_Un)
    (intro conjI impI; rule reads_memberI;
      simp add: record_field_def once_def reads_back utf8_sorted_map sorted_map_Nil sorted_map_keys sortedKeys_distinct)

lemma decodeRecord_text [reads_back]:
  assumes "rest q = record_text d v @ u" "utf8_record v" "writable v" "map_record v"
    "r_depth q + 2 < depthLimit"
  shows "decodeRecord q = Inr (canonical v, to q u)"
proof -
  have "record_members d v \<noteq> []" by (simp add: record_members_def)
  then have "decode_object record_loop 15 zero_record q = Inr (canonical v, to q u)"
    using wire_record.decode_members [of q d "record_members d v" u 15 zero_record]
      reads_record_members assms record_flags record_stored
    by (simp add: record_text_def)
  moreover have "wr_schema (canonical v) = 1" using assms by (simp add: canonical_def writable_def)
  ultimately show ?thesis by (simp add: decodeRecord_def)
qed

subsection \<open>Documents\<close>

lemma rest_fresh [simp]: "rest (fresh_reader s) = s"
  by (simp add: rest_def fresh_reader_def)

lemma r_depth_fresh [simp]: "r_depth (fresh_reader s) = 0"
  by (simp add: fresh_reader_def)

lemma ws_trailing:
  assumes "rest q = w" "\<forall>c \<in> set w. is_ws c" "in_buf q"
  shows "r_pos (ws q) = length (r_buf (ws q))"
  using ws_to [of q w "[]"] assms by (simp add: to_def)

lemma Encode_text: "Encode v = (if writable v then Inr (record_text 0 v @ [LF])
    else Encode v)"
  by (simp add: Encode_def encRecord_text)

lemma Decode_text:
  assumes "writable v" "utf8_record v" "map_record v"
  shows "Decode (record_text 0 v @ [LF]) = Inr (canonical v)"
proof -
  let ?s = "record_text 0 v @ [LF]"
  let ?r = "fresh_reader ?s"
  have "ws ?r = ?r" by (rule ws_none [of _ ?s]) (simp_all add: record_text_def)
  moreover have d: "decodeRecord ?r = Inr (canonical v, to ?r [LF])"
    using decodeRecord_text [of ?r 0 v "[LF]"] assms by (simp add: depthLimit_def)
  moreover have "rest (to ?r [LF]) = [LF]" using rest_to [of ?r "record_text 0 v" "[LF]"] by simp
  then have "r_pos (ws (to ?r [LF])) = length (r_buf (ws (to ?r [LF])))"
    by (rule ws_trailing) simp_all
  ultimately show ?thesis by (simp add: Decode_def Let_def)
qed

lemma Encode_fails:
  "\<not> writable v \<Longrightarrow> Encode v = Inl (Refusal (if wr_schema v \<noteq> 1 then ''bad_schema'' else ''bad_timestamp'') 0)"
  by (auto simp: Encode_def encRecord_def writable_def writeTimestamp_def WideTimestamp_def Let_def)

lemma Decode_Inr:
  "Decode s = Inr v \<longleftrightarrow> (\<exists>r. decodeRecord (ws (fresh_reader s)) = Inr (v, r)
    \<and> r_pos (ws r) \<ge> length (r_buf (ws r)))"
  by (auto simp: Decode_def Let_def split: sum.splits if_splits)

lemma decodeRecord_schema: "decodeRecord r = Inr (v, r') \<Longrightarrow> wr_schema v = 1"
  by (auto simp: decodeRecord_def split: sum.splits if_splits)

text \<open>
  \<open>canonical\<close> is a fixed point of the codec: what was decoded once encodes to the same
  bytes again.
\<close>

lemma canonical_canonical: "canonical (canonical v) = canonical v"
  by (simp add: canonical_def normalizedTimestamp_idem sorted_map_sorted)

lemma canonical_fields:
  "wr_schema (canonical v) = wr_schema v" "wr_level (canonical v) = wr_level v"
  "wr_msg (canonical v) = wr_msg v" "wr_identity (canonical v) = wr_identity v"
  "wr_job (canonical v) = wr_job v"
  "normalizedTimestamp (wr_time (canonical v)) = normalizedTimestamp (wr_time v)"
  "sorted_map (wr_attrs (canonical v)) = sorted_map (wr_attrs v)"
  "wr_attrs (canonical v) = [] \<longleftrightarrow> wr_attrs v = []"
  by (simp_all add: canonical_def normalizedTimestamp_idem sorted_map_sorted sorted_map_Nil)

lemma writable_canonical: "writable v \<Longrightarrow> writable (canonical v)"
  by (simp add: writable_def canonical_def WideTimestamp_normalized)

lemma Encode_canonical: "writable v \<Longrightarrow> Encode (canonical v) = Encode v"
  by (simp add: Encode_def encRecord_text writable_canonical record_text_def record_members_def
      optional_def canonical_fields)

subsection \<open>Every record that is read can be written\<close>

lemma str_utf8: "str r = Inr (s, r') \<Longrightarrow> validUTF8 s"
  using str_forward by blast

lemma timestamp_wide: "timestamp r = Inr (s, r') \<Longrightarrow> WideTimestamp s"
  by (auto simp: timestamp_def split: sum.splits if_splits)

lemma strMap_sound:
  assumes "strMap r = Inr (m, r')"
  shows "utf8_map m \<and> distinct (map fst m)"
proof -
  let ?P = "\<lambda>m (seen :: u32). utf8_map m \<and> distinct (map fst m)"
  have "\<exists>seen. ?P m seen \<and> seen AND 0 = 0"
  proof (rule str_map.decode_invariant [of 0 "[]" r m r' ?P])
    fix k v seen q v' seen' q'
    assume k: "validUTF8 k" and f: "strMap_field k v seen q = Inr ((v', seen'), q')" and p: "?P v seen"
    then obtain x where x: "str q = Inr (x, q')" "v' = AList.update k x v"
      by (auto simp: strMap_field_def split: sum.splits)
    have "set v' \<subseteq> insert (k, x) (set v)" unfolding x
      by (induction v) auto
    then show "?P v' seen'"
      using p k x str_utf8 [OF x(1)] by (auto simp: utf8_map_def list_all_iff distinct_update)
  qed (use assms in \<open>simp_all add: strMap_def utf8_map_def\<close>)
  then show ?thesis by simp
qed

lemma decodeAttestation_sound:
  assumes "decodeAttestation r = Inr (a, r')"
  shows "utf8_attestation a"
proof -
  have "\<exists>seen. utf8_attestation a \<and> seen AND 903 = (903 :: u32)"
  proof (rule attestation.decode_invariant [of 903 zero_attestation r a r' "\<lambda>a seen. utf8_attestation a"])
    fix k v seen q v' seen' q'
    assume "attestation_field k v seen q = Inr ((v', seen'), q')" "utf8_attestation v"
    then show "utf8_attestation v'"
      by (auto simp: attestation_field_def utf8_attestation_def str_utf8 split: if_splits
          elim!: once_InrE skip_field_InrE)
  qed (use assms in \<open>simp_all add: decodeAttestation_def utf8_attestation_def zero_attestation_def validUTF8.simps\<close>)
  then show ?thesis by blast
qed

text \<open>
  What holds of a record under construction: its strings are UTF-8, its map has no key twice,
  and once the bit of \<^verbatim>\<open>time\<close> is set the time is a timestamp.
\<close>

definition record_inv :: "wire_record \<Rightarrow> u32 \<Rightarrow> bool" where
  "record_inv v seen \<longleftrightarrow> utf8_record v \<and> map_record v \<and> (seen AND 2 \<noteq> 0 \<longrightarrow> WideTimestamp (wr_time v))"

lemma record_field_inv:
  assumes "record_field k v seen q = Inr ((v', seen'), q')" "record_inv v seen"
  shows "record_inv v' seen'"
  using assms identity.decode_all [where Q = utf8_attestation, OF _ decodeAttestation_sound]
  by (auto simp: record_field_def record_inv_def utf8_record_def map_record_def str_utf8
      bit.conj_disj_distrib2 split: if_splits elim!: once_InrE skip_field_InrE
      dest: timestamp_wide strMap_sound)

lemma time_required: "(seen :: u32) AND 15 = 15 \<Longrightarrow> seen AND 2 \<noteq> 0"
proof
  assume a: "seen AND 15 = 15" "seen AND 2 = 0"
  have "(seen AND 15) AND 2 = (seen AND 2) AND 15" by (simp add: ac_simps)
  then show False using a by simp
qed

lemma decodeRecord_sound:
  assumes "decodeRecord r = Inr (v, r')"
  shows "utf8_record v \<and> map_record v \<and> writable v"
proof -
  have d: "decode_object record_loop 15 zero_record r = Inr (v, r')" and s: "wr_schema v = 1"
    using assms by (auto simp: decodeRecord_def split: sum.splits if_splits)
  have "\<exists>seen. record_inv v seen \<and> seen AND 15 = 15"
  proof (rule wire_record.decode_invariant [OF d])
    show "record_inv zero_record 0"
      by (simp add: record_inv_def zero_record_def utf8_record_def map_record_def utf8_map_def validUTF8.simps)
  qed (rule record_field_inv)
  then show ?thesis using s time_required by (auto simp: record_inv_def writable_def)
qed

subsection \<open>Properties of the record codec\<close>

text \<open>
  C10: What \<^verbatim>\<open>Encode\<close> writes, \<^verbatim>\<open>Decode\<close> reads: a record whose strings are UTF-8
  comes back with its timestamp normalized and its attributes in sorted order, and nothing
  else changed, through every escape, optional field and nested list.
\<close>

theorem encode_then_decode:
  assumes "Encode v = Inr s" "utf8_record v" "map_record v"
  shows "Decode s = Inr (canonical v)"
proof -
  have w: "writable v"
    using assms(1) encRecord_Inr [of "[]" v 0] by (auto simp: Encode_def split: sum.splits)
  then have "s = record_text 0 v @ [LF]" using assms(1) by (simp add: Encode_def encRecord_text)
  then show ?thesis using Decode_text [OF w assms(2,3)] by simp
qed

definition sample_attestation :: wire_attestation where
  "sample_attestation =
     \<lparr>wa_by = ''self'', wa_verified = False, wa_hop = 0, wa_program = ''app'', wa_host = [], wa_user = ''ann'',
      wa_exe = [], wa_uid = 1000, wa_gid = - 1, wa_pid = 42, wa_key = [], wa_mac = []\<rparr>"

definition sample_record :: wire_record where
  "sample_record =
     \<lparr>wr_schema = 1, wr_time = ''2024-03-01T00:30:00.5+01:00'', wr_level = - 4, wr_msg = [QUOTE, LF, CHR ''m''],
      wr_identity = [sample_attestation], wr_job = [], wr_attrs = [(''b'', ''2''), (''a'', [BSLASH])]\<rparr>"

lemma sample_record_ok:
  "utf8_record sample_record" "map_record sample_record" "writable sample_record"
  by code_simp+

theorem encode_then_decode_witness:
  "\<exists>s. Encode sample_record = Inr s \<and> Decode s = Inr (canonical sample_record)"
proof -
  obtain s where s: "Encode sample_record = Inr s"
    using sample_record_ok(3) by (simp add: Encode_def encRecord_text)
  from encode_then_decode [OF s sample_record_ok(1,2)] s show ?thesis by blast
qed

text \<open>
  The bytes \<^verbatim>\<open>Encode\<close> writes do not depend on the order in which the runtime
  iterates the attribute map.
\<close>

theorem encode_map_order:
  assumes "map_record v" "distinct (map fst m)" "map_of m = map_of (wr_attrs v)"
  shows "Encode (v\<lparr>wr_attrs := m\<rparr>) = Encode v"
proof -
  let ?w = "v\<lparr>wr_attrs := m\<rparr>"
  have s: "sorted_map m = sorted_map (wr_attrs v)"
    by (rule sorted_map_cong) (use assms in \<open>simp_all add: map_record_def\<close>)
  have n: "m = [] \<longleftrightarrow> wr_attrs v = []"
    using assms(3) by (metis map_of_eq_empty_iff)
  have t: "texts (record_members 0 ?w) = texts (record_members 0 v)"
    by (simp add: record_members_def optional_def s n)
  have "writable ?w = writable v" by (simp add: writable_def)
  then show ?thesis
    using Encode_fails [of v] Encode_fails [of ?w] t
    by (cases "writable v") (simp_all add: Encode_def encRecord_text record_text_def)
qed

theorem encode_map_order_witness:
  "Encode (sample_record\<lparr>wr_attrs := [(''a'', [BSLASH]), (''b'', ''2'')]\<rparr>) = Encode sample_record"
  by (rule encode_map_order [OF sample_record_ok(2)]) (simp_all add: sample_record_def fun_upd_twist)

text \<open>
  C11: Reading is total on what it accepts and writing loses nothing: a document
  \<^verbatim>\<open>Decode\<close> accepts (whatever its white space, key order, escapes or unknown members)
  is re-encoded by \<^verbatim>\<open>Encode\<close>, and decoding that gives the same record with its
  timestamp normalized and its attributes in sorted order.
\<close>

theorem decode_encode_decode:
  assumes "Decode s = Inr v"
  shows "\<exists>t. Encode v = Inr t \<and> Decode t = Inr (canonical v) \<and> Encode (canonical v) = Inr t"
proof -
  obtain r r' where "decodeRecord r = Inr (v, r')" using assms by (auto simp: Decode_Inr)
  then have v: "utf8_record v" "map_record v" "writable v" using decodeRecord_sound by blast+
  then show ?thesis using Decode_text Encode_canonical v by (auto simp: Encode_def encRecord_text)
qed

definition sample_document :: string where
  "sample_document = ''{\"time\":\"2024-02-29T23:59:59+01:00\",\"schema\":1,\"msg\":\"a\",\"level\":-4}''"

lemma sample_accepted: "\<exists>v. Decode sample_document = Inr v"
proof -
  have "isl (Decode sample_document) = False" by code_simp
  then show ?thesis by (cases "Decode sample_document") simp_all
qed

theorem decode_encode_decode_witness:
  "\<exists>v t. Decode sample_document = Inr v \<and> Encode v = Inr t \<and> Decode t = Inr (canonical v)"
proof -
  obtain v where v: "Decode sample_document = Inr v" using sample_accepted by blast
  from decode_encode_decode [OF v] v show ?thesis by blast
qed

end
