(* ===== verification/Log_Record.thy ===== *)
theory Log_Record
  imports Wire_Codec
begin

text \<open>
  \<^verbatim>\<open>go/record.go\<close> and the types of \<^verbatim>\<open>go/identity.go\<close>: the provider's record,
  its level names and its one-line JSON encoding.  \<^verbatim>\<open>json.Marshal\<close> is modelled for what
  the source gives it: the struct tags in field order, sorted map keys, Go's string escaping
  with invalid UTF-8 replaced.  The timestamp type belongs to another module; it is the type
  parameter \<open>'t\<close>, and its JSON marshaller (a string, or an error) is the parameter \<open>T\<close>.
\<close>

subsection \<open>Types\<close>

record attestation =
  at_by :: string
  at_verified :: bool
  at_hop :: i64
  at_program :: string
  at_host :: string
  at_user :: string
  at_exe :: string
  at_uid :: i64
  at_gid :: i64
  at_pid :: i64
  at_key :: string
  at_mac :: string

record 't log_record =
  lr_schema :: i64
  lr_time :: 't
  lr_level :: i64
  lr_msg :: string
  lr_identity :: "attestation list"
  lr_job :: string
  lr_attrs :: strings

definition SchemaVersion :: i64 where "SchemaVersion = 1"

subsection \<open>Levels\<close>

definition LevelDebug :: i64 where "LevelDebug = - 4"
definition LevelInfo :: i64 where "LevelInfo = 0"
definition LevelWarn :: i64 where "LevelWarn = 4"
definition LevelError :: i64 where "LevelError = 8"

definition level_name :: "i64 \<Rightarrow> i64 \<Rightarrow> string \<Rightarrow> string" where
  "level_name l base s =
     (if l = base then s
      else if sint l > sint base then s @ ''+'' @ decimal (l - base)
      else s @ ''-'' @ decimal (base - l))"

definition Level_String :: "i64 \<Rightarrow> string" where
  "Level_String l =
     (if sint l < sint LevelInfo then level_name l LevelDebug ''DEBUG''
      else if sint l < sint LevelWarn then level_name l LevelInfo ''INFO''
      else if sint l < sint LevelError then level_name l LevelWarn ''WARN''
      else level_name l LevelError ''ERROR'')"

subsection \<open>JSON strings\<close>

text \<open>
  The rune a string starts with and its width: what \<^verbatim>\<open>utf8.DecodeRune\<close> gives for a lead
  byte of 0x80 or more, \<open>None\<close> for its error of width one.
\<close>

definition decode_rune :: "string \<Rightarrow> (nat \<times> nat) option" where
  "decode_rune s =
     (case s of [] \<Rightarrow> None
      | c # cs \<Rightarrow>
          (case utf8_lead c of
             None \<Rightarrow> None
           | Some (n, cp) \<Rightarrow>
               (let ks = take (n - 1) cs; cp' = foldl (\<lambda>v k. v * 64 + bv k mod 64) cp ks
                in if n \<le> length s \<and> list_all is_cont ks \<and> utf8_scalar n cp'
                   then Some (cp', n) else None)))"

definition json_ascii :: "bool \<Rightarrow> char \<Rightarrow> string" where
  "json_ascii html c =
     (if c = QUOTE \<or> c = BSLASH then [BSLASH, c]
      else if c = CHR 0x08 then [BSLASH, CHR ''b'']
      else if c = CHR 0x0C then [BSLASH, CHR ''f'']
      else if c = LF then [BSLASH, CHR ''n'']
      else if c = CHR 0x0D then [BSLASH, CHR ''r'']
      else if c = CHR 0x09 then [BSLASH, CHR ''t'']
      else if bv c < 0x20 \<or> (html \<and> c \<in> {CHR ''<'', CHR ''>'', CHR ''&''}) then
        [BSLASH, CHR ''u'', CHR ''0'', CHR ''0'', hex_digits ! (bv c div 16), hex_digits ! (bv c mod 16)]
      else [c])"

function json_chars :: "bool \<Rightarrow> string \<Rightarrow> string" where
  "json_chars html [] = []"
| "json_chars html (c # cs) =
     (if bv c < 0x80 then json_ascii html c @ json_chars html cs
      else case decode_rune (c # cs) of
        None \<Rightarrow> [BSLASH] @ ''ufffd'' @ json_chars html cs
      | Some (cp, n) \<Rightarrow>
          (if cp = 0x2028 \<or> cp = 0x2029
           then [BSLASH] @ ''u202'' @ [hex_digits ! (cp mod 16)] @ json_chars html (drop (n - 1) cs)
           else take n (c # cs) @ json_chars html (drop (n - 1) cs)))"
  by pat_completeness auto
termination
  by (relation "measure (\<lambda>(html, s). length s)") auto

declare json_chars.simps [simp del]

definition json_string :: "bool \<Rightarrow> string \<Rightarrow> string" where
  "json_string html s = QUOTE # json_chars html s @ [QUOTE]"

subsection \<open>The record as one line\<close>

fun joined :: "string list \<Rightarrow> string" where
  "joined [] = []"
| "joined [x] = x"
| "joined (x # y # xs) = x @ '','' @ joined (y # xs)"

definition json_field :: "bool \<Rightarrow> string \<Rightarrow> string \<Rightarrow> string" where
  "json_field html k x = json_string html k @ '':'' @ x"

definition json_bool :: "bool \<Rightarrow> string" where
  "json_bool b = (if b then ''true'' else ''false'')"

definition omitempty :: "string \<Rightarrow> string \<Rightarrow> string list" where
  "omitempty k s = (if s = [] then [] else [json_field True k (json_string True s)])"

definition marshal_attestation :: "attestation \<Rightarrow> string" where
  "marshal_attestation a =
     ''{'' @ joined
       ([json_field True ''by'' (json_string True (at_by a)),
         json_field True ''verified'' (json_bool (at_verified a)),
         json_field True ''hop'' (decimal (at_hop a))] @
        omitempty ''program'' (at_program a) @ omitempty ''host'' (at_host a) @
        omitempty ''user'' (at_user a) @ omitempty ''exe'' (at_exe a) @
        [json_field True ''uid'' (decimal (at_uid a)), json_field True ''gid'' (decimal (at_gid a)),
         json_field True ''pid'' (decimal (at_pid a))] @
        omitempty ''key'' (at_key a) @ omitempty ''mac'' (at_mac a)) @ ''}''"

definition marshal_map :: "strings \<Rightarrow> string" where
  "marshal_map m = ''{'' @ joined (map (\<lambda>(k, v). json_field True k (json_string True v)) (sorted_map m)) @ ''}''"

definition marshal_record :: "string \<Rightarrow> 't log_record \<Rightarrow> string" where
  "marshal_record ts r =
     ''{'' @ joined
       ([json_field True ''schema'' (decimal (lr_schema r)),
         json_field True ''time'' (json_string True ts),
         json_field True ''level'' (decimal (lr_level r)),
         json_field True ''msg'' (json_string True (lr_msg r))] @
        (if lr_identity r = [] then []
         else [json_field True ''identity'' (''['' @ joined (map marshal_attestation (lr_identity r)) @ '']'')]) @
        omitempty ''job'' (lr_job r) @
        (if lr_attrs r = [] then [] else [json_field True ''attrs'' (marshal_map (lr_attrs r))])) @ ''}''"

definition Encode_record :: "('t \<Rightarrow> wire_error + string) \<Rightarrow> 't log_record \<Rightarrow> wire_error + string" where
  "Encode_record T r =
     (let r' = (if lr_schema r = 0 then r\<lparr>lr_schema := SchemaVersion\<rparr> else r)
      in case T (lr_time r') of
           Inl e \<Rightarrow> Inl e
         | Inr ts \<Rightarrow> Inr (marshal_record ts r' @ [LF]))"

subsection \<open>Facts about levels\<close>

text \<open>The difference to the landmark never wraps: the landmarks are close to zero.\<close>

lemma sint_diff:
  fixes l base :: i64
  assumes "- (2 ^ 63) \<le> sint l - sint base" "sint l - sint base < 2 ^ 63"
  shows "sint (l - base) = sint l - sint base"
proof -
  have "sint (l - base) = signed_take_bit 63 (sint l - sint base)"
    by (simp add: sint_word_ariths)
  then show ?thesis
    using assms by (simp add: signed_take_bit_int_eq_self)
qed

definition landmark :: "int \<Rightarrow> int \<times> string" where
  "landmark l = (if l < 0 then (- 4, ''DEBUG'') else if l < 4 then (0, ''INFO'')
     else if l < 8 then (4, ''WARN'') else (8, ''ERROR''))"

lemma landmarks [simp]:
  "sint LevelDebug = - 4" "sint LevelInfo = 0" "sint LevelWarn = 4" "sint LevelError = 8"
  by (simp_all add: LevelDebug_def LevelInfo_def LevelWarn_def LevelError_def)

lemma decimal_nonneg:
  assumes "0 \<le> sint n"
  shows "list_all is_digit (decimal n) \<and> int (digits_value 0 (decimal n)) = sint n"
proof (cases "n = 0")
  case True
  then show ?thesis by (simp add: decimal_def num_def is_digit_def bv_def)
next
  case False
  have u: "int (unat n) = sint n" using sint_nonneg_cases [OF assms] assms by simp
  have "decimal n = num_loop n []" using False assms by (simp add: decimal_def num_def)
  moreover have "list_all is_digit (num_loop n [])" "digits_value 0 (num_loop n []) = unat n"
    using num_loop_digits [of n] unfolding list_all_iff by blast+
  ultimately show ?thesis using u by (simp only: simp_thms)
qed

lemma level_name_exact:
  assumes "sint l - sint base < 2 ^ 63" "sint base - sint l < 2 ^ 63"
  shows "\<exists>ds. level_name l base s =
      s @ (if sint l = sint base then [] else (if sint l > sint base then CHR ''+'' else CHR ''-'') # ds)
    \<and> list_all is_digit ds \<and> int (digits_value 0 ds) = \<bar>sint l - sint base\<bar>"
proof (cases "sint base < sint l")
  case True
  then have d: "sint (l - base) = sint l - sint base" using assms by (intro sint_diff) simp_all
  have "l \<noteq> base" using True by auto
  then show ?thesis
    using True decimal_nonneg [of "l - base"] d
    by (intro exI [of _ "decimal (l - base)"]) (simp add: level_name_def)
next
  case False
  then have d: "sint (base - l) = sint base - sint l" using assms by (intro sint_diff) simp_all
  have "l = base \<longleftrightarrow> sint l = sint base" using signed_word_eqI by auto
  then show ?thesis
    using False decimal_nonneg [of "base - l"] d
    by (intro exI [of _ "decimal (base - l)"]) (auto simp: level_name_def)
qed

subsection \<open>Properties of levels\<close>

text \<open>
  A level is spelled as the nearest landmark below it (DEBUG under all of them) and, unless
  it is the landmark, a sign and the exact decimal distance; no level of the 64-bit range
  wraps.
\<close>

theorem level_string_exact:
  "let d = sint l - fst (landmark (sint l)) in
   \<exists>ds. Level_String l = snd (landmark (sint l)) @ (if d = 0 then [] else (if d > 0 then CHR ''+'' else CHR ''-'') # ds)
     \<and> list_all is_digit ds \<and> int (digits_value 0 ds) = \<bar>d\<bar>"
proof -
  have b: "- (2 ^ 63) \<le> sint l" "sint l < 2 ^ 63"
    using sint_greater_eq [of l] sint_less [of l] by simp_all
  consider "sint l < 0" | "0 \<le> sint l" "sint l < 4" | "4 \<le> sint l" "sint l < 8" | "8 \<le> sint l" by linarith
  then show ?thesis
  proof cases
    case 1
    then show ?thesis
      using level_name_exact [of l LevelDebug "''DEBUG''", unfolded landmarks] b
      by (auto simp: Level_String_def landmark_def Let_def)
  next
    case 2
    then show ?thesis
      using level_name_exact [of l LevelInfo "''INFO''", unfolded landmarks] b
      by (auto simp: Level_String_def landmark_def Let_def)
  next
    case 3
    then show ?thesis
      using level_name_exact [of l LevelWarn "''WARN''", unfolded landmarks] b
      by (auto simp: Level_String_def landmark_def Let_def)
  next
    case 4
    then show ?thesis
      using level_name_exact [of l LevelError "''ERROR''", unfolded landmarks] b
      by (auto simp: Level_String_def landmark_def Let_def)
  qed
qed

end
