(* ===== verification/Provenance.thy ===== *)
theory Provenance
  imports Log_Record
begin

text \<open>
  \<^verbatim>\<open>go/identity.go\<close> and \<^verbatim>\<open>Server.Accept\<close> of \<^verbatim>\<open>go/service.go\<close>: the
  chain of attestations, what each hop is worth to an assessor, and the binding of a stamp to
  its record.  The keyed hash of the standard library is the parameter \<open>H\<close> (key, bytes); the
  properties hold for every one.  \<open>T\<close> is the timestamp's marshaller, as in \<open>Log_Record\<close>.
\<close>

subsection \<open>Attestations\<close>

definition Unknown :: i64 where "Unknown = - 1"
definition BySelf :: string where "BySelf = ''self''"
definition ByUnclaimed :: string where "ByUnclaimed = ''unclaimed''"
definition AttrWriterClaim :: string where "AttrWriterClaim = ''logging.writer_claim''"

definition no_attestation :: attestation where
  "no_attestation =
     \<lparr>at_by = [], at_verified = False, at_hop = 0, at_program = [], at_host = [], at_user = [],
      at_exe = [], at_uid = 0, at_gid = 0, at_pid = 0, at_key = [], at_mac = []\<rparr>"

definition Unclaimed :: attestation where
  "Unclaimed = no_attestation\<lparr>at_by := ByUnclaimed, at_uid := Unknown, at_gid := Unknown, at_pid := Unknown\<rparr>"

text \<open>The host name and the process chain are what the operating system answers.\<close>

definition Claim :: "string \<Rightarrow> i64 \<Rightarrow> string \<Rightarrow> attestation" where
  "Claim host pid program =
     no_attestation\<lparr>at_by := BySelf, at_program := program, at_host := host,
       at_uid := Unknown, at_gid := Unknown, at_pid := pid\<rparr>"

definition Identity_Claimed :: "attestation list \<Rightarrow> attestation option" where
  "Identity_Claimed chain = List.find (\<lambda>a. at_by a = BySelf \<and> at_hop a = 0) chain"

definition Identity_By :: "attestation list \<Rightarrow> string \<Rightarrow> attestation option" where
  "Identity_By chain mechanism = List.find (\<lambda>a. at_by a = mechanism) chain"

subsection \<open>The bytes a stamp is bound to\<close>

text \<open>
  The record rendered, read into untyped values and rendered again: keys sorted at every
  level, no HTML escaping, strings as they read back (invalid UTF-8 replaced by U+FFFD, so two
  attribute keys may become one, the later winning).
\<close>

function sanitize :: "string \<Rightarrow> string" where
  "sanitize [] = []"
| "sanitize (c # cs) =
     (if bv c < 0x80 then c # sanitize cs
      else case decode_rune (c # cs) of
        None \<Rightarrow> appendRune [] 0xFFFD @ sanitize cs
      | Some (cp, n) \<Rightarrow> take n (c # cs) @ sanitize (drop (n - 1) cs))"
  by pat_completeness auto
termination
  by (relation "measure length") auto

definition canon_string :: "string \<Rightarrow> string" where
  "canon_string s = json_string False (sanitize s)"

definition canon_optional :: "string \<Rightarrow> string \<Rightarrow> string list" where
  "canon_optional k s = (if s = [] then [] else [json_field False k (canon_string s)])"

definition canon_attestation :: "attestation \<Rightarrow> string" where
  "canon_attestation a =
     ''{'' @ joined
       ([json_field False ''by'' (canon_string (at_by a))] @ canon_optional ''exe'' (at_exe a) @
        [json_field False ''gid'' (decimal (at_gid a)), json_field False ''hop'' (decimal (at_hop a))] @
        canon_optional ''host'' (at_host a) @ canon_optional ''key'' (at_key a) @
        canon_optional ''mac'' (at_mac a) @ [json_field False ''pid'' (decimal (at_pid a))] @
        canon_optional ''program'' (at_program a) @ [json_field False ''uid'' (decimal (at_uid a))] @
        canon_optional ''user'' (at_user a) @ [json_field False ''verified'' (json_bool (at_verified a))]) @ ''}''"

definition canon_map :: "strings \<Rightarrow> strings" where
  "canon_map m = sorted_map (foldl (\<lambda>acc (k, v). AList.update (sanitize k) (sanitize v) acc) [] (sorted_map m))"

definition canon_record :: "string \<Rightarrow> 't log_record \<Rightarrow> string" where
  "canon_record ts r =
     ''{'' @ joined
       ((if lr_attrs r = [] then [] else
           [json_field False ''attrs'' (''{'' @ joined (map (\<lambda>(k, v). json_field False k (json_string False v))
              (canon_map (lr_attrs r))) @ ''}'')]) @
        (if lr_identity r = [] then [] else
           [json_field False ''identity'' (''['' @ joined (map canon_attestation (lr_identity r)) @ '']'')]) @
        canon_optional ''job'' (lr_job r) @
        [json_field False ''level'' (decimal (lr_level r)), json_field False ''msg'' (canon_string (lr_msg r)),
         json_field False ''schema'' (decimal (lr_schema r)), json_field False ''time'' (canon_string ts)]) @ ''}''"

definition bound :: "('t \<Rightarrow> wire_error + string) \<Rightarrow> 't log_record \<Rightarrow> nat \<Rightarrow> wire_error + string" where
  "bound T r hop =
     (if hop \<ge> length (lr_identity r) then Inl (Panic ''index out of range'')
      else
        let r1 = (if lr_schema r = 0 then r\<lparr>lr_schema := SchemaVersion\<rparr> else r);
            chain = take (hop + 1) (lr_identity r1);
            r2 = r1\<lparr>lr_identity := chain[hop := (chain ! hop)\<lparr>at_mac := []\<rparr>]\<rparr>
        in case T (lr_time r2) of Inl e \<Rightarrow> Inl e | Inr ts \<Rightarrow> Inr (canon_record ts r2))"

definition hex_encode :: "string \<Rightarrow> string" where
  "hex_encode s = concat (map (\<lambda>c. [hex_digits ! (bv c div 16), hex_digits ! (bv c mod 16)]) s)"

definition mac :: "(string \<Rightarrow> string \<Rightarrow> string) \<Rightarrow> string \<Rightarrow> string \<Rightarrow> string" where
  "mac H b key = hex_encode (H key b)"

text \<open>\<^verbatim>\<open>Bind\<close> changes its record in place; on an error the cleared stamp stays.\<close>

definition Bind ::
  "('t \<Rightarrow> wire_error + string) \<Rightarrow> (string \<Rightarrow> string \<Rightarrow> string) \<Rightarrow> 't log_record \<Rightarrow> nat \<Rightarrow> string \<Rightarrow> string
    \<Rightarrow> 't log_record \<times> wire_error option" where
  "Bind T H r hop keyID key =
     (if hop \<ge> length (lr_identity r) then (r, Some (Panic ''index out of range''))
      else
        let chain = lr_identity r;
            r1 = r\<lparr>lr_identity := chain[hop := (chain ! hop)\<lparr>at_key := keyID, at_mac := []\<rparr>]\<rparr>
        in case bound T r1 hop of
             Inl e \<Rightarrow> (r1, Some e)
           | Inr b \<Rightarrow>
               (r1\<lparr>lr_identity := (lr_identity r1)[hop := (lr_identity r1 ! hop)\<lparr>at_mac := mac H b key\<rparr>]\<rparr>, None))"

definition bindingHolds ::
  "('t \<Rightarrow> wire_error + string) \<Rightarrow> (string \<Rightarrow> string \<Rightarrow> string) \<Rightarrow> 't log_record \<Rightarrow> nat \<Rightarrow> string \<Rightarrow> bool" where
  "bindingHolds T H r hop key =
     (case bound T r hop of
        Inl e \<Rightarrow> False
      | Inr b \<Rightarrow> mac H b key = at_mac (lr_identity r ! hop))"

subsection \<open>Standing\<close>

datatype standing = Claimed | Asserted | Vouched | Established

fun rank :: "standing \<Rightarrow> nat" where
  "rank Claimed = 0"
| "rank Asserted = 1"
| "rank Vouched = 2"
| "rank Established = 3"

instantiation standing :: linorder
begin

definition less_eq_standing :: "standing \<Rightarrow> standing \<Rightarrow> bool" where
  "less_eq_standing a b \<longleftrightarrow> rank a \<le> rank b"

definition less_standing :: "standing \<Rightarrow> standing \<Rightarrow> bool" where
  "less_standing a b \<longleftrightarrow> rank a < rank b"

instance
proof
  fix a b :: standing
  show "a \<le> b \<Longrightarrow> b \<le> a \<Longrightarrow> a = b"
    by (cases a; cases b) (simp_all add: less_eq_standing_def)
qed (auto simp: less_eq_standing_def less_standing_def)

end

lemma standing_le [simp]:
  "Vouched \<le> s \<longleftrightarrow> s = Vouched \<or> s = Established" "s \<le> Asserted \<longleftrightarrow> s = Claimed \<or> s = Asserted"
  by (cases s; simp add: less_eq_standing_def)+

definition Standing_String :: "standing \<Rightarrow> string" where
  "Standing_String s =
     (case s of Asserted \<Rightarrow> ''asserted'' | Vouched \<Rightarrow> ''vouched'' | Established \<Rightarrow> ''established''
      | Claimed \<Rightarrow> ''claimed'')"

record policy =
  po_relay :: "(attestation \<Rightarrow> bool) option"
  po_keys :: "string \<rightharpoonup> string"

record provenance =
  pv_chain :: "attestation list"
  pv_standing :: "standing list"

definition sameStamp :: "attestation \<Rightarrow> attestation \<Rightarrow> bool" where
  "sameStamp a b \<longleftrightarrow>
     a\<lparr>at_hop := 0, at_key := [], at_mac := []\<rparr> = b\<lparr>at_hop := 0, at_key := [], at_mac := []\<rparr>"

text \<open>
  One turn of the loop: \<open>upper\<close> are the standings of the hops above \<open>k\<close>, nearest first.
\<close>

definition hop_standing ::
  "('t \<Rightarrow> wire_error + string) \<Rightarrow> (string \<Rightarrow> string \<Rightarrow> string) \<Rightarrow> 't log_record \<Rightarrow> attestation option
    \<Rightarrow> policy \<Rightarrow> nat \<Rightarrow> standing list \<Rightarrow> standing" where
  "hop_standing T H r anchor p k upper =
     (let chain = lr_identity r; n = length chain; a = chain ! k in
      if at_by a = BySelf \<and> at_verified a then Asserted
      else if at_by a = BySelf \<or> \<not> at_verified a then Claimed
      else if k = n - 1 \<and> (case anchor of None \<Rightarrow> False | Some s \<Rightarrow> sameStamp a s) then Established
      else if at_mac a \<noteq> [] \<and> (case po_keys p (at_key a) of None \<Rightarrow> False | Some key \<Rightarrow> bindingHolds T H r k key)
        then Vouched
      else if k + 1 < n \<and> Vouched \<le> hd upper
          \<and> (case po_relay p of None \<Rightarrow> False | Some relay \<Rightarrow> relay (chain ! (k + 1))) then Vouched
      else Asserted)"

fun assess_loop ::
  "('t \<Rightarrow> wire_error + string) \<Rightarrow> (string \<Rightarrow> string \<Rightarrow> string) \<Rightarrow> 't log_record \<Rightarrow> attestation option
    \<Rightarrow> policy \<Rightarrow> nat \<Rightarrow> standing list \<Rightarrow> standing list" where
  "assess_loop T H r anchor p 0 st = st"
| "assess_loop T H r anchor p (Suc k) st =
     assess_loop T H r anchor p k (hop_standing T H r anchor p k st # st)"

definition Assess ::
  "('t \<Rightarrow> wire_error + string) \<Rightarrow> (string \<Rightarrow> string \<Rightarrow> string) \<Rightarrow> 't log_record \<Rightarrow> attestation option
    \<Rightarrow> policy \<Rightarrow> provenance" where
  "Assess T H r anchor p =
     \<lparr>pv_chain = lr_identity r, pv_standing = assess_loop T H r anchor p (length (lr_identity r)) []\<rparr>"

definition Author :: "provenance \<Rightarrow> attestation option" where
  "Author pv =
     (if length (pv_chain pv) > 1 \<and> Vouched \<le> pv_standing pv ! 1 then Some (pv_chain pv ! 1) else None)"

definition Relay :: "provenance \<Rightarrow> attestation option" where
  "Relay pv =
     (let n = length (pv_chain pv) in
      if n > 0 \<and> pv_standing pv ! (n - 1) = Established then Some (pv_chain pv ! (n - 1)) else None)"

definition Disputed :: "provenance \<Rightarrow> bool" where
  "Disputed pv =
     (case Identity_Claimed (pv_chain pv) of
        None \<Rightarrow> False
      | Some claim \<Rightarrow>
          (case Author pv of
             None \<Rightarrow> False
           | Some about \<Rightarrow>
               (if at_host about \<noteq> [] \<and> at_host claim \<noteq> [] \<and> at_host about \<noteq> at_host claim then True
                else at_pid about \<noteq> Unknown \<and> at_pid claim \<noteq> Unknown \<and> at_pid about \<noteq> at_pid claim)))"

subsection \<open>What a receiving service does to a record\<close>

record server =
  sv_keyid :: string
  sv_key :: "string option"

definition Accept ::
  "('t \<Rightarrow> wire_error + string) \<Rightarrow> (string \<Rightarrow> string \<Rightarrow> string) \<Rightarrow> server \<Rightarrow> 't log_record \<Rightarrow> attestation
    \<Rightarrow> string option \<Rightarrow> 't log_record" where
  "Accept T H s rec peer perr =
     (let attrs = lr_attrs rec;
          (chain, attrs) = (if lr_identity rec = []
             then ([Unclaimed], AList.update AttrWriterClaim ''absent'' attrs)
             else (lr_identity rec, attrs));
          attrs = (case perr of None \<Rightarrow> attrs | Some e \<Rightarrow> AList.update ''logging.peer_error'' e attrs);
          rec1 = rec\<lparr>lr_identity := chain, lr_attrs := (if attrs \<noteq> [] then attrs else lr_attrs rec)\<rparr>
      in if perr \<noteq> None then rec1
         else
           let stamp = peer\<lparr>at_hop := of_nat (length chain)\<rparr>;
               rec2 = rec1\<lparr>lr_identity := chain @ [stamp]\<rparr>
           in case sv_key s of
                None \<Rightarrow> rec2
              | Some key \<Rightarrow> fst (Bind T H rec2 (length chain) (sv_keyid s) key))"

subsection \<open>Separation\<close>

datatype separation = SeparationNone | SeparationOwner | SeparationPeer

definition Separation_String :: "separation \<Rightarrow> string" where
  "Separation_String s = (case s of SeparationOwner \<Rightarrow> ''owner'' | SeparationPeer \<Rightarrow> ''peer'' | SeparationNone \<Rightarrow> ''none'')"

text \<open>
  What a file enforces, from the permission bits the filesystem reports (\<open>None\<close> when it cannot
  be asked), on a Unix system and on Windows.
\<close>

definition FileSink_Separation :: "32 word option \<Rightarrow> separation" where
  "FileSink_Separation perm =
     (case perm of
        None \<Rightarrow> SeparationNone
      | Some m \<Rightarrow> (if m AND 0x12 \<noteq> 0 then SeparationNone else SeparationOwner))"

definition FileSink_Separation_windows :: separation where
  "FileSink_Separation_windows = SeparationNone"

definition SeparationOf :: "(unit \<Rightarrow> separation) option \<Rightarrow> separation" where
  "SeparationOf s = (case s of Some sep \<Rightarrow> sep () | None \<Rightarrow> SeparationNone)"

subsection \<open>The loop hop by hop\<close>

lemma length_assess_loop: "length (assess_loop T H r anchor p k st) = k + length st"
  by (induction k arbitrary: st) simp_all

lemma assess_loop_keeps: "drop k (assess_loop T H r anchor p k st) = st"
proof (induction k arbitrary: st)
  case (Suc k)
  let ?s = "hop_standing T H r anchor p k st"
  have "drop (Suc k) (assess_loop T H r anchor p k (?s # st)) = tl (drop k (assess_loop T H r anchor p k (?s # st)))"
    by (simp add: drop_Suc tl_drop)
  then show ?case using Suc.IH [of "?s # st"] by simp
qed simp

lemma assess_loop_nth:
  "j < k \<Longrightarrow> assess_loop T H r anchor p k st ! j =
     hop_standing T H r anchor p j (drop (Suc j) (assess_loop T H r anchor p k st))"
proof (induction k arbitrary: st)
  case (Suc k)
  let ?s = "hop_standing T H r anchor p k st"
  let ?l = "assess_loop T H r anchor p k (?s # st)"
  have d: "drop k ?l = ?s # st" by (rule assess_loop_keeps)
  show ?case
  proof (cases "j < k")
    case True
    then show ?thesis using Suc.IH [of "?s # st"] by simp
  next
    case False
    then have j: "j = k" using Suc.prems by simp
    have "?l ! k = ?s" using d by (metis hd_drop_conv_nth length_assess_loop less_add_same_cancel1
          list.sel(1) length_Cons zero_less_Suc)
    moreover have "drop (Suc k) ?l = st" using d by (metis drop_Suc drop_tl list.sel(3))
    ultimately show ?thesis using j by simp
  qed
qed simp

definition standings ::
  "('t \<Rightarrow> wire_error + string) \<Rightarrow> (string \<Rightarrow> string \<Rightarrow> string) \<Rightarrow> 't log_record \<Rightarrow> attestation option
    \<Rightarrow> policy \<Rightarrow> standing list" where
  "standings T H r anchor p = pv_standing (Assess T H r anchor p)"

lemma length_standings [simp]: "length (standings T H r anchor p) = length (lr_identity r)"
  by (simp add: standings_def Assess_def length_assess_loop)

lemma standings_nth:
  "k < length (lr_identity r) \<Longrightarrow>
    standings T H r anchor p ! k = hop_standing T H r anchor p k (drop (Suc k) (standings T H r anchor p))"
  by (simp add: standings_def Assess_def assess_loop_nth)

subsection \<open>What standing means\<close>

text \<open>
  The specification: a hop is trusted when it asserts verification and is the assessor's own
  stamp, is bound under a key the policy holds, or is described by a trusted hop above it that
  the policy lets relay.
\<close>

definition asserts :: "attestation \<Rightarrow> bool" where
  "asserts a \<longleftrightarrow> at_by a \<noteq> BySelf \<and> at_verified a"

inductive trusted ::
  "('t \<Rightarrow> wire_error + string) \<Rightarrow> (string \<Rightarrow> string \<Rightarrow> string) \<Rightarrow> 't log_record \<Rightarrow> attestation option
    \<Rightarrow> policy \<Rightarrow> nat \<Rightarrow> bool"
  for T H r anchor p where
  own: "k + 1 = length (lr_identity r) \<Longrightarrow> asserts (lr_identity r ! k) \<Longrightarrow> anchor = Some s \<Longrightarrow>
    sameStamp (lr_identity r ! k) s \<Longrightarrow> trusted T H r anchor p k"
| keyed: "k < length (lr_identity r) \<Longrightarrow> asserts (lr_identity r ! k) \<Longrightarrow> at_mac (lr_identity r ! k) \<noteq> [] \<Longrightarrow>
    po_keys p (at_key (lr_identity r ! k)) = Some key \<Longrightarrow> bindingHolds T H r k key \<Longrightarrow> trusted T H r anchor p k"
| relayed: "trusted T H r anchor p (k + 1) \<Longrightarrow> asserts (lr_identity r ! k) \<Longrightarrow> po_relay p = Some relay \<Longrightarrow>
    relay (lr_identity r ! (k + 1)) \<Longrightarrow> trusted T H r anchor p k"

inductive_cases trustedE: "trusted T H r anchor p k"

lemma trusted_in_chain: "trusted T H r anchor p k \<Longrightarrow> k < length (lr_identity r)"
  by (induction rule: trusted.induct) simp_all

text \<open>The three grounds a hop can stand on, and the switch in terms of them.\<close>

definition own_stamp :: "'t log_record \<Rightarrow> attestation option \<Rightarrow> nat \<Rightarrow> bool" where
  "own_stamp r anchor k \<longleftrightarrow>
     k + 1 = length (lr_identity r) \<and> (\<exists>s. anchor = Some s \<and> sameStamp (lr_identity r ! k) s)"

definition key_bound ::
  "('t \<Rightarrow> wire_error + string) \<Rightarrow> (string \<Rightarrow> string \<Rightarrow> string) \<Rightarrow> 't log_record \<Rightarrow> policy \<Rightarrow> nat \<Rightarrow> bool" where
  "key_bound T H r p k \<longleftrightarrow>
     at_mac (lr_identity r ! k) \<noteq> [] \<and>
     (\<exists>key. po_keys p (at_key (lr_identity r ! k)) = Some key \<and> bindingHolds T H r k key)"

definition may_relay :: "'t log_record \<Rightarrow> policy \<Rightarrow> nat \<Rightarrow> bool" where
  "may_relay r p k \<longleftrightarrow>
     k + 1 < length (lr_identity r) \<and> (\<exists>relay. po_relay p = Some relay \<and> relay (lr_identity r ! (k + 1)))"

lemma standing_eq:
  assumes "k < length (lr_identity r)"
  shows "standings T H r anchor p ! k =
    (let a = lr_identity r ! k in
     if \<not> asserts a then (if at_verified a then Asserted else Claimed)
     else if own_stamp r anchor k then Established
     else if key_bound T H r p k \<or> (may_relay r p k \<and> Vouched \<le> standings T H r anchor p ! (k + 1)) then Vouched
     else Asserted)"
proof -
  have h: "Suc k < length (lr_identity r) \<Longrightarrow>
      hd (drop (Suc k) (standings T H r anchor p)) = standings T H r anchor p ! (Suc k)"
    by (simp add: hd_drop_conv_nth)
  have o: "(k = length (lr_identity r) - 1 \<and> (case anchor of None \<Rightarrow> False | Some s \<Rightarrow> sameStamp (lr_identity r ! k) s))
      \<longleftrightarrow> own_stamp r anchor k"
    using assms by (auto simp: own_stamp_def split: option.splits)
  have b: "(at_mac (lr_identity r ! k) \<noteq> [] \<and> (case po_keys p (at_key (lr_identity r ! k)) of None \<Rightarrow> False
      | Some key \<Rightarrow> bindingHolds T H r k key)) \<longleftrightarrow> key_bound T H r p k"
    by (simp add: key_bound_def split: option.split)
  have m: "(k + 1 < length (lr_identity r) \<and> Vouched \<le> hd (drop (Suc k) (standings T H r anchor p))
        \<and> (case po_relay p of None \<Rightarrow> False | Some relay \<Rightarrow> relay (lr_identity r ! (k + 1))))
      \<longleftrightarrow> may_relay r p k \<and> Vouched \<le> standings T H r anchor p ! (k + 1)"
    using h by (auto simp: may_relay_def split: option.splits)
  show ?thesis
    unfolding standings_nth [OF assms] hop_standing_def Let_def o b m asserts_def by (auto simp del: standing_le)
qed

lemma established_iff:
  assumes "k < length (lr_identity r)"
  shows "standings T H r anchor p ! k = Established \<longleftrightarrow> asserts (lr_identity r ! k) \<and> own_stamp r anchor k"
  unfolding standing_eq [OF assms] by (simp add: Let_def)

lemma vouched_step:
  assumes "k < length (lr_identity r)"
  shows "Vouched \<le> standings T H r anchor p ! k \<longleftrightarrow>
    asserts (lr_identity r ! k) \<and> (own_stamp r anchor k \<or> key_bound T H r p k
      \<or> (may_relay r p k \<and> Vouched \<le> standings T H r anchor p ! (k + 1)))"
  unfolding standing_eq [OF assms] Let_def by (simp del: standing_le add: less_eq_standing_def)

lemma trusted_step:
  assumes "k < length (lr_identity r)"
  shows "trusted T H r anchor p k \<longleftrightarrow>
    asserts (lr_identity r ! k) \<and> (own_stamp r anchor k \<or> key_bound T H r p k
      \<or> (may_relay r p k \<and> trusted T H r anchor p (k + 1)))"
proof
  assume "trusted T H r anchor p k"
  then show "asserts (lr_identity r ! k) \<and> (own_stamp r anchor k \<or> key_bound T H r p k
      \<or> (may_relay r p k \<and> trusted T H r anchor p (k + 1)))"
  proof (cases rule: trusted.cases)
    case (own s)
    then show ?thesis by (simp add: own_stamp_def)
  next
    case (keyed key)
    then show ?thesis by (auto simp: key_bound_def)
  next
    case (relayed relay)
    then show ?thesis using trusted_in_chain [of T H r anchor p "k + 1"] by (auto simp: may_relay_def)
  qed
next
  assume g: "asserts (lr_identity r ! k) \<and> (own_stamp r anchor k \<or> key_bound T H r p k
      \<or> (may_relay r p k \<and> trusted T H r anchor p (k + 1)))"
  then consider (own) s where "k + 1 = length (lr_identity r)" "anchor = Some s" "sameStamp (lr_identity r ! k) s"
    | (key) key where "at_mac (lr_identity r ! k) \<noteq> []" "po_keys p (at_key (lr_identity r ! k)) = Some key"
        "bindingHolds T H r k key"
    | (relay) relay where "trusted T H r anchor p (k + 1)" "po_relay p = Some relay" "relay (lr_identity r ! (k + 1))"
    unfolding own_stamp_def key_bound_def may_relay_def by blast
  then show "trusted T H r anchor p k"
    by cases (use assms g in \<open>auto intro: trusted.intros\<close>)
qed

lemma vouched_trusted:
  "k < length (lr_identity r) \<Longrightarrow> Vouched \<le> standings T H r anchor p ! k \<longleftrightarrow> trusted T H r anchor p k"
proof (induction "length (lr_identity r) - k" arbitrary: k)
  case (Suc d)
  have "Vouched \<le> standings T H r anchor p ! (k + 1) \<longleftrightarrow> trusted T H r anchor p (k + 1)" if "may_relay r p k"
    using Suc.hyps(1) [of "k + 1"] Suc.hyps(2) that by (simp add: may_relay_def)
  then show ?case
    unfolding vouched_step [OF Suc.prems] trusted_step [OF Suc.prems] by blast
qed simp

subsection \<open>Bindings\<close>

definition with_schema :: "'t log_record \<Rightarrow> 't log_record" where
  "with_schema r = (if lr_schema r = 0 then r\<lparr>lr_schema := SchemaVersion\<rparr> else r)"

definition cut_chain :: "attestation list \<Rightarrow> nat \<Rightarrow> attestation list" where
  "cut_chain chain hop = (take (hop + 1) chain)[hop := (chain ! hop)\<lparr>at_mac := []\<rparr>]"

lemma bound_eq:
  assumes "hop < length (lr_identity r)"
  shows "bound T r hop = (case T (lr_time r) of Inl e \<Rightarrow> Inl e
    | Inr ts \<Rightarrow> Inr (canon_record ts ((with_schema r)\<lparr>lr_identity := cut_chain (lr_identity r) hop\<rparr>)))"
  using assms by (cases "T (lr_time r)") (simp_all add: bound_def Let_def with_schema_def cut_chain_def)

lemma cut_chain_take:
  assumes "take (hop + 1) c = take (hop + 1) d" "hop < length c" "hop < length d"
  shows "cut_chain c hop = cut_chain d hop"
proof -
  have "c ! hop = d ! hop" using assms(1) by (metis lessI nth_take Suc_eq_plus1)
  then show ?thesis using assms(1) by (simp add: cut_chain_def)
qed

lemma cut_chain_update:
  "hop < length c \<Longrightarrow> cut_chain (c[hop := (c ! hop)\<lparr>at_mac := m\<rparr>]) hop = cut_chain c hop"
  by (simp add: cut_chain_def take_update_swap)

text \<open>
  A stamp that was bound holds on every record with the same fields whose chain agrees up to
  the stamp: later hops cannot break it.
\<close>

lemma bind_holds:
  assumes b: "Bind T H r hop keyID key = (r', None)"
    and c: "take (hop + 1) chain = take (hop + 1) (lr_identity r')"
  shows "bindingHolds T H (r'\<lparr>lr_identity := chain\<rparr>) hop key"
proof -
  define r1 where "r1 = r\<lparr>lr_identity := (lr_identity r)[hop := (lr_identity r ! hop)\<lparr>at_key := keyID, at_mac := []\<rparr>]\<rparr>"
  have h: "hop < length (lr_identity r)" using b by (auto simp: Bind_def split: if_splits)
  then have h1: "hop < length (lr_identity r1)" by (simp add: r1_def)
  obtain x where x: "bound T r1 hop = Inr x"
    and r': "r' = r1\<lparr>lr_identity := (lr_identity r1)[hop := (lr_identity r1 ! hop)\<lparr>at_mac := mac H x key\<rparr>]\<rparr>"
    using b h by (auto simp: Bind_def Let_def r1_def [symmetric] split: sum.splits)
  have h': "hop < length (lr_identity r')" using h1 by (simp add: r')
  have hc: "hop < length chain" using c h' by (metis length_take min_less_iff_conj lessI Suc_eq_plus1)
  have "chain ! hop = lr_identity r' ! hop" using c by (metis lessI nth_take Suc_eq_plus1)
  then have m: "at_mac (chain ! hop) = mac H x key" using h1 by (simp add: r')
  have "cut_chain chain hop = cut_chain (lr_identity r1) hop"
    using cut_chain_take [OF c hc h'] cut_chain_update [OF h1] by (simp add: r')
  then have "bound T (r'\<lparr>lr_identity := chain\<rparr>) hop = bound T r1 hop"
    using hc h1 by (cases "T (lr_time r1)") (simp_all add: bound_eq r' with_schema_def)
  then show ?thesis using x m by (simp add: bindingHolds_def)
qed

subsection \<open>What the service appends\<close>

definition claimed_chain :: "'t log_record \<Rightarrow> attestation list" where
  "claimed_chain rec = (if lr_identity rec = [] then [Unclaimed] else lr_identity rec)"

definition bare_stamp :: "'t log_record \<Rightarrow> attestation \<Rightarrow> attestation" where
  "bare_stamp rec peer = peer\<lparr>at_hop := of_nat (length (claimed_chain rec))\<rparr>"

lemma Bind_last:
  assumes "lr_identity r = chain @ [a]"
  shows "\<exists>m. fst (Bind T H r (length chain) keyID key) = r\<lparr>lr_identity := chain @ [a\<lparr>at_key := keyID, at_mac := m\<rparr>]\<rparr>"
  using assms by (auto simp: Bind_def Let_def split: sum.split)

lemma sameStamp_simps [simp]:
  "sameStamp a a" "sameStamp (a\<lparr>at_key := k, at_mac := m\<rparr>) b = sameStamp a b"
  "sameStamp (a\<lparr>at_hop := h\<rparr>) b = sameStamp a b"
  by (simp_all add: sameStamp_def)

lemma Accept_shape:
  "\<exists>stamp attrs. Accept T H s rec peer perr =
      rec\<lparr>lr_identity := claimed_chain rec @ (case perr of None \<Rightarrow> [stamp] | Some _ \<Rightarrow> []), lr_attrs := attrs\<rparr>
    \<and> sameStamp stamp peer \<and> at_hop stamp = of_nat (length (claimed_chain rec))
    \<and> (case sv_key s of None \<Rightarrow> stamp = bare_stamp rec peer | Some _ \<Rightarrow> at_key stamp = sv_keyid s)
    \<and> map_of attrs = (map_of (lr_attrs rec))
        (AttrWriterClaim := (if lr_identity rec = [] then Some ''absent'' else map_of (lr_attrs rec) AttrWriterClaim),
         ''logging.peer_error'' := (case perr of None \<Rightarrow> map_of (lr_attrs rec) ''logging.peer_error'' | Some e \<Rightarrow> Some e))"
proof -
  define attrs where "attrs = (let a = (if lr_identity rec = [] then AList.update AttrWriterClaim ''absent'' (lr_attrs rec)
      else lr_attrs rec) in case perr of None \<Rightarrow> a | Some e \<Rightarrow> AList.update ''logging.peer_error'' e a)"
  define attrs' where "attrs' = (if attrs \<noteq> [] then attrs else lr_attrs rec)"
  define rec1 where "rec1 = rec\<lparr>lr_identity := claimed_chain rec, lr_attrs := attrs'\<rparr>"
  define rec2 where "rec2 = rec1\<lparr>lr_identity := claimed_chain rec @ [bare_stamp rec peer]\<rparr>"
  have ne: "AttrWriterClaim \<noteq> ''logging.peer_error''" by (simp add: AttrWriterClaim_def)
  have upd: "AList.update k v m \<noteq> []" for k v and m :: strings by (cases m) auto
  have "attrs = [] \<Longrightarrow> lr_attrs rec = []"
    using upd by (auto simp: attrs_def Let_def split: if_splits option.splits)
  then have a': "map_of attrs' = map_of attrs" by (auto simp: attrs'_def)
  have m: "map_of attrs' = (map_of (lr_attrs rec))
        (AttrWriterClaim := (if lr_identity rec = [] then Some ''absent'' else map_of (lr_attrs rec) AttrWriterClaim),
         ''logging.peer_error'' := (case perr of None \<Rightarrow> map_of (lr_attrs rec) ''logging.peer_error'' | Some e \<Rightarrow> Some e))"
    unfolding a' using ne by (auto simp: attrs_def Let_def update_conv fun_eq_iff split: option.split)
  have acc: "Accept T H s rec peer perr = (if perr \<noteq> None then rec1
      else case sv_key s of None \<Rightarrow> rec2 | Some key \<Rightarrow> fst (Bind T H rec2 (length (claimed_chain rec)) (sv_keyid s) key))"
    unfolding Accept_def rec2_def rec1_def attrs'_def attrs_def claimed_chain_def bare_stamp_def Let_def
    by (cases "lr_identity rec = []") simp_all
  obtain mc where b: "fst (Bind T H rec2 (length (claimed_chain rec)) (sv_keyid s) (the (sv_key s)))
      = rec2\<lparr>lr_identity := claimed_chain rec @ [(bare_stamp rec peer)\<lparr>at_key := sv_keyid s, at_mac := mc\<rparr>]\<rparr>"
    using Bind_last [of rec2 "claimed_chain rec" "bare_stamp rec peer" T H "sv_keyid s" "the (sv_key s)"]
    by (auto simp: rec2_def)
  define stamp where "stamp = (if sv_key s = None then bare_stamp rec peer
      else (bare_stamp rec peer)\<lparr>at_key := sv_keyid s, at_mac := mc\<rparr>)"
  have "Accept T H s rec peer perr =
      rec\<lparr>lr_identity := claimed_chain rec @ (case perr of None \<Rightarrow> [stamp] | Some _ \<Rightarrow> []), lr_attrs := attrs'\<rparr>"
    unfolding acc stamp_def using b
    by (cases perr; cases "sv_key s") (simp_all add: rec1_def rec2_def)
  moreover have "sameStamp stamp peer" "at_hop stamp = of_nat (length (claimed_chain rec))"
    "case sv_key s of None \<Rightarrow> stamp = bare_stamp rec peer | Some _ \<Rightarrow> at_key stamp = sv_keyid s"
    by (auto simp: stamp_def bare_stamp_def split: option.split)
  ultimately show ?thesis using m by blast
qed

subsection \<open>Assessing an accepted record\<close>

text \<open>
  What the assessments below share: the accepted record's chain, and the standing of its last
  hop and of the hop above the writer's claim.
\<close>

lemma asserts_same: "sameStamp a b \<Longrightarrow> asserts a \<longleftrightarrow> asserts b"
  by (cases a; cases b) (auto simp: sameStamp_def asserts_def)

lemma Accept_chain:
  "\<exists>stamp. lr_identity (Accept T H s rec peer None) = claimed_chain rec @ [stamp] \<and> sameStamp stamp peer"
  using Accept_shape [of T H s rec peer None] by fastforce

lemma claimed_chain_nonempty: "claimed_chain rec \<noteq> []"
  by (simp add: claimed_chain_def)

lemma last_standing:
  assumes "lr_identity r = chain @ [stamp]" "sameStamp stamp peer" "asserts peer"
  shows "standings T H r (Some peer) p ! length chain = Established"
  using assms asserts_same by (subst established_iff) (auto simp: own_stamp_def)

lemma Assess_sel: "pv_chain (Assess T H r anchor p) = lr_identity r"
  "pv_standing (Assess T H r anchor p) = standings T H r anchor p"
  by (simp_all add: Assess_def standings_def)

definition no_trust :: policy where
  "no_trust = \<lparr>po_relay = None, po_keys = (\<lambda>_. None)\<rparr>"

definition sample_peer :: attestation where
  "sample_peer = no_attestation\<lparr>at_by := ''so_peercred'', at_verified := True, at_host := ''nas'', at_uid := 1000, at_gid := 1000, at_pid := 7\<rparr>"

definition sample_log :: "string log_record" where
  "sample_log = \<lparr>lr_schema = 1, lr_time = ''2024-01-01T00:00:00Z'', lr_level = 4, lr_msg = ''disk full'',
     lr_identity = [Claim ''laptop'' 42 ''copy''], lr_job = ''j1'', lr_attrs = [(''k'', ''v'')]\<rparr>"

definition text_time :: "string \<Rightarrow> wire_error + string" where
  "text_time t = Inr t"

definition weak_hash :: "string \<Rightarrow> string \<Rightarrow> string" where
  "weak_hash key b = take 4 (key @ b)"

lemma sample_peer_asserts: "asserts sample_peer"
  by code_simp

subsection \<open>Properties of provenance\<close>

text \<open>
  C19: \<^verbatim>\<open>Assess\<close> computes exactly the trust relation its comment describes: a hop stands
  Vouched or better if and only if it asserts verification and is the assessor's own stamp, is
  bound under a key the policy holds, or is described by a trusted hop above it that the policy
  authorises to relay; and it stands Established if and only if it is the last hop and the
  anchor's stamp.
\<close>

theorem assess_is_trust:
  assumes "k < length (lr_identity r)"
  shows "(Vouched \<le> pv_standing (Assess T H r anchor p) ! k \<longleftrightarrow> trusted T H r anchor p k)
    \<and> (pv_standing (Assess T H r anchor p) ! k = Established \<longleftrightarrow>
        at_by (lr_identity r ! k) \<noteq> BySelf \<and> at_verified (lr_identity r ! k) \<and> k + 1 = length (lr_identity r)
        \<and> (\<exists>s. anchor = Some s \<and> sameStamp (lr_identity r ! k) s))"
  using vouched_trusted [OF assms] established_iff [OF assms]
  by (auto simp: Assess_sel asserts_def own_stamp_def)

theorem assess_is_trust_witness:
  "Vouched \<le> pv_standing (Assess text_time weak_hash sample_log None no_trust) ! 0
     \<longleftrightarrow> trusted text_time weak_hash sample_log None no_trust 0"
proof -
  have "0 < length (lr_identity sample_log)" by (simp add: sample_log_def)
  from assess_is_trust [OF this] show ?thesis by blast
qed

text \<open>
  A reader with nothing of its own (no anchor, no keys) concludes nothing: whatever the
  record says and whoever the policy would let relay, every hop stands as a claim or an
  assertion, and there is no author.
\<close>

theorem no_anchor_no_trust:
  "list_all (\<lambda>s. s = Claimed \<or> s = Asserted) (pv_standing (Assess T H r None (p\<lparr>po_keys := \<lambda>_. None\<rparr>)))
   \<and> Author (Assess T H r None (p\<lparr>po_keys := \<lambda>_. None\<rparr>)) = None"
proof -
  let ?p = "p\<lparr>po_keys := \<lambda>_. None\<rparr>"
  have "\<not> trusted T H r None ?p k" for k
  proof
    assume "trusted T H r None ?p k"
    then show False by (induction rule: trusted.induct) simp_all
  qed
  then have u: "k < length (lr_identity r) \<Longrightarrow> \<not> Vouched \<le> standings T H r None ?p ! k" for k
    using vouched_trusted by blast
  have "s = Claimed \<or> s = Asserted" if "\<not> Vouched \<le> s" for s using that by (cases s) simp_all
  then show ?thesis using u by (auto simp: list_all_length Assess_sel Author_def simp del: standing_le)
qed

text \<open>
  Accepting a record appends and never rewrites: its chain (or the explicit Unclaimed hop 0
  when there is none) is a prefix of the result's, one stamp follows it unless the peer is
  unknown, the stamp says what the platform said and sits at its own position, the message and
  the other fields are kept, and no attribute of the writer changes except the two this layer
  owns.
\<close>

theorem accept_appends:
  "let out = Accept T H s rec peer perr;
       chain = (if lr_identity rec = [] then [Unclaimed] else lr_identity rec) in
   (\<exists>stamp. lr_identity out = chain @ (case perr of None \<Rightarrow> [stamp] | Some _ \<Rightarrow> [])
      \<and> sameStamp stamp peer \<and> at_hop stamp = of_nat (length chain))
   \<and> lr_schema out = lr_schema rec \<and> lr_time out = lr_time rec \<and> lr_level out = lr_level rec
   \<and> lr_msg out = lr_msg rec \<and> lr_job out = lr_job rec
   \<and> map_of (lr_attrs out) |` (- {AttrWriterClaim, ''logging.peer_error''})
      = map_of (lr_attrs rec) |` (- {AttrWriterClaim, ''logging.peer_error''})
   \<and> (map_of (lr_attrs out) AttrWriterClaim = (if lr_identity rec = [] then Some ''absent''
        else map_of (lr_attrs rec) AttrWriterClaim))"
proof -
  obtain stamp attrs where a: "Accept T H s rec peer perr =
      rec\<lparr>lr_identity := claimed_chain rec @ (case perr of None \<Rightarrow> [stamp] | Some _ \<Rightarrow> []), lr_attrs := attrs\<rparr>"
    and st: "sameStamp stamp peer" "at_hop stamp = of_nat (length (claimed_chain rec))"
    and m: "map_of attrs = (map_of (lr_attrs rec))
        (AttrWriterClaim := (if lr_identity rec = [] then Some ''absent'' else map_of (lr_attrs rec) AttrWriterClaim),
         ''logging.peer_error'' := (case perr of None \<Rightarrow> map_of (lr_attrs rec) ''logging.peer_error'' | Some e \<Rightarrow> Some e))"
    using Accept_shape [of T H s rec peer perr] by blast
  have "AttrWriterClaim \<noteq> ''logging.peer_error''" by (simp add: AttrWriterClaim_def)
  then have "map_of attrs |` (- {AttrWriterClaim, ''logging.peer_error''})
      = map_of (lr_attrs rec) |` (- {AttrWriterClaim, ''logging.peer_error''})"
    "map_of attrs AttrWriterClaim = (if lr_identity rec = [] then Some ''absent''
        else map_of (lr_attrs rec) AttrWriterClaim)"
    using m by (auto simp: restrict_map_def fun_eq_iff)
  then show ?thesis using a st by (auto simp: Let_def claimed_chain_def [symmetric])
qed

text \<open>
  The stamp a service appends is the anchor to assess from: the accepted record's last hop
  is Established, and \<^verbatim>\<open>Relay\<close> gives the platform's statement about the immediate peer.
\<close>

theorem stamp_is_established:
  assumes "at_by peer \<noteq> BySelf" "at_verified peer"
  shows "\<exists>stamp. Relay (Assess T H (Accept T H s rec peer None) (Some peer) p) = Some stamp \<and> sameStamp stamp peer"
proof -
  obtain stamp where c: "lr_identity (Accept T H s rec peer None) = claimed_chain rec @ [stamp]"
    and st: "sameStamp stamp peer" using Accept_chain by blast
  have "standings T H (Accept T H s rec peer None) (Some peer) p ! length (claimed_chain rec) = Established"
    by (rule last_standing [OF c st]) (use assms in \<open>simp add: asserts_def\<close>)
  then show ?thesis using c st by (simp add: Relay_def Let_def Assess_sel)
qed

theorem stamp_is_established_witness:
  "\<exists>stamp. Relay (Assess text_time weak_hash (Accept text_time weak_hash \<lparr>sv_keyid = [], sv_key = None\<rparr> sample_log sample_peer None)
      (Some sample_peer) no_trust) = Some stamp \<and> sameStamp stamp sample_peer"
  by (rule stamp_is_established) (simp_all add: sample_peer_def BySelf_def)

text \<open>
  A forged chain buys nothing: assessed with the platform's own stamp and no relays or keys,
  a record has an author if and only if it came straight from its writer, and the author is
  then the platform's stamp; a record that arrived with more hops has none, whatever they say.
\<close>

theorem author_only_direct:
  assumes "at_by peer \<noteq> BySelf" "at_verified peer"
  shows "let pv = Assess T H (Accept T H s rec peer None) (Some peer) no_trust in
    (Author pv = None \<longleftrightarrow> length (lr_identity rec) > 1)
    \<and> list_all (\<lambda>a. sameStamp a peer) (case Author pv of None \<Rightarrow> [] | Some a \<Rightarrow> [a])"
proof -
  let ?r = "Accept T H s rec peer None"
  obtain stamp where c: "lr_identity ?r = claimed_chain rec @ [stamp]" and st: "sameStamp stamp peer"
    using Accept_chain by blast
  have e: "standings T H ?r (Some peer) no_trust ! length (claimed_chain rec) = Established"
    by (rule last_standing [OF c st]) (use assms in \<open>simp add: asserts_def\<close>)
  show ?thesis
  proof (cases "length (lr_identity rec) > 1")
    case True
    then have n: "length (claimed_chain rec) > 1" by (auto simp: claimed_chain_def)
    have "\<not> trusted T H ?r (Some peer) no_trust 1"
      using n c claimed_chain_nonempty
      by (subst trusted_step) (simp_all add: own_stamp_def key_bound_def may_relay_def no_trust_def)
    then have "\<not> Vouched \<le> standings T H ?r (Some peer) no_trust ! 1"
      using vouched_trusted [of 1 ?r T H "Some peer" no_trust] n c claimed_chain_nonempty [of rec] by simp
    then show ?thesis using True by (simp add: Author_def Assess_sel Let_def del: standing_le)
  next
    case False
    then have "length (claimed_chain rec) = 1" by (cases "lr_identity rec") (auto simp: claimed_chain_def)
    then show ?thesis using False e c st by (simp add: Author_def Assess_sel Let_def nth_append)
  qed
qed

theorem author_only_direct_witness:
  "let pv = Assess text_time weak_hash (Accept text_time weak_hash \<lparr>sv_keyid = [], sv_key = None\<rparr> sample_log sample_peer None)
      (Some sample_peer) no_trust in
    (Author pv = None \<longleftrightarrow> length (lr_identity sample_log) > 1)
    \<and> list_all (\<lambda>a. sameStamp a sample_peer) (case Author pv of None \<Rightarrow> [] | Some a \<Rightarrow> [a])"
  by (rule author_only_direct) (simp_all add: sample_peer_def BySelf_def)

text \<open>
  A stamp bound under a key verifies wherever the record goes: on every record with the same
  fields whose chain agrees up to the stamp, whatever hops are appended after it.
\<close>

theorem binding_survives:
  assumes "Bind T H r hop keyID key = (r', None)"
  shows "bindingHolds T H (r'\<lparr>lr_identity := take (hop + 1) (lr_identity r') @ later\<rparr>) hop key"
proof -
  have "hop < length (lr_identity r)" using assms by (auto simp: Bind_def split: if_splits)
  then have "hop < length (lr_identity r')" using assms by (auto simp: Bind_def Let_def split: sum.splits)
  then show ?thesis by (intro bind_holds [OF assms]) simp
qed

theorem binding_survives_witness:
  "\<exists>r'. Bind text_time weak_hash sample_log 0 ''k1'' ''secret'' = (r', None)
    \<and> bindingHolds text_time weak_hash (r'\<lparr>lr_identity := take 1 (lr_identity r') @ [sample_peer]\<rparr>) 0 ''secret''"
proof -
  obtain r' where b: "Bind text_time weak_hash sample_log 0 ''k1'' ''secret'' = (r', None)"
    by (simp add: Bind_def sample_log_def bound_def text_time_def Let_def)
  from binding_survives [OF this, of "[sample_peer]"] b show ?thesis by (simp add: numeral_eq_Suc)
qed

text \<open>
  An authorised relay carries the author through: when a first service accepts a record
  straight from its writer and a second service, whose policy lets that party relay, accepts it
  from the first, the author the second concludes is the first service's statement about the
  writer.
\<close>

theorem relay_carries_author:
  assumes "length (lr_identity rec) \<le> 1" "at_by w \<noteq> BySelf" "at_verified w" "at_by b \<noteq> BySelf" "at_verified b"
    and relay: "po_relay p = Some may" "\<And>x. sameStamp x b \<Longrightarrow> may x"
  shows "\<exists>a. Author (Assess T H (Accept T H s2 (Accept T H s1 rec w None) b None) (Some b) p) = Some a \<and> sameStamp a w"
proof -
  let ?r1 = "Accept T H s1 rec w None"
  let ?r = "Accept T H s2 ?r1 b None"
  obtain a where c1: "lr_identity ?r1 = claimed_chain rec @ [a]" and a: "sameStamp a w" using Accept_chain by blast
  then have "claimed_chain ?r1 = claimed_chain rec @ [a]" by (simp add: claimed_chain_def)
  then obtain x where c: "lr_identity ?r = claimed_chain rec @ [a, x]" and x: "sameStamp x b"
    using Accept_chain [of T H s2 ?r1 b] by auto
  obtain h where h: "claimed_chain rec = [h]"
    using assms(1) by (cases "lr_identity rec") (auto simp: claimed_chain_def)
  have "standings T H ?r (Some b) p ! length [h, a] = Established"
    by (rule last_standing [where chain = "[h, a]", OF _ x]) (use c h assms in \<open>simp_all add: asserts_def\<close>)
  then have e: "trusted T H ?r (Some b) p (1 + 1)"
    using vouched_trusted [of 2 ?r T H "Some b" p] c h by (simp add: numeral_2_eq_2)
  have "asserts a" using asserts_same [OF a] assms(2,3) by (simp add: asserts_def)
  then have s: "asserts (lr_identity ?r ! 1)" using c h by simp
  have "may x" by (rule relay(2) [OF x])
  then have m: "may (lr_identity ?r ! (1 + 1))" using c h by simp
  have l: "1 + 1 < length (lr_identity ?r)" using c h by simp
  have "trusted T H ?r (Some b) p 1"
    by (rule trusted.relayed [where relay = may and k = 1]) (rule e l m s relay(1) | simp)+
  then have "Vouched \<le> standings T H ?r (Some b) p ! 1"
    using vouched_trusted [of 1 ?r T H "Some b" p] c h by (simp del: standing_le)
  then show ?thesis using c h a by (simp add: Author_def Assess_sel del: standing_le)
qed

theorem relay_carries_author_witness:
  "\<exists>a. Author (Assess text_time weak_hash
      (Accept text_time weak_hash \<lparr>sv_keyid = [], sv_key = None\<rparr>
        (Accept text_time weak_hash \<lparr>sv_keyid = [], sv_key = None\<rparr> sample_log sample_peer None)
        (sample_peer\<lparr>at_pid := 9\<rparr>) None)
      (Some (sample_peer\<lparr>at_pid := 9\<rparr>)) \<lparr>po_relay = Some (\<lambda>x. at_pid x = 9), po_keys = (\<lambda>_. None)\<rparr>) = Some a
    \<and> sameStamp a sample_peer"
proof (rule relay_carries_author)
  fix x assume "sameStamp x (sample_peer\<lparr>at_pid := 9\<rparr>)"
  then show "(\<lambda>x. at_pid x = 9) x" by (cases x) (simp add: sameStamp_def sample_peer_def no_attestation_def)
qed (simp_all add: sample_log_def sample_peer_def BySelf_def)

text \<open>
  C20: A lie about itself is found out: for a record straight from a writer that claims a host and
  a process, the assessment is disputed exactly when the platform's host or process id, where
  known on both sides, differs.
\<close>

theorem lie_is_disputed:
  assumes "at_by peer \<noteq> BySelf" "at_verified peer" "lr_identity rec = [Claim host pid program]"
  shows "Disputed (Assess T H (Accept T H s rec peer None) (Some peer) p) \<longleftrightarrow>
    (at_host peer \<noteq> [] \<and> host \<noteq> [] \<and> at_host peer \<noteq> host)
    \<or> (at_pid peer \<noteq> Unknown \<and> pid \<noteq> Unknown \<and> at_pid peer \<noteq> pid)"
proof -
  let ?r = "Accept T H s rec peer None"
  let ?c = "Claim host pid program"
  obtain stamp where c: "lr_identity ?r = [?c, stamp]" and st: "sameStamp stamp peer"
    using Accept_chain [of T H s rec peer] assms(3) by (auto simp: claimed_chain_def)
  have "standings T H ?r (Some peer) p ! length [?c] = Established"
    by (rule last_standing [where chain = "[?c]", OF _ st]) (use c assms in \<open>simp_all add: asserts_def\<close>)
  then have "Author (Assess T H ?r (Some peer) p) = Some stamp" using c by (simp add: Author_def Assess_sel)
  moreover have "Identity_Claimed (lr_identity ?r) = Some ?c"
    unfolding c by (simp add: Identity_Claimed_def Claim_def no_attestation_def)
  moreover have "at_host stamp = at_host peer" "at_pid stamp = at_pid peer"
    using st by (cases stamp; cases peer; simp add: sameStamp_def)+
  moreover have "at_host ?c = host" "at_pid ?c = pid" by (simp_all add: Claim_def)
  ultimately show ?thesis by (auto simp: Disputed_def Assess_sel)
qed

theorem lie_is_disputed_witness:
  "Disputed (Assess text_time weak_hash (Accept text_time weak_hash \<lparr>sv_keyid = [], sv_key = None\<rparr> sample_log sample_peer None)
    (Some sample_peer) no_trust)"
proof -
  have "at_by sample_peer \<noteq> BySelf" "at_verified sample_peer" "lr_identity sample_log = [Claim ''laptop'' 42 ''copy'']"
    "at_host sample_peer = ''nas''"
    by (simp_all add: sample_peer_def sample_log_def BySelf_def)
  then show ?thesis using lie_is_disputed [of sample_peer sample_log "''laptop''" 42 "''copy''"] by simp
qed

end
