(* ===== verification/Json_Line.thy ===== *)
theory Json_Line
  imports Provenance
begin

text \<open>
  The two codecs of the repository meet: a line \<^verbatim>\<open>Record.Encode\<close> of
  \<^verbatim>\<open>go/record.go\<close> wrote (the standard library's JSON) is read by \<^verbatim>\<open>Decode\<close> of
  the generated \<^verbatim>\<open>rec.go\<close>, which the history of a file rests on.
\<close>

subsection \<open>Strings\<close>

text \<open>What a byte string is after the standard library's encoder: UTF-8.\<close>

lemma decode_rune_SomeD:
  assumes "decode_rune (c # cs) = Some (cp, n)"
  obtains lead where "utf8_lead c = Some (n, lead)" "n \<le> length (c # cs)" "list_all is_cont (take (n - 1) cs)"
    "cp = foldl (\<lambda>v k. v * 64 + bv k mod 64) lead (take (n - 1) cs)" "utf8_scalar n cp"
  using assms by (auto simp: decode_rune_def Let_def split: option.splits if_splits)

lemma utf8_lead_range: "utf8_lead c = Some (n, lead) \<Longrightarrow> 2 \<le> n \<and> n \<le> 4 \<and> 128 \<le> bv c"
  by (auto simp: utf8_lead_def split: if_splits)

lemma is_cont_high: "is_cont c \<Longrightarrow> 128 \<le> bv c"
  by (auto simp: is_cont_def)

lemma validUTF8_rune:
  assumes "decode_rune (c # cs) = Some (cp, n)" "validUTF8 t"
  shows "validUTF8 (take n (c # cs) @ t)"
proof -
  obtain lead where l: "utf8_lead c = Some (n, lead)" "n \<le> length (c # cs)" "list_all is_cont (take (n - 1) cs)"
    "cp = foldl (\<lambda>v k. v * 64 + bv k mod 64) lead (take (n - 1) cs)" "utf8_scalar n cp"
    by (rule decode_rune_SomeD [OF assms(1)])
  have n: "2 \<le> n" "128 \<le> bv c" using utf8_lead_range [OF l(1)] by simp_all
  then obtain m where m: "n = Suc m" by (cases n) simp_all
  have len: "length (take m cs) = m" using l(2) m by simp
  then have "take m (take m cs @ t) = take m cs" "drop m (take m cs @ t) = t" by simp_all
  then show ?thesis using l n m len assms(2) by (simp add: validUTF8.simps Let_def)
qed

lemma replacement_bytes: "appendRune [] 0xFFFD = [CHR 0xEF, CHR 0xBF, CHR 0xBD]"
proof -
  have "char_of (239 :: nat) = CHR 0xEF" "char_of (191 :: nat) = CHR 0xBF" "char_of (189 :: nat) = CHR 0xBD"
    by code_simp+
  then show ?thesis by (simp add: appendRune_def)
qed

lemma replacement_rune: "decode_rune [CHR 0xEF, CHR 0xBF, CHR 0xBD] = Some (0xFFFD, 3)"
proof -
  have "bv (CHR 0xEF) = 239" "bv (CHR 0xBF) = 191" "bv (CHR 0xBD) = 189" by code_simp+
  then show ?thesis by (simp add: decode_rune_def utf8_lead_def is_cont_def utf8_scalar_def utf8_lowest_def)
qed

lemma validUTF8_replacement: "validUTF8 t \<Longrightarrow> validUTF8 (appendRune [] 0xFFFD @ t)"
  using validUTF8_rune [OF replacement_rune, of t] by (simp add: replacement_bytes)

lemma validUTF8_sanitize: "validUTF8 (sanitize s)"
proof (induction s rule: sanitize.induct)
  case (2 c cs)
  show ?case
  proof (cases "bv c < 0x80")
    case True
    then show ?thesis using 2 by (simp add: validUTF8.simps(2))
  next
    case False
    then show ?thesis
    proof (cases "decode_rune (c # cs)")
      case None
      then show ?thesis using False 2 validUTF8_replacement by simp
    next
      case (Some p)
      then show ?thesis using False 2 validUTF8_rune [of c cs "fst p" "snd p"] by (cases p) simp
    qed
  qed
qed (simp add: validUTF8.simps)

lemma sanitize_valid: "validUTF8 s \<Longrightarrow> sanitize s = s"
proof (induction s rule: sanitize.induct)
  case (2 c cs)
  show ?case
  proof (cases "bv c < 0x80")
    case True
    then show ?thesis using 2 by (simp add: validUTF8.simps(2))
  next
    case False
    then obtain n lead where l: "utf8_lead c = Some (n, lead)"
      using "2.prems" by (auto simp: validUTF8.simps(2) split: option.splits)
    then have w: "2 \<le> n" using utf8_lead_range by blast
    let ?cp = "foldl (\<lambda>v k. v * 64 + bv k mod 64) lead (take (n - 1) cs)"
    have v: "n \<le> length (c # cs)" "list_all is_cont (take (n - 1) cs)" "utf8_scalar n ?cp" "validUTF8 (drop (n - 1) cs)"
      using "2.prems" False l by (auto simp: validUTF8.simps(2) Let_def split: if_splits)
    then have d: "decode_rune (c # cs) = Some (?cp, n)" using l by (simp add: decode_rune_def Let_def)
    have "sanitize (drop (n - 1) cs) = drop (n - 1) cs" using "2.IH" False d v(4) by simp
    moreover have "take n (c # cs) @ drop (n - 1) cs = c # cs" using w by (cases n) simp_all
    ultimately show ?thesis using False d by simp
  qed
qed simp

lemma sanitize_Nil [simp]: "sanitize s = [] \<longleftrightarrow> s = []"
proof (cases s)
  case (Cons c cs)
  have "appendRune [] 0xFFFD \<noteq> []" by (simp add: appendRune_def)
  moreover have "take n (c # cs) \<noteq> []" if "decode_rune (c # cs) = Some (cp, n)" for cp n
    using that by (auto elim!: decode_rune_SomeD dest!: utf8_lead_range)
  ultimately show ?thesis using Cons by (auto split: option.splits)
qed simp


subsection \<open>Reading a string of the standard library's encoder\<close>

lemma appendRune_out: "appendRune out v = out @ appendRune [] v"
  by (simp add: appendRune_def)

lemma str_loop_plain:
  assumes "rest r = c # u" "c \<noteq> QUOTE" "c \<noteq> BSLASH" "0x20 \<le> bv c"
  shows "str_loop out r = str_loop (out @ [c]) (to r u)"
  using assms rest_nonempty [of r c u] skip1_to [of r c u] by (simp add: str_loop.simps [of out r])

lemma str_loop_escape:
  assumes "rest r = BSLASH # u" "escape out r = Inr (out', r')"
  shows "str_loop out r = str_loop out' r'"
  using assms rest_nonempty [of r BSLASH u] by (simp add: str_loop.simps [of out r] bv_def)

lemma str_loop_unicode:
  assumes "rest r = BSLASH # CHR ''u'' # a # b # c # d # u" "hex4_loop [a, b, c, d] 0 = Some v" "v < 0xD800 \<or> 0xDFFF < v"
  shows "str_loop out r = str_loop (out @ appendRune [] v) (to r u)"
proof (rule str_loop_escape [OF assms(1)])
  note er = escape_rest [OF assms(1)]
  have "rest (to r (a # b # c # d # u)) = a # b # c # d # u"
    by (rule rest_to [of r "[BSLASH, CHR ''u'']"]) (simp add: assms(1))
  then have "hex4 (to r (a # b # c # d # u)) = Inr (v, to r u)" using hex4_rest [OF _ assms(2)] by simp
  then show "escape out r = Inr (out @ appendRune [] v, to r u)"
    using er assms(3) by (simp add: escape_def Let_def appendRune_out [of out v]) auto
qed

lemma hex4_loop_low:
  assumes "n < 64"
  shows "hex4_loop [CHR ''0'', CHR ''0'', hex_digits ! (n div 16), hex_digits ! (n mod 16)] 0 = Some n"
proof -
  have "list_all (\<lambda>n. hex4_loop [CHR ''0'', CHR ''0'', hex_digits ! (n div 16),
      hex_digits ! (n mod 16)] 0 = Some n) [0..<64]"
    by code_simp
  then show ?thesis using assms by (simp add: list_all_iff)
qed

lemma str_loop_ascii:
  assumes r: "rest r = json_ascii True c @ u" and a: "bv c < 0x80"
  shows "str_loop out r = str_loop (out @ [c]) (to r u)"
proof (cases "c \<in> {QUOTE, BSLASH, CHR 0x08, CHR 0x0C, LF, CHR 0x0D, CHR 0x09}")
  case True
  then obtain x where x: "json_ascii True c = [BSLASH, x]"
    and e: "(x = QUOTE \<or> x = BSLASH) \<and> c = x \<or> x = CHR ''b'' \<and> c = CHR 0x08
      \<or> x = CHR ''f'' \<and> c = CHR 0x0C \<or> x = CHR ''n'' \<and> c = LF
      \<or> x = CHR ''r'' \<and> c = CHR 0x0D \<or> x = CHR ''t'' \<and> c = CHR 0x09"
    by (auto simp: json_ascii_def)
  have b: "rest r = BSLASH # x # u" using r x by simp
  have "escape out r = Inr (out @ [c], to r u)"
    using e escape_rest [OF b] by (auto simp: escape_def Let_def)
  then show ?thesis by (rule str_loop_escape [OF b])
next
  case False
  show ?thesis
  proof (cases "bv c < 0x20 \<or> c \<in> {CHR ''<'', CHR ''>'', CHR ''&''}")
    case True
    then have n: "bv c < 64" by (auto simp: bv_def)
    have "json_ascii True c = [BSLASH, CHR ''u'', CHR ''0'', CHR ''0'', hex_digits ! (bv c div 16), hex_digits ! (bv c mod 16)]"
      using True False by (simp add: json_ascii_def)
    then have b: "rest r = BSLASH # CHR ''u'' # CHR ''0'' # CHR ''0'' # hex_digits ! (bv c div 16)
        # hex_digits ! (bv c mod 16) # u" using r by simp
    have "appendRune [] (bv c) = [c]" using n by (simp add: appendRune_def)
    then show ?thesis using str_loop_unicode [OF b hex4_loop_low [OF n], of out] n by simp
  next
    case plain: False
    then have "json_ascii True c = [c]" using False by (simp add: json_ascii_def)
    then show ?thesis using str_loop_plain [of r c u out] r False plain by simp
  qed
qed

lemma str_loop_high:
  "rest r = a @ u \<Longrightarrow> \<forall>c \<in> set a. 128 \<le> bv c \<Longrightarrow> in_buf r \<Longrightarrow> str_loop out r = str_loop (out @ a) (to r u)"
proof (induction a arbitrary: out r)
  case Nil
  then show ?case using to_rest [of r] by simp
next
  case (Cons c a)
  have c: "c \<noteq> QUOTE" "c \<noteq> BSLASH" "0x20 \<le> bv c" using Cons.prems(2) by (auto simp: bv_def)
  have r: "rest r = c # (a @ u)" using Cons.prems by simp
  have "rest (to r (a @ u)) = a @ u" using rest_to [of r "[c]"] r by simp
  then show ?case
    using str_loop_plain [OF r c, of out] Cons.IH [of "to r (a @ u)" "out @ [c]"] Cons.prems by simp
qed

text \<open>The two line separators are the only runes of several bytes that are escaped.\<close>

lemma decode_separator:
  assumes "decode_rune (c # cs) = Some (cp, n)" "cp = 0x2028 \<or> cp = 0x2029"
  shows "take n (c # cs) = appendRune [] cp"
proof -
  obtain lead where l: "utf8_lead c = Some (n, lead)" "n \<le> length (c # cs)" "list_all is_cont (take (n - 1) cs)"
    "cp = foldl (\<lambda>v k. v * 64 + bv k mod 64) lead (take (n - 1) cs)" "utf8_scalar n cp"
    by (rule decode_rune_SomeD [OF assms(1)])
  consider "n = 2" "lead = bv c mod 32" | "n = 3" "lead = bv c mod 16" "bv c div 16 = 14" | "n = 4"
    using l(1) by (auto simp: utf8_lead_def split: if_splits)
  then show ?thesis
  proof cases
    case 1
    then obtain k where k: "take (n - 1) cs = [k]" using l(2) by (cases cs) simp_all
    have "cp = bv c mod 32 * 64 + bv k mod 64" using l(4) k 1 by simp
    moreover have "bv c mod 32 < 32" "bv k mod 64 < 64" by simp_all
    ultimately have "cp < 0x800" by linarith
    then show ?thesis using assms(2) by auto
  next
    case 2
    then obtain k1 k2 where k: "take (n - 1) cs = [k1, k2]" using l(2) by (cases cs; cases "tl cs") simp_all
    have ks: "bv k1 div 64 = 2" "bv k2 div 64 = 2" using l(3) k by (simp_all add: is_cont_def)
    have cp: "cp = (bv c mod 16 * 64 + bv k1 mod 64) * 64 + bv k2 mod 64" using l(4) k 2 by simp
    have q: "(x * 64 + y mod 64) mod 64 = y mod 64" "(x * 64 + y mod 64) div 64 = x" for x y :: nat by simp_all
    have "bv k2 mod 64 = cp mod 64" and h: "bv c mod 16 * 64 + bv k1 mod 64 = cp div 64"
      unfolding cp by (rule q [symmetric])+
    moreover have "bv k1 mod 64 = cp div 64 mod 64" "bv c mod 16 = cp div 64 div 64"
      unfolding h [symmetric] by (rule q [symmetric])+
    ultimately have "bv c mod 16 = 2 \<and> bv k1 mod 64 = 0 \<and> bv k2 mod 64 = cp - 0x2000"
      using assms(2) by (elim disjE) simp_all
    then have "bv c = 0xE2" "bv k1 = 0x80" "bv k2 = 0x80 + (cp - 0x2000)"
      using 2(3) ks div_mult_mod_eq [of "bv c" 16] div_mult_mod_eq [of "bv k1" 64] div_mult_mod_eq [of "bv k2" 64] by simp_all
    then have b: "c = char_of (0xE2 :: nat)" "k1 = char_of (0x80 :: nat)" "k2 = char_of (0x80 + (cp - 0x2000))"
      by (metis char_of_bv)+
    have "take n (c # cs) = c # take (n - 1) cs" using 2 by (simp add: numeral_3_eq_3)
    then have "take n (c # cs) = [char_of (0xE2 :: nat), char_of (0x80 :: nat), char_of (0x80 + (cp - 0x2000))]"
      using k b by simp
    then show ?thesis using assms(2) by (auto simp: appendRune_def)
  next
    case 3
    then have "0x10000 \<le> cp" using l(5) by (simp add: utf8_scalar_def utf8_lowest_def)
    then show ?thesis using assms(2) by auto
  qed
qed

lemma hex4_separators:
  "hex4_loop [CHR ''f'', CHR ''f'', CHR ''f'', CHR ''d''] 0 = Some 0xFFFD"
  "hex4_loop [CHR ''2'', CHR ''0'', CHR ''2'', hex_digits ! (0x2028 mod 16)] 0 = Some 0x2028"
  "hex4_loop [CHR ''2'', CHR ''0'', CHR ''2'', hex_digits ! (0x2029 mod 16)] 0 = Some 0x2029"
proof -
  have d: "hex_digits ! (0x2028 mod 16) = CHR ''8''" "hex_digits ! (0x2029 mod 16) = CHR ''9''"
    by (simp_all add: hex_digits_def)
  have v: "hex_value (CHR ''f'') = Some 15" "hex_value (CHR ''d'') = Some 13" "hex_value (CHR ''2'') = Some 2"
    "hex_value (CHR ''0'') = Some 0" "hex_value (CHR ''8'') = Some 8" "hex_value (CHR ''9'') = Some 9"
    by code_simp+
  show "hex4_loop [CHR ''f'', CHR ''f'', CHR ''f'', CHR ''d''] 0 = Some 0xFFFD"
    "hex4_loop [CHR ''2'', CHR ''0'', CHR ''2'', hex_digits ! (0x2028 mod 16)] 0 = Some 0x2028"
    "hex4_loop [CHR ''2'', CHR ''0'', CHR ''2'', hex_digits ! (0x2029 mod 16)] 0 = Some 0x2029"
    unfolding d by (simp_all add: v push_bit_eq_mult)
qed

lemma str_loop_json:
  "rest r = json_chars True s @ QUOTE # t \<Longrightarrow> validUTF8 (out @ sanitize s) \<Longrightarrow>
    str_loop out r = Inr (out @ sanitize s, to r t)"
proof (induction s arbitrary: out r rule: sanitize.induct)
  case 1
  then show ?case
    using rest_nonempty [of r QUOTE t] skip1_to [of r QUOTE t] by (simp add: str_loop.simps [of out r] json_chars.simps)
next
  case (2 c cs)
  show ?case
  proof (cases "bv c < 0x80")
    case True
    let ?u = "json_chars True cs @ QUOTE # t"
    have r: "rest r = json_ascii True c @ ?u" using "2.prems"(1) True by (simp add: json_chars.simps(2))
    then have "rest (to r ?u) = ?u" by (rule rest_to)
    then show ?thesis
      using str_loop_ascii [OF r True, of out] "2.IH"(1) [OF True, of "to r ?u" "out @ [c]"] "2.prems"(2) True by simp
  next
    case high: False
    show ?thesis
    proof (cases "decode_rune (c # cs)")
      case None
      let ?u = "json_chars True cs @ QUOTE # t"
      have r: "rest r = BSLASH # CHR ''u'' # CHR ''f'' # CHR ''f'' # CHR ''f'' # CHR ''d'' # ?u"
        using "2.prems"(1) high None by (simp add: json_chars.simps(2))
      have "str_loop out r = str_loop (out @ appendRune [] 0xFFFD) (to r ?u)"
        using str_loop_unicode [OF r hex4_separators(1), of out] by simp
      moreover have "rest (to r ?u) = ?u"
        by (rule rest_to [where a = "[BSLASH, CHR ''u'', CHR ''f'', CHR ''f'', CHR ''f'', CHR ''d'']"]) (simp add: r)
      ultimately show ?thesis
        using "2.IH"(2) [OF high None, of "to r ?u" "out @ appendRune [] 0xFFFD"] "2.prems"(2) high None by simp
    next
      case (Some p)
      then obtain cp n where p: "decode_rune (c # cs) = Some (cp, n)" by (cases p) simp
      let ?u = "json_chars True (drop (n - 1) cs) @ QUOTE # t" and ?a = "take n (c # cs)"
      have "str_loop out r = str_loop (out @ ?a) (to r ?u) \<and> rest (to r ?u) = ?u"
      proof (cases "cp = 0x2028 \<or> cp = 0x2029")
        case True
        let ?d = "hex_digits ! (cp mod 16)"
        have r: "rest r = BSLASH # CHR ''u'' # CHR ''2'' # CHR ''0'' # CHR ''2'' # ?d # ?u"
          using "2.prems"(1) high p True by (simp add: json_chars.simps(2))
        have "hex4_loop [CHR ''2'', CHR ''0'', CHR ''2'', ?d] 0 = Some cp" using True hex4_separators(2,3) by (elim disjE) (simp_all only:)
        then have "str_loop out r = str_loop (out @ appendRune [] cp) (to r ?u)"
          by (rule str_loop_unicode [OF r]) (use True in auto)
        moreover have "rest (to r ?u) = ?u"
          by (rule rest_to [where a = "[BSLASH, CHR ''u'', CHR ''2'', CHR ''0'', CHR ''2'', ?d]"]) (simp add: r)
        ultimately show ?thesis using decode_separator [OF p True] by simp
      next
        case False
        have r: "rest r = ?a @ ?u" using "2.prems"(1) high p False by (simp add: json_chars.simps(2))
        have "\<forall>x \<in> set ?a. 128 \<le> bv x"
          using p high by (auto elim!: decode_rune_SomeD dest!: utf8_lead_range is_cont_high
              simp: list_all_iff take_Cons' split: if_splits)
        moreover have "in_buf r" using r by (intro in_buf_rest) auto
        ultimately show ?thesis using str_loop_high [OF r] rest_to [OF r] by blast
      qed
      then show ?thesis
        using "2.IH"(3) [OF high p refl, of "to r ?u" "out @ ?a"] "2.prems"(2) high p by simp
    qed
  qed
qed

lemma str_json [reads_back]:
  assumes "rest q = json_string True s @ u"
  shows "str q = Inr (sanitize s, to q u)"
proof -
  have r: "rest q = QUOTE # json_chars True s @ QUOTE # u" using assms by (simp add: json_string_def)
  then have "rest (to q (json_chars True s @ QUOTE # u)) = json_chars True s @ QUOTE # u"
    using rest_to [of q "[QUOTE]"] by simp
  then show ?thesis
    using str_loop_json [of "to q (json_chars True s @ QUOTE # u)" s u "[]"] r skip1_to [OF r] validUTF8_sanitize
    by (simp add: str_def)
qed


subsection \<open>Objects and lists without white space\<close>

definition json_object :: "(string \<times> string) list \<Rightarrow> string" where
  "json_object ms = ''{'' @ joined (map (\<lambda>(k, x). json_field True k x) ms) @ ''}''"

definition json_list :: "string list \<Rightarrow> string" where
  "json_list xs = ''['' @ joined xs @ '']''"

text \<open>What is left after an element.\<close>

fun json_tail :: "string list \<Rightarrow> string" where
  "json_tail [] = []"
| "json_tail (x # xs) = CHR '','' # x @ json_tail xs"

lemma joined_Cons: "joined (x # xs) = x @ json_tail xs"
  by (induction xs arbitrary: x) simp_all

lemma value_start_json_string [simp]: "value_start (json_string True s)"
  by (simp add: json_string_def)

lemma value_start_json [simp]: "value_start (json_object ms)" "value_start (json_list xs)"
  by (simp_all add: json_object_def json_list_def)

lemma follows_tail: "follows (json_tail xs @ CHR ''}'' # t)" "follows (json_tail xs @ CHR '']'' # t)"
  by (cases xs; simp)+

lemma member_key_json:
  assumes r: "rest r = json_field True k x @ u" and x: "value_start x"
  shows "member_key (ws r) = Inr (sanitize k, to r (x @ u))"
proof -
  have r': "rest r = json_string True k @ CHR '':'' # x @ u" using r by (simp add: json_field_def)
  have w: "ws r = r" by (rule ws_none [OF r']) simp
  have s: "str r = Inr (sanitize k, to r (CHR '':'' # x @ u))" by (rule str_json [OF r'])
  have rc: "rest (to r (CHR '':'' # x @ u)) = CHR '':'' # x @ u" by (rule rest_to [OF r'])
  have w2: "ws (to r (CHR '':'' # x @ u)) = to r (CHR '':'' # x @ u)" by (rule ws_none [OF rc]) simp
  have "rest (to r (x @ u)) = x @ u"
    by (rule rest_to [where a = "json_string True k @ '':''"]) (simp add: r')
  then have "ws (to r (x @ u)) = to r (x @ u)" by (rule ws_none) (use x in simp)
  moreover have "at r = QUOTE" using r' by (simp add: json_string_def)
  moreover have "skip1 (to r (CHR '':'' # x @ u)) = to r (x @ u)" using skip1_to [OF rc] by simp
  ultimately show ?thesis using w s w2 rc by (simp add: member_key_def Let_def)
qed

text \<open>Members under the keys they were written with.\<close>

definition written :: "(string \<times> 'v member) list \<Rightarrow> (string \<times> string) list" where
  "written es = map (\<lambda>(k, m). (k, m_text m)) es"

definition fields_of :: "(string \<times> 'v member) list \<Rightarrow> string list" where
  "fields_of es = map (\<lambda>(k, m). json_field True k (m_text m)) es"

definition reads_json ::
  "(string \<Rightarrow> 'v \<Rightarrow> u32 \<Rightarrow> reader \<Rightarrow> ('v \<times> u32) read) \<Rightarrow> nat \<Rightarrow> string \<times> 'v member \<Rightarrow> bool" where
  "reads_json field n e \<longleftrightarrow> m_key (snd e) = sanitize (fst e) \<and> reads_member field n (snd e)"

context object_decoder
begin

lemma first_json:
  assumes r: "rest q = json_field True k (m_text m) @ t" and m: "reads_json field (r_depth q) (k, m)"
    and t: "follows t" and s: "seen AND m_flag m = 0"
  shows "loop v seen q = after_value loop (m_store m v) (seen OR m_flag m) (to q t)"
proof -
  have x: "value_start (m_text m)" using m by (simp add: reads_json_def reads_member_def)
  have k: "member_key (ws q) = Inr (m_key m, to q (m_text m @ t))"
    using member_key_json [OF r x] m by (simp add: reads_json_def)
  have rx: "rest (to q (m_text m @ t)) = m_text m @ t"
    by (rule rest_to [where a = "json_string True k @ '':''"]) (simp add: r json_field_def)
  have "reads_member field (r_depth q) m" using m by (simp add: reads_json_def)
  then have "field (m_key m) v seen (to q (m_text m @ t)) = Inr ((m_store m v, seen OR m_flag m), to q t)"
    using rx t s by (simp add: reads_member_def)
  then show ?thesis using k by (simp add: loop_eq [of v seen q] object_step_def after_value_def Let_def)
qed

lemma after_json:
  assumes "rest q = json_tail (fields_of es) @ CHR ''}'' # t"
    and "\<forall>e \<in> set es. reads_json field (r_depth q) e" and "distinct_flags (map snd es)"
    and "\<forall>e \<in> set es. seen AND m_flag (snd e) = 0"
  shows "after_value loop v seen q = Inr ((stored (map snd es) v, seen OR flags (map snd es)), to q (CHR ''}'' # t))"
  using assms
proof (induction es arbitrary: q v seen)
  case Nil
  then have r: "rest q = CHR ''}'' # t" by (simp add: fields_of_def)
  then have "to q (CHR ''}'' # t) = q" using to_rest [of q] in_buf_rest [of q] by simp
  moreover have "ws q = q" by (rule ws_none [OF r]) simp
  ultimately show ?case using r by (simp add: after_value_def)
next
  case (Cons e es)
  obtain k m where e: "e = (k, m)" by (cases e)
  let ?t = "json_tail (fields_of es) @ CHR ''}'' # t"
  let ?b = "json_field True k (m_text m) @ ?t"
  have r: "rest q = CHR '','' # ?b" using Cons.prems(1) e by (simp add: fields_of_def)
  have w: "ws q = q" by (rule ws_none [OF r]) simp
  have rb: "rest (to q ?b) = ?b" by (rule rest_to [where a = "'',''"]) (simp add: r)
  have rt: "rest (to q ?t) = ?t" using rest_to [OF rb] by simp
  have "after_value loop v seen q = loop v seen (to q ?b)"
    using r w skip1_to [OF r] by (simp add: after_value_def)
  also have "\<dots> = after_value loop (m_store m v) (seen OR m_flag m) (to q ?t)"
    using first_json [OF rb] Cons.prems e follows_tail by simp
  also have "\<dots> = Inr ((stored (map snd es) (m_store m v), (seen OR m_flag m) OR flags (map snd es)),
      to (to q ?t) (CHR ''}'' # t))"
    by (rule Cons.IH [OF rt]) (use Cons.prems e in \<open>auto simp: distinct_flags_def bit.conj_disj_distrib2\<close>)
  finally show ?case using e by (simp add: or.assoc)
qed

lemma decode_json:
  assumes r: "rest r = json_object (written es) @ t" and ne: "es \<noteq> []" and dep: "r_depth r < depthLimit"
    and ok: "\<forall>e \<in> set es. reads_json field (r_depth r + 1) e" and df: "distinct_flags (map snd es)"
    and req: "flags (map snd es) AND required = required"
  shows "decode_object loop required zero r = Inr (stored (map snd es) zero, to r t)"
proof -
  obtain k m es' where es: "es = (k, m) # es'" using ne by (cases es) auto
  let ?t = "json_tail (fields_of es') @ CHR ''}'' # t"
  let ?b = "json_field True k (m_text m) @ ?t"
  let ?q = "to (deeper r) ?b"
  have f: "map (\<lambda>(k, x). json_field True k x) (written es) = fields_of es"
    by (simp add: written_def fields_of_def split_beta)
  have "joined (fields_of es) = json_field True k (m_text m) @ json_tail (fields_of es')"
    by (simp add: es fields_of_def joined_Cons)
  then have r': "rest r = CHR ''{'' # ?b" using r by (simp add: json_object_def f)
  have rd: "rest (deeper r) = CHR ''{'' # ?b" using r' by simp
  have en: "enter r = Inr (deeper r)" using dep by (simp add: enter_def deeper_def Let_def)
  have rq: "rest ?q = ?b" using rest_to [of "deeper r" "''{''"] rd by simp
  have w: "ws ?q = ?q" by (rule ws_none [OF rq]) (simp add: json_field_def)
  have at: "at ?q \<noteq> CHR ''}''" using rq by (simp add: json_field_def json_string_def)
  have rt: "rest (to ?q ?t) = ?t" by (rule rest_to [OF rq])
  have okm: "reads_json field (r_depth ?q) (k, m)" using ok es by simp
  have "loop zero 0 ?q = after_value loop (m_store m zero) (0 OR m_flag m) (to ?q ?t)"
    by (rule first_json [OF rq okm]) (simp_all add: follows_tail)
  also have "\<dots> = Inr ((stored (map snd es') (m_store m zero), (0 OR m_flag m) OR flags (map snd es')),
      to (to ?q ?t) (CHR ''}'' # t))"
    by (rule after_json) (use rt ok df es in \<open>auto simp: distinct_flags_def\<close>)
  finally have l: "loop zero 0 ?q = Inr ((stored (map snd es) zero, flags (map snd es)), to (deeper r) (CHR ''}'' # t))"
    using es by simp
  have rc: "rest (to (deeper r) (CHR ''}'' # t)) = CHR ''}'' # t"
    by (rule rest_to [where a = "CHR ''{'' # json_field True k (m_text m) @ json_tail (fields_of es')"]) (use rd in simp)
  have "leave (to (deeper r) (CHR ''}'' # t)) = to r t"
    using skip1_to [OF rc] by (simp add: leave_def deeper_def to_def)
  then show ?thesis
    using r' en skip1_to [OF rd] w at l rc req by (simp add: decode_object_def Let_def)
qed

end

context list_decoder
begin

lemma loop_json:
  assumes "rest r = txt v @ json_tail (map txt vs) @ CHR '']'' # t"
    and "\<And>w r u. w \<in> set (v # vs) \<Longrightarrow> rest r = txt w @ u \<Longrightarrow> follows u \<Longrightarrow> r_depth r = n \<Longrightarrow> elem r = Inr (g w, to r u)"
    and "\<And>w. w \<in> set (v # vs) \<Longrightarrow> value_start (txt w)" and "r_depth r = n"
  shows "loop out r = Inr (out @ map g (v # vs), to r (CHR '']'' # t))"
  using assms
proof (induction vs arbitrary: v r out)
  case (Nil v)
  let ?u = "CHR '']'' # t"
  have r: "rest r = txt v @ ?u" using Nil.prems by simp
  have w: "ws r = r" by (rule ws_none [OF r]) (use Nil.prems in simp)
  have e: "elem r = Inr (g v, to r ?u)" using Nil.prems(2) [OF _ r] Nil.prems(4) by simp
  have ru: "rest (to r ?u) = ?u" by (rule rest_to [OF r])
  have "ws (to r ?u) = to r ?u" by (rule ws_none [OF ru]) simp
  then show ?case using w e ru by (simp add: loop_eq [of out r] list_step_def Let_def)
next
  case (Cons x vs v)
  let ?b = "txt x @ json_tail (map txt vs) @ CHR '']'' # t"
  let ?u = "CHR '','' # ?b"
  have r: "rest r = txt v @ ?u" using Cons.prems by simp
  have w: "ws r = r" by (rule ws_none [OF r]) (use Cons.prems in simp)
  have e: "elem r = Inr (g v, to r ?u)" using Cons.prems(2) [OF _ r] Cons.prems(4) by simp
  have ru: "rest (to r ?u) = ?u" by (rule rest_to [OF r])
  have w2: "ws (to r ?u) = to r ?u" by (rule ws_none [OF ru]) simp
  have rb: "rest (to r ?b) = ?b" using rest_to [of "to r ?u" "'',''" ?b] ru by simp
  have "loop out r = loop (out @ [g v]) (to r ?b)"
    using w e w2 skip1_to [OF ru] ru by (simp add: loop_eq [of out r] list_step_def Let_def)
  also have "\<dots> = Inr ((out @ [g v]) @ map g (x # vs), to (to r ?b) (CHR '']'' # t))"
    by (rule Cons.IH [OF rb]) (use Cons.prems in auto)
  finally show ?case by simp
qed

lemma decode_json_list:
  assumes r: "rest r = json_list (map txt vs) @ t" and dep: "r_depth r < depthLimit" and ne: "vs \<noteq> []"
    and e: "\<And>w q u. w \<in> set vs \<Longrightarrow> rest q = txt w @ u \<Longrightarrow> follows u \<Longrightarrow> r_depth q = r_depth r + 1 \<Longrightarrow> elem q = Inr (g w, to q u)"
    and s: "\<And>w. w \<in> set vs \<Longrightarrow> value_start (txt w) \<and> hd (txt w) \<noteq> CHR '']''"
  shows "decode_list loop r = Inr (map g vs, to r t)"
proof -
  obtain v vs' where vs: "vs = v # vs'" using ne by (cases vs) auto
  let ?b = "txt v @ json_tail (map txt vs') @ CHR '']'' # t"
  let ?q = "to (deeper r) ?b" and ?c = "to (deeper r) (CHR '']'' # t)"
  have en: "enter r = Inr (deeper r)" using dep by (simp add: enter_def deeper_def Let_def)
  have rd: "rest (deeper r) = CHR ''['' # ?b" using r vs by (simp add: json_list_def joined_Cons)
  have rq: "rest ?q = ?b" using rest_to [of "deeper r" "''[''"] rd by simp
  have l: "loop [] ?q = Inr ([] @ map g (v # vs'), to ?q (CHR '']'' # t))"
    by (rule loop_json [OF rq, where n = "r_depth r + 1"]) (use e s vs in auto)
  obtain c u where cu: "txt v = c # u" "\<not> is_ws c" "c \<noteq> CHR '']''" using s [of v] vs by (auto simp: value_start_def)
  have w: "ws ?q = ?q" by (rule ws_none [OF rq]) (use cu in simp)
  have a: "at ?q \<noteq> CHR '']''" using rq cu by simp
  have rc: "rest ?c = CHR '']'' # t"
    by (rule rest_to [where a = "CHR ''['' # txt v @ json_tail (map txt vs')"]) (use rd in simp)
  have "leave ?c = to r t" using skip1_to [OF rc] by (simp add: leave_def deeper_def to_def)
  then show ?thesis using vs rd en skip1_to [OF rd] w a l rc by (simp add: decode_list_def Let_def)
qed

end


subsection \<open>A record as the wire codec sees it\<close>

definition wire_attestation_of :: "attestation \<Rightarrow> wire_attestation" where
  "wire_attestation_of a =
     \<lparr>wa_by = sanitize (at_by a), wa_verified = at_verified a, wa_hop = at_hop a, wa_program = sanitize (at_program a),
      wa_host = sanitize (at_host a), wa_user = sanitize (at_user a), wa_exe = sanitize (at_exe a), wa_uid = at_uid a,
      wa_gid = at_gid a, wa_pid = at_pid a, wa_key = sanitize (at_key a), wa_mac = sanitize (at_mac a)\<rparr>"

definition read_attrs :: "strings \<Rightarrow> strings" where
  "read_attrs m = fold (\<lambda>(k, x). AList.update (sanitize k) (sanitize x)) (sorted_map m) []"

definition wire_of :: "string \<Rightarrow> 't log_record \<Rightarrow> wire_record" where
  "wire_of ts r =
     \<lparr>wr_schema = (if lr_schema r = 0 then SchemaVersion else lr_schema r), wr_time = ts, wr_level = lr_level r,
      wr_msg = sanitize (lr_msg r), wr_identity = map wire_attestation_of (lr_identity r), wr_job = sanitize (lr_job r),
      wr_attrs = read_attrs (lr_attrs r)\<rparr>"

definition stamp_ok :: "string \<Rightarrow> bool" where
  "stamp_ok ts \<longleftrightarrow> validUTF8 ts \<and> WideTimestamp ts"

definition present :: "bool \<Rightarrow> 'e \<Rightarrow> 'e list" where
  "present b e = (if b then [e] else [])"

lemma present_simps [simp]:
  "(\<forall>x \<in> set (present b e). P x) \<longleftrightarrow> (b \<longrightarrow> P e)"
  "map f (present b e) = present b (f e)" "stored (present b m) v = (if b then m_store m v else v)"
  "flags (present b m) = (if b then m_flag m else 0)" "sorted_wrt R (present b e)" "written (present b p) = present b (fst p, m_text (snd p))"
  by (simp_all add: present_def written_def split_beta)

lemma written_simps [simp]:
  "written [] = []" "written ((k, m) # es) = (k, m_text m) # written es" "written (es @ fs) = written es @ written fs"
  by (simp_all add: written_def)

definition keyed :: "'v member \<Rightarrow> string \<times> 'v member" where
  "keyed m = (m_key m, m)"

lemma keyed_simps [simp]: "snd (keyed m) = m" "fst (keyed m) = m_key m" "written (keyed m # es) = (m_key m, m_text m) # written es"
  by (simp_all add: keyed_def)

lemma reads_keyed:
  assumes "\<And>q u v seen. rest q = x @ u \<Longrightarrow> follows u \<Longrightarrow> r_depth q = n \<Longrightarrow> seen AND f = 0 \<Longrightarrow>
      field k v seen q = Inr ((g v, seen OR f), to q u)"
    and "sanitize k = k" "validUTF8 k" "value_start x"
  shows "reads_json field n (keyed (Member k x g f))"
  using assms by (simp add: reads_json_def reads_member_def)

declare sanitize.simps(2) [simp del]

subsection \<open>Attestations\<close>

definition json_attestation :: "attestation \<Rightarrow> (string \<times> wire_attestation member) list" where
  "json_attestation a =
     [keyed (Member ''by'' (json_string True (at_by a)) (\<lambda>w. w\<lparr>wa_by := sanitize (at_by a)\<rparr>) 1),
      keyed (Member ''verified'' (json_bool (at_verified a)) (\<lambda>w. w\<lparr>wa_verified := at_verified a\<rparr>) 2),
      keyed (Member ''hop'' (decimal (at_hop a)) (\<lambda>w. w\<lparr>wa_hop := at_hop a\<rparr>) 4)] @
     present (at_program a \<noteq> []) (keyed (Member ''program'' (json_string True (at_program a)) (\<lambda>w. w\<lparr>wa_program := sanitize (at_program a)\<rparr>) 8)) @
     present (at_host a \<noteq> []) (keyed (Member ''host'' (json_string True (at_host a)) (\<lambda>w. w\<lparr>wa_host := sanitize (at_host a)\<rparr>) 16)) @
     present (at_user a \<noteq> []) (keyed (Member ''user'' (json_string True (at_user a)) (\<lambda>w. w\<lparr>wa_user := sanitize (at_user a)\<rparr>) 32)) @
     present (at_exe a \<noteq> []) (keyed (Member ''exe'' (json_string True (at_exe a)) (\<lambda>w. w\<lparr>wa_exe := sanitize (at_exe a)\<rparr>) 64)) @
     [keyed (Member ''uid'' (decimal (at_uid a)) (\<lambda>w. w\<lparr>wa_uid := at_uid a\<rparr>) 128),
      keyed (Member ''gid'' (decimal (at_gid a)) (\<lambda>w. w\<lparr>wa_gid := at_gid a\<rparr>) 256),
      keyed (Member ''pid'' (decimal (at_pid a)) (\<lambda>w. w\<lparr>wa_pid := at_pid a\<rparr>) 512)] @
     present (at_key a \<noteq> []) (keyed (Member ''key'' (json_string True (at_key a)) (\<lambda>w. w\<lparr>wa_key := sanitize (at_key a)\<rparr>) 1024)) @
     present (at_mac a \<noteq> []) (keyed (Member ''mac'' (json_string True (at_mac a)) (\<lambda>w. w\<lparr>wa_mac := sanitize (at_mac a)\<rparr>) 2048))"

lemma omitempty_present: "omitempty k s = map (\<lambda>(k, x). json_field True k x) (present (s \<noteq> []) (k, json_string True s))"
  by (simp add: omitempty_def present_def)

lemma marshal_attestation_text: "marshal_attestation a = json_object (written (json_attestation a))"
  unfolding marshal_attestation_def json_object_def json_attestation_def
  by (simp add: omitempty_present del: present_simps(2))

lemma attestation_of_stored: "stored (map snd (json_attestation a)) zero_attestation = wire_attestation_of a"
  unfolding json_attestation_def wire_attestation_of_def zero_attestation_def
  by (simp add: wire_attestation.defs split: if_splits)

lemma json_attestation_flags:
  "distinct_flags (map snd (json_attestation a))" "flags (map snd (json_attestation a)) AND 903 = 903"
  by (simp_all add: json_attestation_def distinct_flags_def sorted_wrt_append ball_Un)

lemma decimal_back [reads_back]: "rest q = decimal n @ u \<Longrightarrow> follows u \<Longrightarrow> any_int q = Inr (n, to q u)"
  unfolding decimal_def by (rule any_int_back)

lemma json_bool_back [reads_back]: "rest q = json_bool b @ u \<Longrightarrow> boolean q = Inr (b, to q u)"
  using boolean_back [of q b u] by (simp add: json_bool_def put_bool_def)

lemma value_start_scalar [simp]: "value_start (decimal n)" "value_start (json_bool b)"
  by (simp add: decimal_def) (simp add: json_bool_def)

lemma json_keys [simp]:
  "sanitize ''by'' = ''by''" "sanitize ''verified'' = ''verified''" "sanitize ''hop'' = ''hop''"
  "sanitize ''program'' = ''program''" "sanitize ''host'' = ''host''" "sanitize ''user'' = ''user''"
  "sanitize ''exe'' = ''exe''" "sanitize ''uid'' = ''uid''" "sanitize ''gid'' = ''gid''" "sanitize ''pid'' = ''pid''"
  "sanitize ''key'' = ''key''" "sanitize ''mac'' = ''mac''" "sanitize ''schema'' = ''schema''" "sanitize ''time'' = ''time''"
  "sanitize ''level'' = ''level''" "sanitize ''msg'' = ''msg''" "sanitize ''identity'' = ''identity''"
  "sanitize ''job'' = ''job''" "sanitize ''attrs'' = ''attrs''"
  by (rule sanitize_valid, simp)+

lemma reads_json_attestation: "\<forall>e \<in> set (json_attestation a). reads_json attestation_field n e"
  unfolding json_attestation_def
  by (simp add: ball_Un) (intro conjI impI; rule reads_keyed; simp add: attestation_field_def once_def reads_back)

lemma attestation_json:
  assumes "rest q = marshal_attestation a @ u" "r_depth q < depthLimit"
  shows "decodeAttestation q = Inr (wire_attestation_of a, to q u)"
proof -
  have "json_attestation a \<noteq> []" by (simp add: json_attestation_def)
  then show ?thesis
    using attestation.decode_json [of q "json_attestation a" u 903 zero_attestation]
      reads_json_attestation assms json_attestation_flags attestation_of_stored
    by (simp add: decodeAttestation_def marshal_attestation_text)
qed

subsection \<open>Records\<close>

definition json_map_members :: "strings \<Rightarrow> (string \<times> strings member) list" where
  "json_map_members m =
     map (\<lambda>(k, x). (k, Member (sanitize k) (json_string True x) (AList.update (sanitize k) (sanitize x)) 0)) (sorted_map m)"

lemma marshal_map_text: "marshal_map m = json_object (written (json_map_members m))"
  by (simp add: marshal_map_def json_object_def json_map_members_def written_def o_def case_prod_unfold)

lemma stored_json_map:
  "stored (map snd (map (\<lambda>(k, x). (k, Member (sanitize k) (json_string True x) (AList.update (sanitize k) (sanitize x)) 0)) xs)) m
     = fold (\<lambda>(k, x). AList.update (sanitize k) (sanitize x)) xs m"
  by (induction xs arbitrary: m) (auto simp: split_beta)

lemma json_map_flags:
  "distinct_flags (map snd (json_map_members m))" "flags (map snd (json_map_members m)) AND 0 = 0"
  by (auto simp: json_map_members_def distinct_flags_def sorted_wrt_map split_beta sorted_wrt_iff_nth_less)

lemma strMap_json:
  assumes "rest q = marshal_map m @ u" "r_depth q < depthLimit" "m \<noteq> []"
  shows "strMap q = Inr (read_attrs m, to q u)"
proof -
  have "reads_json strMap_field n e" if "e \<in> set (json_map_members m)" for n e
    using that by (auto simp: json_map_members_def reads_json_def reads_member_def strMap_field_def reads_back validUTF8_sanitize)
  moreover have "json_map_members m \<noteq> []" using assms(3) by (simp add: json_map_members_def sorted_map_Nil)
  moreover have "stored (map snd (json_map_members m)) [] = read_attrs m"
    using stored_json_map [of "sorted_map m" "[]"] by (simp only: json_map_members_def read_attrs_def)
  ultimately show ?thesis
    using str_map.decode_json [of q "json_map_members m" u 0 "[]"] assms json_map_flags
    by (simp add: strMap_def marshal_map_text)
qed

definition json_record :: "string \<Rightarrow> 't log_record \<Rightarrow> (string \<times> wire_record member) list" where
  "json_record ts r =
     [keyed (Member ''schema'' (decimal (lr_schema r)) (\<lambda>w. w\<lparr>wr_schema := lr_schema r\<rparr>) 1),
      keyed (Member ''time'' (json_string True ts) (\<lambda>w. w\<lparr>wr_time := ts\<rparr>) 2),
      keyed (Member ''level'' (decimal (lr_level r)) (\<lambda>w. w\<lparr>wr_level := lr_level r\<rparr>) 4),
      keyed (Member ''msg'' (json_string True (lr_msg r)) (\<lambda>w. w\<lparr>wr_msg := sanitize (lr_msg r)\<rparr>) 8)] @
     present (lr_identity r \<noteq> []) (keyed (Member ''identity'' (json_list (map marshal_attestation (lr_identity r)))
       (\<lambda>w. w\<lparr>wr_identity := map wire_attestation_of (lr_identity r)\<rparr>) 16)) @
     present (lr_job r \<noteq> []) (keyed (Member ''job'' (json_string True (lr_job r)) (\<lambda>w. w\<lparr>wr_job := sanitize (lr_job r)\<rparr>) 32)) @
     present (lr_attrs r \<noteq> []) (keyed (Member ''attrs'' (marshal_map (lr_attrs r)) (\<lambda>w. w\<lparr>wr_attrs := read_attrs (lr_attrs r)\<rparr>) 64))"

lemma marshal_record_text: "marshal_record ts r = json_object (written (json_record ts r))"
  unfolding marshal_record_def json_object_def json_record_def json_list_def
  by (simp add: omitempty_present del: present_simps(2)) (simp add: present_def)

lemma record_of_stored:
  "lr_schema r \<noteq> 0 \<Longrightarrow> stored (map snd (json_record ts r)) zero_record = wire_of ts r"
  unfolding json_record_def wire_of_def zero_record_def
  by (simp add: wire_record.defs read_attrs_def sorted_map_def sortedKeys_def split: if_splits)

lemma json_record_flags:
  "distinct_flags (map snd (json_record ts r))" "flags (map snd (json_record ts r)) AND 15 = 15"
  by (simp_all add: json_record_def distinct_flags_def sorted_wrt_append ball_Un)

lemma timestamp_json:
  "rest q = json_string True ts @ u \<Longrightarrow> stamp_ok ts \<Longrightarrow> timestamp q = Inr (ts, to q u)"
  by (simp add: timestamp_def str_json stamp_ok_def sanitize_valid)

lemma identity_json:
  assumes "rest q = json_list (map marshal_attestation as) @ u" "r_depth q + 1 < depthLimit" "as \<noteq> []"
  shows "decode_list identity_loop q = Inr (map wire_attestation_of as, to q u)"
  using assms
  by (intro identity.decode_json_list [of q marshal_attestation as u])
    (auto simp: attestation_json marshal_attestation_text json_object_def)

lemma json_record_reads:
  assumes "stamp_ok ts" "n + 1 < depthLimit"
  shows "\<forall>e \<in> set (json_record ts r). reads_json record_field n e"
  using assms unfolding json_record_def
  by (simp add: ball_Un) (intro conjI impI; rule reads_keyed;
    simp add: record_field_def once_def reads_back timestamp_json identity_json strMap_json marshal_map_text)

subsection \<open>Lines\<close>

lemma decodeRecord_json:
  assumes "rest q = marshal_record ts r @ u" "stamp_ok ts" "lr_schema r \<noteq> 0" "r_depth q + 2 < depthLimit"
  shows "decodeRecord q = (if wr_schema (wire_of ts r) = 1 then Inr (wire_of ts r, to q u) else Inl (refuse (to q u) ''bad_schema''))"
proof -
  have "json_record ts r \<noteq> []" by (simp add: json_record_def)
  then have "decode_object record_loop 15 zero_record q = Inr (wire_of ts r, to q u)"
    using wire_record.decode_json [of q "json_record ts r" u 15 zero_record] json_record_reads [of ts "r_depth q + 1" r]
      json_record_flags [of ts r] record_of_stored [of r ts] assms
    by (simp add: marshal_record_text)
  then show ?thesis by (simp add: decodeRecord_def)
qed

lemma wire_of_schema: "wire_of ts (if lr_schema r = 0 then r\<lparr>lr_schema := SchemaVersion\<rparr> else r) = wire_of ts r"
  by (simp add: wire_of_def SchemaVersion_def)

lemma json_line_read:
  assumes "Encode_record T r = Inr line" "T (lr_time r) = Inr ts" "stamp_ok ts"
  shows "Decode line =
    (if lr_schema r = 0 \<or> lr_schema r = 1 then Inr (wire_of ts r) else Inl (Refusal ''bad_schema'' (length line - 1)))"
proof -
  let ?r = "if lr_schema r = 0 then r\<lparr>lr_schema := SchemaVersion\<rparr> else r"
  have line: "line = marshal_record ts ?r @ [LF]" using assms(1,2) by (auto simp: Encode_record_def Let_def split: if_splits)
  let ?q = "fresh_reader line"
  have q: "rest ?q = marshal_record ts ?r @ [LF]" using line by simp
  have w: "ws ?q = ?q" by (rule ws_none [OF q]) (simp add: marshal_record_text)
  have d: "decodeRecord ?q = (if wr_schema (wire_of ts ?r) = 1 then Inr (wire_of ts ?r, to ?q [LF])
      else Inl (refuse (to ?q [LF]) ''bad_schema''))"
    by (rule decodeRecord_json [OF q assms(3)]) (simp_all add: SchemaVersion_def fresh_reader_def depthLimit_def)
  have "rest (to ?q [LF]) = [LF]" by (rule rest_to [OF q])
  then have t: "r_pos (ws (to ?q [LF])) = length (r_buf (ws (to ?q [LF])))"
    by (rule ws_trailing) simp_all
  have p: "r_pos (to ?q [LF]) = length line - 1" by (simp add: to_def fresh_reader_def)
  have c: "wr_schema (wire_of ts ?r) = 1 \<longleftrightarrow> lr_schema r = 0 \<or> lr_schema r = 1"
    by (simp add: wire_of_def SchemaVersion_def)
  show ?thesis
  proof (cases "lr_schema r = 0 \<or> lr_schema r = 1")
    case True
    then have "decodeRecord ?q = Inr (wire_of ts r, to ?q [LF])" using d c wire_of_schema [of ts r] by simp
    then show ?thesis using True t by (simp add: Decode_def Let_def w)
  next
    case False
    then have "decodeRecord ?q = Inl (Refusal ''bad_schema'' (length line - 1))" using d c p by (simp add: refuse_def)
    then show ?thesis using False by (simp add: Decode_def Let_def w)
  qed
qed

text \<open>
  C8: Of the lines \<^verbatim>\<open>Record.Encode\<close> writes, \<^verbatim>\<open>Decode\<close> of the wire codec accepts exactly those of
  this schema (a record without one is written as of this one), as long as the instant's text is a
  timestamp the wire codec can spell; and what comes back is the record written: instant, level, hops
  in order and key order of the attributes, and every text as it was, ill-formed UTF-8 replaced.  A
  line of another schema is refused for it, at its end.  Two encoders and their readers, the standard
  library's and the generated one, agree on the file.
\<close>

theorem json_line_decodes:
  assumes "Encode_record T r = Inr line" "T (lr_time r) = Inr ts" "stamp_ok ts"
  shows "Decode line =
    (if lr_schema r = 0 \<or> lr_schema r = 1 then Inr (wire_of ts r) else Inl (Refusal ''bad_schema'' (length line - 1)))"
  by (rule json_line_read [OF assms])

subsection \<open>Witness\<close>

text \<open>A record with a hop, attributes out of order, markup and a byte that is not UTF-8.\<close>

definition sample_written :: "string log_record" where
  "sample_written =
     \<lparr>lr_schema = 0, lr_time = ''2026-05-01T10:00:00.5Z'', lr_level = 4, lr_msg = ''a <b> '' @ [CHR 0xFF],
      lr_identity = [\<lparr>at_by = ''log'', at_verified = True, at_hop = 1, at_program = ''app'', at_host = [], at_user = [],
        at_exe = [], at_uid = 1000, at_gid = 1000, at_pid = 7, at_key = [], at_mac = []\<rparr>],
      lr_job = [], lr_attrs = [(''b'', ''2''), (''a'', ''1'')]\<rparr>"

theorem json_line_decodes_witness:
  "\<exists>line later. Encode_record Inr sample_written = Inr line
    \<and> Decode line = Inr (wire_of ''2026-05-01T10:00:00.5Z'' sample_written)
    \<and> Encode_record Inr (sample_written\<lparr>lr_schema := 2\<rparr>) = Inr later
    \<and> Decode later = Inl (Refusal ''bad_schema'' (length later - 1))"
proof -
  have "stamp_ok ''2026-05-01T10:00:00.5Z''" by code_simp
  then have ok: "stamp_ok (lr_time sample_written)" by (simp add: sample_written_def)
  have same: "lr_schema sample_written = 0" "lr_time sample_written = ''2026-05-01T10:00:00.5Z''" by (simp_all add: sample_written_def)
  obtain line later where l: "Encode_record Inr sample_written = Inr line" "Encode_record Inr (sample_written\<lparr>lr_schema := 2\<rparr>) = Inr later"
    by (simp add: Encode_record_def Let_def)
  have "Decode line = Inr (wire_of ''2026-05-01T10:00:00.5Z'' sample_written)"
    using json_line_decodes [OF l(1), of "lr_time sample_written"] ok same by simp
  moreover have "Decode later = Inl (Refusal ''bad_schema'' (length later - 1))"
    using json_line_decodes [OF l(2), of "lr_time sample_written"] ok by simp
  ultimately show ?thesis using l by blast
qed

end
