(* ===== verification/Sinks.thy ===== *)
theory Sinks
  imports Log_Record
begin

text \<open>
  \<^verbatim>\<open>go/sink.go\<close>: the \<^verbatim>\<open>Sink\<close> interface, the sinks made of others, and the
  contract an append-only sink keeps.  A sink is a state transformer: what it does to the
  world and the error it returns.
\<close>

subsection \<open>Errors a sink returns\<close>

text \<open>\<open>RuntimePanic\<close> stands for a Go run-time panic inside the call.\<close>

datatype sink_error =
    EncodeError wire_error
  | ErrLineCap int
  | SystemError string
  | ErrQueueFull
  | ErrSinkClosed
  | ErrWriteTimeout
  | Canceled
  | RuntimePanic string

type_synonym ('r, 'w) sink = "'r \<Rightarrow> 'w \<Rightarrow> 'w \<times> sink_error option"

definition DiscardSink :: "('r, 'w) sink" where
  "DiscardSink r w = (w, None)"

fun MultiSink_loop :: "('r, 'w) sink list \<Rightarrow> 'r \<Rightarrow> 'w \<Rightarrow> sink_error option \<Rightarrow> 'w \<times> sink_error option" where
  "MultiSink_loop [] r w first = (w, first)"
| "MultiSink_loop (s # ss) r w first =
     (case s r w of (w', err) \<Rightarrow>
        MultiSink_loop ss r w' (if err \<noteq> None \<and> first = None then err else first))"

definition MultiSink :: "('r, 'w) sink list \<Rightarrow> ('r, 'w) sink" where
  "MultiSink ss r w = MultiSink_loop ss r w None"

subsection \<open>What an append-only sink promises\<close>

text \<open>
  A write keeps the sink's invariant and only adds at the end of what a reader of the sink
  sees.  Whatever was seen once is seen again at the same place after any writes.
\<close>

fun write_all :: "('r, 'w) sink \<Rightarrow> 'r list \<Rightarrow> 'w \<Rightarrow> 'w" where
  "write_all f [] w = w"
| "write_all f (r # rs) w = write_all f rs (fst (f r w))"

locale append_only =
  fixes put :: "'r \<Rightarrow> 'w \<Rightarrow> 'w \<times> sink_error option"
    and seen :: "'w \<Rightarrow> 'b list"
    and ok :: "'w \<Rightarrow> bool"
  assumes ok_write: "ok w \<Longrightarrow> ok (fst (put r w))"
    and appends: "ok w \<Longrightarrow> prefix (seen w) (seen (fst (put r w)))"
begin

lemma ok_write_all: "ok w \<Longrightarrow> ok (write_all put rs w)"
  by (induction rs arbitrary: w) (simp_all add: ok_write)

lemma write_all_appends: "ok w \<Longrightarrow> prefix (seen w) (seen (write_all put rs w))"
proof (induction rs arbitrary: w)
  case (Cons r rs)
  then have "prefix (seen (fst (put r w))) (seen (write_all put rs (fst (put r w))))"
    by (intro Cons.IH) (rule ok_write)
  then show ?case using appends [OF Cons.prems, of r] by (auto intro: prefix_order.trans)
qed simp

lemma seen_stays:
  assumes "ok w" "k \<le> length (seen w)"
  shows "take k (seen (write_all put rs w)) = take k (seen w)"
  using write_all_appends [OF assms(1), of rs] assms(2) by (auto elim!: prefixE)

end

subsection \<open>Sinks of their own\<close>

text \<open>
  Several sinks in one world: the state of each at its index.  \<open>own i f\<close> is the sink \<open>f\<close> on
  the state at \<open>i\<close>.
\<close>

definition own :: "nat \<Rightarrow> ('r, 's) sink \<Rightarrow> ('r, 's list) sink" where
  "own i f r w = (w[i := fst (f r (w ! i))], snd (f r (w ! i)))"

lemma MultiSink_loop_own:
  assumes "length w = n + length fs"
  shows "MultiSink_loop (map (\<lambda>(i, f). own i f) (zip [n..<n + length fs] fs)) r w first =
    (take n w @ map2 (\<lambda>f s. fst (f r s)) fs (drop n w),
     if first \<noteq> None then first
     else case List.find (\<lambda>e. e \<noteq> None) (map2 (\<lambda>f s. snd (f r s)) fs (drop n w)) of None \<Rightarrow> None | Some e \<Rightarrow> e)"
  using assms
proof (induction fs arbitrary: n w first)
  case (Cons f fs)
  let ?s = "w ! n"
  let ?w = "w[n := fst (f r ?s)]"
  have up: "[n..<n + length (f # fs)] = n # [Suc n..<Suc n + length fs]"
    by (subst upt_conv_Cons) simp_all
  have d: "drop n w = ?s # drop (Suc n) w" using Cons.prems by (simp add: Cons_nth_drop_Suc)
  have t: "take (Suc n) ?w = take n w @ [fst (f r ?s)]" using Cons.prems
    by (simp add: take_Suc_conv_app_nth)
  let ?first = "if snd (f r ?s) \<noteq> None \<and> first = None then snd (f r ?s) else first"
  have l: "length ?w = Suc n + length fs" and d': "drop (Suc n) ?w = drop (Suc n) w"
    using Cons.prems by simp_all
  have "MultiSink_loop (map (\<lambda>(i, f). own i f) (zip [n..<n + length (f # fs)] (f # fs))) r w first =
      MultiSink_loop (map (\<lambda>(i, f). own i f) (zip [Suc n..<Suc n + length fs] fs)) r ?w ?first"
    by (simp only: up zip_Cons_Cons list.map MultiSink_loop.simps) (simp add: own_def)
  then show ?case
    by (simp only: Cons.IH [OF l] t d' d) auto
qed simp

text \<open>
  A failure in one sink does not stop the others: each of several sinks writes the record to
  its own state exactly as it would alone, and the error returned is the first one in order.
\<close>

theorem multisink_independent:
  fixes w :: "'s list" and fs :: "('r, 's) sink list"
  assumes "length w = length fs"
  shows "MultiSink (map2 own [0..<length fs] fs) r w =
    (map2 (\<lambda>f s. fst (f r s)) fs w,
     case List.find (\<lambda>e. e \<noteq> None) (map2 (\<lambda>f s. snd (f r s)) fs w) of None \<Rightarrow> None | Some e \<Rightarrow> e)"
  using MultiSink_loop_own [of w 0 fs r None] assms by (simp add: MultiSink_def)

text \<open>The first sink refuses, the second keeps the record.\<close>

theorem multisink_independent_witness:
  "MultiSink (map2 own [0..<2] [\<lambda>r s. (s, Some ErrQueueFull), \<lambda>r s. (s @ [r], None)]) (7::nat) [[1], [2]] =
    ([[1], [2, 7]], Some ErrQueueFull)"
  using multisink_independent [of "[[1], [2]]" "[\<lambda>r s. (s, Some ErrQueueFull), \<lambda>r s. (s @ [r], None)]" "7::nat"]
  by (simp add: numeral_2_eq_2)

end
