(* ===== verification/Slog_Handler.thy ===== *)
theory Slog_Handler
  imports Provenance Sinks
begin

text \<open>
  \<^verbatim>\<open>go/slog.go\<close>: the handler that turns records of \<^verbatim>\<open>log/slog\<close> into records of
  this package, and the slice of group names all records of one handler share.
\<close>

subsection \<open>Attributes\<close>

text \<open>
  An attribute of \<^verbatim>\<open>log/slog\<close>: a value of kind group with its members, or any other value with
  what \<^verbatim>\<open>fmt.Sprint\<close> says of it.
\<close>

datatype attr = Scalar string string | Group string "attr list"

text \<open>The key with its groups in front of it, from the innermost outwards.\<close>

definition dotted :: "string list \<Rightarrow> string \<Rightarrow> string" where
  "dotted groups k = foldr (\<lambda>g key. g @ ''.'' @ key) groups k"

fun put :: "strings \<Rightarrow> string list \<Rightarrow> attr \<Rightarrow> strings" where
  "put dst groups (Scalar k text) = AList.update (dotted groups k) text dst"
| "put dst groups (Group k members) = fold (\<lambda>g dst. put dst (groups @ [k]) g) members dst"

subsection \<open>The handler\<close>

record options =
  op_program :: string
  op_level :: i64
  op_job :: string
  op_claim :: "attestation option"

text \<open>A sink that also takes a context is asked with it; \<open>'e\<close> is what a write returns.\<close>

datatype ('c, 't, 'w, 'e) handler_sink =
    Plain "'t log_record \<Rightarrow> 'w \<Rightarrow> 'w \<times> 'e"
  | With_context "'c \<Rightarrow> 't log_record \<Rightarrow> 'w \<Rightarrow> 'w \<times> 'e"

record ('c, 't, 'w, 'e) handler =
  hd_sink :: "('c, 't, 'w, 'e) handler_sink"
  hd_opts :: options
  hd_attrs :: strings
  hd_groups :: "string list"

definition no_options :: options where
  "no_options = \<lparr>op_program = [], op_level = 0, op_job = [], op_claim = None\<rparr>"

definition NewHandler :: "('c, 't, 'w, 'e) handler_sink \<Rightarrow> options option \<Rightarrow> ('c, 't, 'w, 'e) handler" where
  "NewHandler s opts =
     \<lparr>hd_sink = s, hd_opts = (case opts of None \<Rightarrow> no_options | Some o' \<Rightarrow> o'), hd_attrs = [], hd_groups = []\<rparr>"

definition Enabled :: "('c, 't, 'w, 'e) handler \<Rightarrow> i64 \<Rightarrow> bool" where
  "Enabled h l \<longleftrightarrow> sint l \<ge> sint (op_level (hd_opts h))"

text \<open>The map copied in \<^verbatim>\<open>clone\<close> and \<^verbatim>\<open>Handle\<close> has the entries of the one copied.\<close>

definition clone :: "('c, 't, 'w, 'e) handler \<Rightarrow> ('c, 't, 'w, 'e) handler" where
  "clone h = \<lparr>hd_sink = hd_sink h, hd_opts = hd_opts h, hd_attrs = hd_attrs h, hd_groups = [] @ hd_groups h\<rparr>"

definition WithAttrs :: "attr list \<Rightarrow> ('c, 't, 'w, 'e) handler \<Rightarrow> ('c, 't, 'w, 'e) handler" where
  "WithAttrs as h =
     (let after = clone h in after\<lparr>hd_attrs := fold (\<lambda>a dst. put dst (hd_groups after) a) as (hd_attrs after)\<rparr>)"

definition WithGroup :: "string \<Rightarrow> ('c, 't, 'w, 'e) handler \<Rightarrow> ('c, 't, 'w, 'e) handler" where
  "WithGroup name h =
     (if name = [] then h else let after = clone h in after\<lparr>hd_groups := hd_groups after @ [name]\<rparr>)"

text \<open>
  A record of \<^verbatim>\<open>log/slog\<close>.  Times are the standard library's; \<open>At\<close> makes the instant of a
  record, \<open>zero\<close> is \<^verbatim>\<open>IsZero\<close> and \<open>now\<close> the clock; \<open>host\<close> and \<open>pid\<close> are the system's answers
  \<^const>\<open>Claim\<close> uses.
\<close>

record 'm slog_record =
  sr_time :: 'm
  sr_level :: i64
  sr_message :: string
  sr_attrs :: "attr list"

definition handled ::
  "string \<Rightarrow> i64 \<Rightarrow> ('m \<Rightarrow> 't) \<Rightarrow> ('m \<Rightarrow> bool) \<Rightarrow> 'm \<Rightarrow> ('c, 't, 'w, 'e) handler \<Rightarrow> 'm slog_record \<Rightarrow> 't log_record" where
  "handled host pid At zero now h r =
     (let claim = (case op_claim (hd_opts h) of None \<Rightarrow> Claim host pid (op_program (hd_opts h)) | Some c \<Rightarrow> c);
          time = (if zero (sr_time r) then At now else At (sr_time r));
          attrs = fold (\<lambda>a dst. put dst (hd_groups h) a) (sr_attrs r) (hd_attrs h)
      in \<lparr>lr_schema = SchemaVersion, lr_time = time, lr_level = sr_level r, lr_msg = sr_message r,
          lr_identity = [claim], lr_job = op_job (hd_opts h), lr_attrs = attrs\<rparr>)"

definition Handle ::
  "string \<Rightarrow> i64 \<Rightarrow> ('m \<Rightarrow> 't) \<Rightarrow> ('m \<Rightarrow> bool) \<Rightarrow> 'm \<Rightarrow> ('c, 't, 'w, 'e) handler \<Rightarrow> 'c \<Rightarrow> 'm slog_record \<Rightarrow> 'w
    \<Rightarrow> 'w \<times> 'e" where
  "Handle host pid At zero now h ctx r w =
     (let rec = handled host pid At zero now h r
      in case hd_sink h of With_context f \<Rightarrow> f ctx rec w | Plain f \<Rightarrow> f rec w)"

subsection \<open>Flattening as a list of leaves\<close>

fun leaves :: "string list \<Rightarrow> attr \<Rightarrow> strings" where
  "leaves groups (Scalar k text) = [(dotted groups k, text)]"
| "leaves groups (Group k members) = concat (map (leaves (groups @ [k])) members)"

definition updates :: "strings \<Rightarrow> strings \<Rightarrow> strings" where
  "updates kvs m = fold (\<lambda>(k, v). AList.update k v) kvs m"

lemma updates_append: "updates (xs @ ys) m = updates ys (updates xs m)"
  by (simp add: updates_def)

lemma updates_concat: "updates (concat (map f as)) m = fold (\<lambda>a. updates (f a)) as m"
  by (induction as arbitrary: m) (simp_all add: updates_append, simp add: updates_def)

lemma put_leaves: "put dst groups a = updates (leaves groups a) dst"
proof (induction dst groups a rule: put.induct)
  case (2 dst groups k members)
  have "fold (\<lambda>g dst. put dst (groups @ [k]) g) members dst = fold (\<lambda>a. updates (leaves (groups @ [k]) a)) members dst"
    by (rule fold_cong) (simp_all add: "2.IH" fun_eq_iff)
  then show ?case by (simp add: updates_concat)
qed (simp add: updates_def)

lemma map_of_updates: "map_of (updates kvs m) = map_of m ++ map_of (rev kvs)"
proof (induction kvs arbitrary: m)
  case (Cons p kvs)
  have "map_of (updates (p # kvs) m) = map_of (updates kvs (AList.update (fst p) (snd p) m))"
    by (simp add: updates_def split_beta)
  then show ?case using Cons [of "AList.update (fst p) (snd p) m"]
    by (auto simp: update_conv' map_add_def fun_eq_iff split: option.splits)
qed (simp add: updates_def)

lemma distinct_updates: "distinct (map fst m) \<Longrightarrow> distinct (map fst (updates kvs m))"
  by (induction kvs arbitrary: m) (auto simp: updates_def split_beta distinct_update)

text \<open>Calls that derive a handler, and the one attribute list they amount to.\<close>

datatype derivation = Attrs "attr list" | In_group string

fun derive :: "derivation list \<Rightarrow> ('c, 't, 'w, 'e) handler \<Rightarrow> ('c, 't, 'w, 'e) handler" where
  "derive [] h = h"
| "derive (Attrs as # ds) h = derive ds (WithAttrs as h)"
| "derive (In_group g # ds) h = derive ds (WithGroup g h)"

fun nest :: "derivation list \<Rightarrow> attr list \<Rightarrow> attr list" where
  "nest [] as = as"
| "nest (Attrs bs # ds) as = bs @ nest ds as"
| "nest (In_group g # ds) as = (if g = [] then nest ds as else [Group g (nest ds as)])"

lemma handled_nest:
  "fold (\<lambda>a dst. put dst (hd_groups (derive ds h)) a) as (hd_attrs (derive ds h))
    = fold (\<lambda>a dst. put dst (hd_groups h) a) (nest ds as) (hd_attrs h)"
  by (induction ds h rule: derive.induct) (simp_all add: WithAttrs_def WithGroup_def clone_def Let_def)

lemma fold_put: "fold (\<lambda>a dst. put dst groups a) as m = updates (concat (map (leaves groups) as)) m"
  by (simp add: updates_concat put_leaves)

lemma derive_opts [simp]: "hd_opts (derive ds h) = hd_opts h" "hd_sink (derive ds h) = hd_sink h"
  by (induction ds h rule: derive.induct) (simp_all add: WithAttrs_def WithGroup_def clone_def Let_def)

text \<open>
  C36: Whatever chain of WithAttrs and WithGroup made a handler, its record carries exactly the leaves
  of one nested attribute list, each under its dotted path and the last one of a key winning, in a map
  without repeated keys; level, message and job are the caller's, and the writer's claim is the only hop.
\<close>

theorem handler_flattens_nesting:
  "let rec = handled host pid At zero now (derive ds (NewHandler s opts)) r in
     map_of (lr_attrs rec) = map_of (rev (concat (map (leaves []) (nest ds (sr_attrs r)))))
     \<and> distinct (map fst (lr_attrs rec)) \<and> lr_level rec = sr_level r \<and> lr_msg rec = sr_message r
     \<and> length (lr_identity rec) = 1 \<and> lr_job rec = op_job (hd_opts (NewHandler s opts))"
proof -
  let ?h = "NewHandler s opts"
  have "hd_attrs ?h = []" "hd_groups ?h = []" by (simp_all add: NewHandler_def)
  then have "lr_attrs (handled host pid At zero now (derive ds ?h) r) = updates (concat (map (leaves []) (nest ds (sr_attrs r)))) []"
    using handled_nest [of ds ?h "sr_attrs r"] by (simp add: handled_def Let_def fold_put)
  then show ?thesis
    using distinct_updates [of "[]" "concat (map (leaves []) (nest ds (sr_attrs r)))"]
    by (simp add: map_of_updates handled_def Let_def)
qed

subsection \<open>The slice of group names\<close>

text \<open>
  A Go slice is a length within a backing array other slices may share; the store holds the backing
  arrays.  \<open>append_slice\<close> writes in place when the array has room behind the slice and copies
  otherwise; \<open>grow\<close> is the capacity the runtime gives a copy.
\<close>

record slice =
  sl_array :: nat
  sl_len :: nat

type_synonym store = "string list list"

definition contents :: "store \<Rightarrow> slice \<Rightarrow> string list" where
  "contents st s = take (sl_len s) (st ! sl_array s)"

definition valid_slice :: "store \<Rightarrow> slice \<Rightarrow> bool" where
  "valid_slice st s \<longleftrightarrow> sl_array s < length st \<and> sl_len s \<le> length (st ! sl_array s)"

definition append_slice :: "(nat \<Rightarrow> nat) \<Rightarrow> store \<Rightarrow> slice \<Rightarrow> string \<Rightarrow> slice \<times> store" where
  "append_slice grow st s x =
     (let i = sl_array s; n = sl_len s; array = st ! i in
      if n < length array then (s\<lparr>sl_len := n + 1\<rparr>, st[i := array[n := x]])
      else (\<lparr>sl_array = length st, sl_len = n + 1\<rparr>,
            st @ [contents st s @ [x] @ replicate (grow (length array) - (n + 1)) []]))"

text \<open>\<^verbatim>\<open>append([]string(nil), groups...)\<close> of \<^verbatim>\<open>clone\<close>, and then the name of \<^verbatim>\<open>WithGroup\<close>.\<close>

definition clone_slice :: "store \<Rightarrow> slice \<Rightarrow> slice \<times> store" where
  "clone_slice st s = (\<lparr>sl_array = length st, sl_len = sl_len s\<rparr>, st @ [contents st s])"

definition group_slice :: "(nat \<Rightarrow> nat) \<Rightarrow> string \<Rightarrow> slice \<times> store \<Rightarrow> slice \<times> store" where
  "group_slice grow name p = (case clone_slice (snd p) (fst p) of (s, st) \<Rightarrow> append_slice grow st s name)"

text \<open>
  What is left to do of a call of \<^verbatim>\<open>put\<close>, innermost first: a call on a slice, or the rest of the loop
  over the members of a group.  One step is one turn: an append, or a key read and stored.
\<close>

datatype work = Put slice attr | Members slice string "attr list"

type_synonym putting = "strings \<times> work list"

fun put_step :: "(nat \<Rightarrow> nat) \<Rightarrow> store \<Rightarrow> putting \<Rightarrow> (store \<times> putting) option" where
  "put_step grow st (dst, []) = None"
| "put_step grow st (dst, Put s (Scalar k text) # todo) = Some (st, AList.update (dotted (contents st s) k) text dst, todo)"
| "put_step grow st (dst, Put s (Group k members) # todo) = Some (st, dst, Members s k members # todo)"
| "put_step grow st (dst, Members s k [] # todo) = Some (st, dst, todo)"
| "put_step grow st (dst, Members s k (a # as) # todo) =
     (case append_slice grow st s k of (s', st') \<Rightarrow> Some (st', dst, Put s' a # Members s k as # todo))"

text \<open>A goroutine on its own, and two at once on one store: \<open>True\<close> is a turn of the first.\<close>

inductive put_runs :: "(nat \<Rightarrow> nat) \<Rightarrow> store \<times> putting \<Rightarrow> store \<times> putting \<Rightarrow> bool" for grow where
  stop: "put_runs grow c c"
| turn: "put_step grow st p = Some c \<Longrightarrow> put_runs grow c c' \<Longrightarrow> put_runs grow (st, p) c'"

fun interleave :: "(nat \<Rightarrow> nat) \<Rightarrow> bool list \<Rightarrow> store \<times> putting \<times> putting \<Rightarrow> (store \<times> putting \<times> putting) option" where
  "interleave grow [] c = Some c"
| "interleave grow (True # bs) (st, p, q) =
     (case put_step grow st p of None \<Rightarrow> None | Some (st', p') \<Rightarrow> interleave grow bs (st', p', q))"
| "interleave grow (False # bs) (st, p, q) =
     (case put_step grow st q of None \<Rightarrow> None | Some (st', q') \<Rightarrow> interleave grow bs (st', p, q'))"

lemma put_runs_trans: "put_runs grow a b \<Longrightarrow> put_runs grow b c \<Longrightarrow> put_runs grow a c"
  by (induction rule: put_runs.induct) (auto intro: put_runs.turn)

text \<open>What a call may change: new arrays, and the array of its slice behind the slice.\<close>

definition behind :: "slice \<Rightarrow> store \<Rightarrow> store \<Rightarrow> bool" where
  "behind s st st' \<longleftrightarrow> length st \<le> length st' \<and>
     (\<forall>i < length st. length (st' ! i) = length (st ! i)
        \<and> (if i = sl_array s then take (sl_len s) (st' ! i) = take (sl_len s) (st ! i) else st' ! i = st ! i))"

lemma behind_refl: "behind s st st"
  by (simp add: behind_def)

lemma behind_contents: "behind s st st' \<Longrightarrow> valid_slice st s \<Longrightarrow> contents st' s = contents st s \<and> valid_slice st' s"
  by (auto simp: behind_def contents_def valid_slice_def)

lemma behind_trans: "behind s st st' \<Longrightarrow> behind s st' st'' \<Longrightarrow> behind s st st''"
  by (auto simp: behind_def split: if_splits)

lemma append_slice_ok:
  assumes "valid_slice st s" "append_slice grow st s x = (s', st')"
  shows "valid_slice st' s' \<and> contents st' s' = contents st s @ [x] \<and> behind s st st'
    \<and> (\<forall>st''. behind s' st' st'' \<longrightarrow> behind s st st'')"
proof (cases "sl_len s < length (st ! sl_array s)")
  case True
  let ?i = "sl_array s" and ?n = "sl_len s"
  have e: "s' = s\<lparr>sl_len := ?n + 1\<rparr>" "st' = st[?i := (st ! ?i)[?n := x]]"
    using assms(2) True by (simp_all add: append_slice_def Let_def)
  have i: "?i < length st" using assms(1) by (simp add: valid_slice_def)
  have t: "take (?n + 1) ((st ! ?i)[?n := x]) = take ?n (st ! ?i) @ [x]"
    using True by (simp add: take_Suc_conv_app_nth)
  have b: "behind s st st'" using e i by (simp add: behind_def nth_list_update)
  have "behind s st st''" if h: "behind s' st' st''" for st''
  proof -
    have "take (?n + 1) (st'' ! ?i) = take (?n + 1) ((st ! ?i)[?n := x])"
      using h i unfolding e behind_def by (auto dest: spec [of _ ?i])
    then have "take ?n (take (?n + 1) (st'' ! ?i)) = take ?n (st ! ?i)" using t True by simp
    then have "take ?n (st'' ! ?i) = take ?n (st ! ?i)" by (simp add: min_def)
    then show ?thesis using h i unfolding e by (auto simp: behind_def nth_list_update split: if_splits)
  qed
  then show ?thesis using b t e i True by (simp add: valid_slice_def contents_def)
next
  case False
  let ?i = "sl_array s" and ?n = "sl_len s"
  have e: "s' = \<lparr>sl_array = length st, sl_len = ?n + 1\<rparr>"
    "st' = st @ [contents st s @ [x] @ replicate (grow (length (st ! ?i)) - (?n + 1)) []]"
    using assms(2) False by (simp_all add: append_slice_def Let_def)
  have "length (contents st s) = ?n" using assms(1) by (simp add: contents_def valid_slice_def)
  moreover have "behind s st st''" if "behind s' st' st''" for st''
    using that e by (auto simp: behind_def nth_append split: if_splits)
  moreover have "contents st' s' = take (?n + 1) (contents st s @ [x] @ replicate (grow (length (st ! ?i)) - (?n + 1)) [])"
    unfolding e by (simp add: contents_def nth_append)
  ultimately show ?thesis using e behind_refl [of s' st'] by (auto simp: valid_slice_def nth_append)
qed

lemma put_alone:
  assumes "valid_slice st s"
  shows "\<exists>st'. put_runs grow (st, dst, Put s a # todo) (st', put dst (contents st s) a, todo) \<and> behind s st st'"
  using assms
proof (induction a arbitrary: st s dst todo)
  case (Scalar k v)
  then show ?case by (auto intro!: exI [of _ st] behind_refl put_runs.turn put_runs.stop)
next
  case (Group k members)
  have "\<exists>st'. put_runs grow (st, dst, Members s k as # todo)
      (st', fold (\<lambda>g dst. put dst (contents st s @ [k]) g) as dst, todo) \<and> behind s st st'"
    if "set as \<subseteq> set members" "valid_slice st s" for as st dst
    using that
  proof (induction as arbitrary: st dst)
    case Nil
    then show ?case by (auto intro!: exI [of _ st] behind_refl put_runs.turn put_runs.stop)
  next
    case (Cons a as)
    obtain s1 st1 where ap: "append_slice grow st s k = (s1, st1)" by fastforce
    note ok = append_slice_ok [OF Cons.prems(2) ap]
    have "a \<in> set members" "valid_slice st1 s1" using Cons.prems(1) ok by auto
    from Group.IH [OF this, of dst "Members s k as # todo"] obtain st2 where st2:
      "put_runs grow (st1, dst, Put s1 a # Members s k as # todo) (st2, put dst (contents st1 s1) a, Members s k as # todo)"
      "behind s1 st1 st2" by blast
    have b: "behind s st st2" using ok st2(2) by blast
    note c = behind_contents [OF b Cons.prems(2)]
    from Cons.IH [of st2 "put dst (contents st1 s1) a"] Cons.prems(1) c obtain st3 where st3:
      "put_runs grow (st2, put dst (contents st1 s1) a, Members s k as # todo)
        (st3, fold (\<lambda>g dst. put dst (contents st2 s @ [k]) g) as (put dst (contents st1 s1) a), todo)" "behind s st2 st3" by auto
    have "put_runs grow (st, dst, Members s k (a # as) # todo) (st2, put dst (contents st1 s1) a, Members s k as # todo)"
      by (rule put_runs.turn [OF _ st2(1)]) (simp add: ap)
    then have "put_runs grow (st, dst, Members s k (a # as) # todo)
        (st3, fold (\<lambda>g dst. put dst (contents st2 s @ [k]) g) as (put dst (contents st1 s1) a), todo)"
      by (rule put_runs_trans [OF _ st3(1)])
    moreover have "behind s st st3" by (rule behind_trans [OF b st3(2)])
    ultimately show ?case using ok c by auto
  qed
  from this [of members st dst] Group.prems obtain st' where
    "put_runs grow (st, dst, Members s k members # todo) (st', fold (\<lambda>g dst. put dst (contents st s @ [k]) g) members dst, todo)"
    "behind s st st'" by auto
  moreover have "put_step grow st (dst, Put s (Group k members) # todo) = Some (st, dst, Members s k members # todo)" by simp
  ultimately show ?case using put_runs.turn by (metis put.simps(2))
qed

subsection \<open>Properties of the shared slice\<close>

text \<open>
  C37: One record at a time, the appends on the handler's slice compute what the recursive description of
  \<^verbatim>\<open>put\<close> says, whatever room the arrays have, and leave the handler's own groups as they were.
\<close>

theorem put_in_place:
  assumes "valid_slice st s"
  shows "\<exists>st'. put_runs grow (st, dst, map (Put s) as) (st', fold (\<lambda>a dst. put dst (contents st s) a) as dst, [])
    \<and> contents st' s = contents st s"
  using assms
proof (induction as arbitrary: st dst)
  case Nil
  then show ?case by (auto intro: put_runs.stop)
next
  case (Cons a as)
  from put_alone [OF Cons.prems, of grow dst a "map (Put s) as"] obtain st1 where st1:
    "put_runs grow (st, dst, Put s a # map (Put s) as) (st1, put dst (contents st s) a, map (Put s) as)" "behind s st st1" by blast
  note c = behind_contents [OF st1(2) Cons.prems]
  from Cons.IH [of st1 "put dst (contents st s) a"] c obtain st2 where st2:
    "put_runs grow (st1, put dst (contents st s) a, map (Put s) as)
      (st2, fold (\<lambda>a dst. put dst (contents st s) a) as (put dst (contents st s) a), [])" "contents st2 s = contents st s" by auto
  then show ?case using put_runs_trans [OF st1(1) st2(1)] by (intro exI [of _ st2]) simp
qed

text \<open>A handler in three groups, each entered with WithGroup, and two records with a group each.\<close>

definition three_groups :: "(nat \<Rightarrow> nat) \<Rightarrow> slice \<times> store" where
  "three_groups grow = group_slice grow ''c'' (group_slice grow ''b'' (group_slice grow ''a'' (\<lparr>sl_array = 0, sl_len = 0\<rparr>, [[]])))"

text \<open>
  C38: Two goroutines that handle records on one handler can disturb each other.  On a handler in three
  groups, whose slice the runtime gave room behind them, both append the name of their record's group
  to the same place, and the attribute of the first record is filed under the group of the second.
\<close>

theorem shared_groups_race:
  assumes "grow 0 = 1" "grow 1 = 2" "3 < grow 2"
  shows "case three_groups grow of (s, st) \<Rightarrow>
    contents st s = [''a'', ''b'', ''c''] \<and>
    (\<exists>turns st' q. interleave grow turns (st, ([], [Put s (Group ''x'' [Scalar ''k'' ''1''])]), ([], [Put s (Group ''y'' [Scalar ''k'' ''2''])]))
       = Some (st', ([(''a.b.c.y.k'', ''1'')], []), q))
    \<and> put [] (contents st s) (Group ''x'' [Scalar ''k'' ''1'']) = [(''a.b.c.x.k'', ''1'')]"
proof -
  define m where "m = grow 2 - 4"
  have m: "grow 2 = Suc (Suc (Suc (Suc m)))" using assms(3) by (simp add: m_def)
  let ?st = "[[], [], [''a''], [''a''], [''a'', ''b''], [''a'', ''b''], [''a'', ''b'', ''c'', []] @ replicate m []]"
  have t: "three_groups grow = (\<lparr>sl_array = 6, sl_len = 3\<rparr>, ?st)"
    using assms(1,2) m
    by (simp add: three_groups_def group_slice_def clone_slice_def append_slice_def contents_def Let_def numeral_2_eq_2)
  let ?s = "\<lparr>sl_array = 6, sl_len = 3\<rparr>"
  have i: "\<exists>st' q. interleave grow [True, True, False, False, True, True]
      (?st, ([], [Put ?s (Group ''x'' [Scalar ''k'' ''1''])]), ([], [Put ?s (Group ''y'' [Scalar ''k'' ''2''])]))
      = Some (st', ([(''a.b.c.y.k'', ''1'')], []), q)"
    by (simp add: append_slice_def contents_def Let_def dotted_def)
  have c: "contents ?st ?s = [''a'', ''b'', ''c'']" by (simp add: contents_def)
  have p: "put [] [''a'', ''b'', ''c''] (Group ''x'' [Scalar ''k'' ''1'']) = [(''a.b.c.x.k'', ''1'')]" by (simp add: dotted_def)
  show ?thesis unfolding t prod.case c p using i by blast
qed

subsection \<open>Witnesses\<close>

theorem put_in_place_witness:
  "\<exists>st'. put_runs (\<lambda>n. 2 * n) ([[''a'', []]], [], map (Put \<lparr>sl_array = 0, sl_len = 1\<rparr>) [Group ''g'' [Scalar ''k'' ''v'']])
      (st', [(''a.g.k'', ''v'')], [])"
proof -
  let ?s = "\<lparr>sl_array = 0, sl_len = 1\<rparr>"
  have "valid_slice [[''a'', []]] ?s" "contents [[''a'', []]] ?s = [''a'']" by (simp_all add: valid_slice_def contents_def)
  moreover have "put [] [''a''] (Group ''g'' [Scalar ''k'' ''v'']) = [(''a.g.k'', ''v'')]" by (simp add: dotted_def)
  ultimately show ?thesis
    using put_in_place [of "[[''a'', []]]" ?s "\<lambda>n. 2 * n" "[]" "[Group ''g'' [Scalar ''k'' ''v'']]"] by auto
qed

text \<open>The runtime doubles a small slice.\<close>

theorem shared_groups_race_witness:
  "case three_groups (\<lambda>n. if n = 0 then 1 else 2 * n) of (s, st) \<Rightarrow>
    \<exists>turns st' q. interleave (\<lambda>n. if n = 0 then 1 else 2 * n) turns
        (st, ([], [Put s (Group ''x'' [Scalar ''k'' ''1''])]), ([], [Put s (Group ''y'' [Scalar ''k'' ''2''])]))
       = Some (st', ([(''a.b.c.y.k'', ''1'')], []), q)"
  using shared_groups_race [of "\<lambda>n. if n = 0 then 1 else 2 * n"] by (auto split: prod.splits)

end
