(* ===== verification/File_Sink.thy ===== *)
theory File_Sink
  imports Sinks
begin

text \<open>
  \<^verbatim>\<open>FileSink\<close> of \<^verbatim>\<open>go/sink.go\<close>: one line per record appended to a file shared
  by many writers, and the ladder that shrinks a record until its line fits the cap.  The
  file's bytes are part of the state; what the operating system does with one append (bytes
  taken, error) is the parameter \<open>W\<close>.  A Go channel that is closed to wake readers is a number,
  and \<open>fs_woken\<close> the closed ones.
\<close>

subsection \<open>State\<close>

record file_sink =
  fs_content :: string
  fs_max :: i64
  fs_epoch :: string
  fs_changed :: "nat option"
  fs_next :: nat
  fs_woken :: "nat list"
  fs_waiters :: int
  fs_historyClosed :: bool
  fs_open :: bool

definition DefaultMaxLine :: int where "DefaultMaxLine = 3800"

definition OpenFileSink :: "string \<Rightarrow> file_sink" where
  "OpenFileSink content =
     \<lparr>fs_content = content, fs_max = word_of_int DefaultMaxLine, fs_epoch = [], fs_changed = None,
      fs_next = 0, fs_woken = [], fs_waiters = 0, fs_historyClosed = False, fs_open = True\<rparr>"

subsection \<open>Shrinking\<close>

fun cut_back :: "string \<Rightarrow> nat \<Rightarrow> nat" where
  "cut_back s 0 = 0"
| "cut_back s (Suc n) = (if is_cont (s ! Suc n) then cut_back s n else Suc n)"

definition cut :: "string \<Rightarrow> int \<Rightarrow> string" where
  "cut s n0 =
     (let n = (if int (length s) \<le> n0 then int (length s) - 1 else n0)
      in if n < 0 then [] else take (cut_back s (nat n)) s)"

lemma cut_back_le: "cut_back s n \<le> n"
  by (induction n) auto

lemma length_cut:
  assumes "s \<noteq> []"
  shows "length (cut s n) < length s"
proof -
  let ?n = "if int (length s) \<le> n then int (length s) - 1 else n"
  have "?n < int (length s)" "0 < length s" using assms by simp_all
  then have "nat ?n < length s" by linarith
  then have "cut_back s (nat ?n) < length s" using cut_back_le [of s "nat ?n"] by linarith
  then show ?thesis using assms by (simp add: cut_def Let_def)
qed

definition frame :: "('t \<Rightarrow> wire_error + string) \<Rightarrow> 't log_record \<Rightarrow> sink_error + nat" where
  "frame T r =
     (case Encode_record T (r\<lparr>lr_msg := []\<rparr>) of Inl e \<Rightarrow> Inl (EncodeError e) | Inr b \<Rightarrow> Inr (length b))"

definition narrows :: "('t \<Rightarrow> wire_error + string) \<Rightarrow> 't log_record \<Rightarrow> 't log_record \<Rightarrow> sink_error + bool" where
  "narrows T a b =
     (case frame T a of Inl e \<Rightarrow> Inl e
      | Inr x \<Rightarrow> (case frame T b of Inl e \<Rightarrow> Inl e | Inr y \<Rightarrow> Inr (x < y)))"

definition marked :: "strings \<Rightarrow> string \<Rightarrow> string \<Rightarrow> strings" where
  "marked attrs key val = AList.update key val attrs"

definition Itoa :: "nat \<Rightarrow> string" where
  "Itoa n = decimal (of_nat n)"

text \<open>The closure \<^verbatim>\<open>shed\<close> of \<^verbatim>\<open>degraded\<close>: the stages so far and the record last kept.\<close>

definition shed ::
  "('t \<Rightarrow> wire_error + string) \<Rightarrow> 't log_record \<Rightarrow> 't log_record list \<times> 't log_record
    \<Rightarrow> sink_error + 't log_record list \<times> 't log_record" where
  "shed T next st =
     (case st of (stages, over) \<Rightarrow>
        (case narrows T next over of
           Inl e \<Rightarrow> Inl e
         | Inr narrower \<Rightarrow> (if narrower then Inr (stages @ [next], next) else Inr (stages, over))))"

definition first_stage :: "'t log_record \<Rightarrow> 't log_record" where
  "first_stage r =
     (let attrs = [(''logging.truncated'', ''true'')];
          n = length (lr_attrs r)
      in r\<lparr>lr_attrs := (if n > 0 then AList.update ''logging.dropped_attrs'' (Itoa n) attrs else attrs)\<rparr>)"

definition shed_job ::
  "('t \<Rightarrow> wire_error + string) \<Rightarrow> 't log_record list \<times> 't log_record
    \<Rightarrow> sink_error + 't log_record list \<times> 't log_record" where
  "shed_job T st =
     (let over = snd st in
      if lr_job over \<noteq> [] then
        shed T (over\<lparr>lr_job := [], lr_attrs := marked (lr_attrs over) ''logging.dropped_job'' ''true''\<rparr>) st
      else Inr st)"

definition shed_identity ::
  "('t \<Rightarrow> wire_error + string) \<Rightarrow> 't log_record list \<times> 't log_record
    \<Rightarrow> sink_error + 't log_record list \<times> 't log_record" where
  "shed_identity T st =
     (let over = snd st in
      if lr_identity over \<noteq> [] then
        shed T (over\<lparr>lr_attrs := marked (lr_attrs over) ''logging.dropped_hops'' (Itoa (length (lr_identity over))),
          lr_identity := []\<rparr>) st
      else Inr st)"

definition degraded :: "('t \<Rightarrow> wire_error + string) \<Rightarrow> 't log_record \<Rightarrow> sink_error + 't log_record list" where
  "degraded T r =
     (case shed_job T ([first_stage r], first_stage r) of
        Inl e \<Rightarrow> Inl e
      | Inr st \<Rightarrow> (case shed_identity T st of Inl e \<Rightarrow> Inl e | Inr (stages, _) \<Rightarrow> Inr stages))"

function shrunk :: "('t \<Rightarrow> wire_error + string) \<Rightarrow> 't log_record \<Rightarrow> int \<Rightarrow> sink_error + string option" where
  "shrunk T over cap =
     (case Encode_record T over of
        Inl e \<Rightarrow> Inl (EncodeError e)
      | Inr b \<Rightarrow>
          (if int (length b) \<le> cap then Inr (Some b)
           else if lr_msg over = [] then Inr None
           else shrunk T (over\<lparr>lr_msg := cut (lr_msg over) (int (length (lr_msg over) div 2))\<rparr>) cap))"
  by pat_completeness auto
termination
  by (relation "measure (\<lambda>(T, r, cap). length (lr_msg r))") (auto intro: length_cut)

declare shrunk.simps [simp del]

fun try_stages :: "('t \<Rightarrow> wire_error + string) \<Rightarrow> 't log_record list \<Rightarrow> int \<Rightarrow> sink_error + string" where
  "try_stages T [] cap = Inl (ErrLineCap cap)"
| "try_stages T (over # stages) cap =
     (case shrunk T over cap of
        Inl e \<Rightarrow> Inl e
      | Inr (Some b) \<Rightarrow> Inr b
      | Inr None \<Rightarrow> try_stages T stages cap)"

definition truncated :: "('t \<Rightarrow> wire_error + string) \<Rightarrow> 't log_record \<Rightarrow> int \<Rightarrow> sink_error + string" where
  "truncated T r cap =
     (case degraded T r of Inl e \<Rightarrow> Inl e | Inr stages \<Rightarrow> try_stages T stages cap)"

subsection \<open>Writing\<close>

definition line_cap :: "i64 \<Rightarrow> int" where
  "line_cap m = (if sint m \<le> 0 then DefaultMaxLine else sint m)"

definition file_line :: "('t \<Rightarrow> wire_error + string) \<Rightarrow> i64 \<Rightarrow> 't log_record \<Rightarrow> sink_error + string" where
  "file_line T m r =
     (case Encode_record T r of
        Inl e \<Rightarrow> Inl (EncodeError e)
      | Inr b \<Rightarrow> (if int (length b) > line_cap m then truncated T r (line_cap m) else Inr b))"

text \<open>Closing a closed channel panics.\<close>

definition close_channel :: "nat \<Rightarrow> file_sink \<Rightarrow> file_sink option" where
  "close_channel c s = (if c \<in> set (fs_woken s) then None else Some (s\<lparr>fs_woken := c # fs_woken s\<rparr>))"

definition make_channel :: "file_sink \<Rightarrow> file_sink" where
  "make_channel s = s\<lparr>fs_changed := Some (fs_next s), fs_next := fs_next s + 1\<rparr>"

definition FileSink_Write ::
  "('t \<Rightarrow> wire_error + string) \<Rightarrow> (string \<Rightarrow> nat \<times> string option) \<Rightarrow> ('t log_record, file_sink) sink" where
  "FileSink_Write T W r s =
     (case file_line T (fs_max s) r of
        Inl e \<Rightarrow> (s, Some e)
      | Inr b \<Rightarrow>
          (let (n, err) = (if fs_open s then W b else (0, Some ''file already closed''));
               s1 = s\<lparr>fs_content := fs_content s @ take n b\<rparr>;
               result = map_option SystemError err
           in case (if n > 0 then fs_changed s1 else None) of
                None \<Rightarrow> (s1, result)
              | Some c \<Rightarrow>
                  (case close_channel c s1 of
                     None \<Rightarrow> (s1, Some (RuntimePanic ''close of closed channel''))
                   | Some s2 \<Rightarrow> (make_channel s2, result))))"

definition FileSink_Close :: "string option \<Rightarrow> file_sink \<Rightarrow> file_sink \<times> sink_error option" where
  "FileSink_Close err s =
     (let closed = (\<lambda>s. if fs_open s then (s\<lparr>fs_open := False\<rparr>, map_option SystemError err)
                        else (s, Some (SystemError ''file already closed'')))
      in if fs_historyClosed s then closed s
         else
           let s1 = s\<lparr>fs_historyClosed := True\<rparr>
           in case fs_changed s1 of
                None \<Rightarrow> closed s1
              | Some c \<Rightarrow>
                  (case close_channel c s1 of
                     None \<Rightarrow> (s1, Some (RuntimePanic ''close of closed channel''))
                   | Some s2 \<Rightarrow> closed s2))"

subsection \<open>One line\<close>

text \<open>The encoding of a record holds no line feed but the one that ends it.\<close>

lemma decimal_no_LF [simp]: "LF \<notin> set (decimal n)"
proof -
  have "LF \<notin> set (num_loop u [])" for u
    using num_loop_digits [of u] by (auto simp: list_all_iff is_digit_def bv_def)
  then show ?thesis by (simp add: decimal_def num_def Let_def)
qed

lemma hex_digit_no_LF: "n < 16 \<Longrightarrow> hex_digits ! n \<noteq> LF"
proof -
  have "list_all (\<lambda>n. hex_digits ! n \<noteq> LF) [0..<16]" by code_simp
  then show "n < 16 \<Longrightarrow> hex_digits ! n \<noteq> LF" by (simp add: list_all_iff)
qed

lemma json_ascii_no_LF: "LF \<notin> set (json_ascii html c)"
proof -
  have "bv c div 16 < 16" "bv c mod 16 < 16" using bv_less_256 [of c] by linarith+
  then have h: "hex_digits ! (bv c div 16) \<noteq> LF" "hex_digits ! (bv c mod 16) \<noteq> LF"
    by (simp_all only: hex_digit_no_LF not_False_eq_True)
  show ?thesis unfolding json_ascii_def
    by (simp only: split: if_split) (use h in simp)
qed

lemma bv_LF [simp]: "bv LF = 10"
  by (simp add: bv_def)

lemma decode_rune_no_LF:
  assumes "decode_rune (c # cs) = Some (cp, n)" "\<not> bv c < 0x80"
  shows "LF \<notin> set (take n (c # cs))"
proof -
  have "list_all is_cont (take (n - 1) cs)" "0 < n"
    using assms by (auto simp: decode_rune_def Let_def utf8_lead_def split: option.splits if_splits)
  then have "LF \<notin> set (take (n - 1) cs)" by (auto simp: list_all_iff is_cont_def)
  then show ?thesis using \<open>0 < n\<close> assms(2) by (auto simp: take_Cons')
qed

lemma json_chars_no_LF [simp]: "LF \<notin> set (json_chars html s)"
proof (induction html s rule: json_chars.induct)
  case (2 html c cs)
  have dr: "decode_rune (c # cs) = Some (cp, n) \<Longrightarrow> \<not> bv c < 0x80 \<Longrightarrow> n > 0" for cp n
    by (auto simp: decode_rune_def Let_def utf8_lead_def split: option.splits if_splits)
  consider "bv c < 0x80" | "\<not> bv c < 0x80" "decode_rune (c # cs) = None"
    | cp n where "\<not> bv c < 0x80" "decode_rune (c # cs) = Some (cp, n)"
    by (metis option.exhaust surj_pair)
  then show ?case
  proof cases
    case 1
    then show ?thesis using "2.IH"(1) json_ascii_no_LF [of html c] by (simp add: json_chars.simps(2))
  next
    case 2
    then show ?thesis using "2.IH"(2) by (simp add: json_chars.simps(2))
  next
    case 3
    have "LF \<notin> set (json_chars html (drop (n - 1) cs))"
      using "2.IH"(3) [OF 3 refl] "2.IH"(4) [OF 3 refl] by blast
    then show ?thesis using 3 decode_rune_no_LF [OF 3(2,1)] hex_digit_no_LF [of "cp mod 16"]
      by (simp add: json_chars.simps(2))
  qed
qed (simp add: json_chars.simps)

lemma json_string_no_LF [simp]: "LF \<notin> set (json_string html s)"
  by (simp add: json_string_def)

lemma joined_no_LF: "\<forall>x \<in> set xs. LF \<notin> set x \<Longrightarrow> LF \<notin> set (joined xs)"
  by (induction xs rule: joined.induct) auto

lemma field_no_LF [simp]: "LF \<in> set (json_field html k x) \<longleftrightarrow> LF \<in> set x"
  by (simp add: json_field_def)

lemma bool_no_LF [simp]: "LF \<notin> set (json_bool b)"
  by (simp add: json_bool_def)

lemma omitempty_no_LF: "x \<in> set (omitempty k s) \<Longrightarrow> LF \<notin> set x"
  by (auto simp: omitempty_def split: if_splits)

lemma marshal_attestation_no_LF [simp]: "LF \<notin> set (marshal_attestation a)"
  unfolding marshal_attestation_def
  by (auto dest!: omitempty_no_LF joined_no_LF [THEN notE, rotated])

lemma marshal_map_no_LF [simp]: "LF \<notin> set (marshal_map m)"
  unfolding marshal_map_def by (auto dest!: joined_no_LF [THEN notE, rotated])

lemma marshal_record_no_LF [simp]: "LF \<notin> set (marshal_record ts r)"
  unfolding marshal_record_def
  by (auto dest!: omitempty_no_LF joined_no_LF [THEN notE, rotated] split: if_splits)

definition one_line :: "string \<Rightarrow> bool" where
  "one_line b \<longleftrightarrow> b \<noteq> [] \<and> last b = LF \<and> LF \<notin> set (butlast b)"

lemma Encode_record_one_line: "Encode_record T r = Inr b \<Longrightarrow> one_line b"
  by (auto simp: Encode_record_def one_line_def Let_def split: sum.splits)

subsection \<open>Cutting and shrinking\<close>

lemma cut_back_start: "cut_back s n = 0 \<or> \<not> is_cont (s ! cut_back s n)"
  by (induction n) auto

lemma utf8_lead_width: "utf8_lead c = Some (n, cp) \<Longrightarrow> 2 \<le> n"
  by (auto simp: utf8_lead_def split: if_splits)

text \<open>Valid UTF-8 stays valid when it is cut in front of a byte that starts a character.\<close>

lemma utf8_take:
  "validUTF8 s \<Longrightarrow> k < length s \<Longrightarrow> k = 0 \<or> \<not> is_cont (s ! k) \<Longrightarrow> validUTF8 (take k s)"
proof (induction s arbitrary: k rule: validUTF8.induct)
  case (2 c cs)
  show ?case
  proof (cases k)
    case 0
    then show ?thesis by (simp add: validUTF8.simps)
  next
    case (Suc j)
    show ?thesis
    proof (cases "bv c < 0x80")
      case True
      then have "validUTF8 cs" using "2.prems"(1) by (simp add: validUTF8.simps(2))
      then have "validUTF8 (take j cs)" using "2.IH"(1) [OF True, of j] "2.prems"(2,3) Suc by simp
      then show ?thesis using True Suc by (simp add: validUTF8.simps(2))
    next
      case False
      then obtain n cp where l: "utf8_lead c = Some (n, cp)"
        using "2.prems"(1) by (cases "utf8_lead c") (auto simp: validUTF8.simps(2))
      then have n: "2 \<le> n" by (rule utf8_lead_width)
      let ?ks = "take (n - 1) cs"
      have v: "n \<le> length (c # cs)" "list_all is_cont ?ks"
        "utf8_scalar n (foldl (\<lambda>v k. v * 64 + bv k mod 64) cp ?ks)" "validUTF8 (drop (n - 1) cs)"
        using "2.prems"(1) False l by (auto simp: validUTF8.simps(2) Let_def split: if_splits)
      have nk: "n \<le> k"
      proof (rule ccontr)
        assume "\<not> n \<le> k"
        then have "j < n - 1" "j < length cs" using Suc v(1) by auto
        then have "is_cont (cs ! j)" using v(2) by (simp add: list_all_length)
        then show False using "2.prems"(3) Suc by simp
      qed
      have "validUTF8 (take (k - n) (drop (n - 1) cs))"
      proof (rule "2.IH"(2) [OF False l refl _ refl refl v(4)])
        show "\<not> length (c # cs) < n" using v(1) by simp
        show "k - n < length (drop (n - 1) cs)" using nk n "2.prems"(2) by simp
        show "k - n = 0 \<or> \<not> is_cont (drop (n - 1) cs ! (k - n))"
          using "2.prems"(3) nk n Suc v(1) by (auto simp: Suc_diff_le)
      qed
      moreover have "take (n - 1) (take j cs) = ?ks" "drop (n - 1) (take j cs) = take (k - n) (drop (n - 1) cs)"
        using nk n Suc by (auto simp: min_def drop_take)
      moreover have "\<not> length (c # take j cs) < n" using nk Suc "2.prems"(2) by simp
      ultimately show ?thesis using False l v(2,3) Suc by (simp add: validUTF8.simps(2) Let_def)
    qed
  qed
qed simp

lemma prefix_cut: "prefix (cut s n) s"
  by (simp add: cut_def Let_def take_is_prefix)

lemma cut_utf8:
  assumes "validUTF8 s"
  shows "validUTF8 (cut s n)"
proof (cases "s = []")
  case False
  let ?n = "nat (if int (length s) \<le> n then int (length s) - 1 else n)"
  have "(if int (length s) \<le> n then int (length s) - 1 else n) < int (length s)" "0 < length s"
    using False by simp_all
  then have "?n < length s" by linarith
  then have "cut_back s ?n < length s" using cut_back_le [of s ?n] by linarith
  then have "validUTF8 (take (cut_back s ?n) s)"
    by (rule utf8_take [OF assms]) (rule cut_back_start)
  then show ?thesis by (simp add: cut_def Let_def validUTF8.simps)
qed (simp add: cut_def validUTF8.simps)

lemma cut_half: "s \<noteq> [] \<Longrightarrow> length (cut s (int (length s div 2))) \<le> length s div 2"
  using cut_back_le [of s "length s div 2"]
  by (cases "length s") (simp_all add: cut_def Let_def)

text \<open>What the shrink loop returns: a line within the cap for the record with a shorter message,
  or nothing when even the empty message does not fit.\<close>

lemma length_joined: "length (joined xs) = sum_list (map length xs) + (length xs - 1)"
  by (induction xs rule: joined.induct) simp_all

lemma marshal_msg:
  "length (marshal_record ts r) = length (marshal_record ts (r\<lparr>lr_msg := []\<rparr>)) + length (json_chars True (lr_msg r))"
  unfolding marshal_record_def
  by (simp add: length_joined json_field_def json_string_def json_chars.simps(1))

lemma Encode_frame:
  assumes "Encode_record T r = Inr b"
  shows "\<exists>f. frame T r = Inr f \<and> f \<le> length b"
proof -
  let ?r = "if lr_schema r = 0 then r\<lparr>lr_schema := SchemaVersion\<rparr> else r"
  obtain ts where ts: "T (lr_time r) = Inr ts" and b: "b = marshal_record ts ?r @ [LF]"
    using assms by (auto simp: Encode_record_def Let_def split: sum.splits if_splits)
  then show ?thesis using marshal_msg [of ts ?r]
    by (cases r; cases "lr_schema r = 0") (simp_all add: frame_def Encode_record_def)
qed

lemma Encode_record_Inr: "(\<exists>b. Encode_record T r = Inr b) \<longleftrightarrow> (\<exists>ts. T (lr_time r) = Inr ts)"
  by (auto simp: Encode_record_def Let_def split: sum.splits)

lemma Encode_record_Inl: "Encode_record T r = Inl e \<longleftrightarrow> T (lr_time r) = Inl e"
  by (auto simp: Encode_record_def Let_def split: sum.splits)

lemma shrunk_fits:
  assumes "shrunk T r cap = Inr (Some b)"
  shows "\<exists>msg. prefix msg (lr_msg r) \<and> (validUTF8 (lr_msg r) \<longrightarrow> validUTF8 msg)
    \<and> Encode_record T (r\<lparr>lr_msg := msg\<rparr>) = Inr b \<and> int (length b) \<le> cap"
  using assms
proof (induction T r cap rule: shrunk.induct)
  case (1 T r cap)
  from "1.prems" obtain b' where e: "Encode_record T r = Inr b'"
    by (subst (asm) shrunk.simps) (auto split: sum.splits)
  let ?cut = "cut (lr_msg r) (int (length (lr_msg r) div 2))"
  consider "int (length b') \<le> cap" "b' = b"
    | "\<not> int (length b') \<le> cap" "lr_msg r \<noteq> []" "shrunk T (r\<lparr>lr_msg := ?cut\<rparr>) cap = Inr (Some b)"
    using "1.prems" e by (subst (asm) shrunk.simps) (auto split: if_splits)
  then show ?case
  proof cases
    case 1
    then show ?thesis using e by (intro exI [of _ "lr_msg r"]) simp
  next
    case 2
    from "1.IH" [OF e 2(1,2,3)] obtain msg where m: "prefix msg ?cut" "validUTF8 ?cut \<longrightarrow> validUTF8 msg"
      "Encode_record T (r\<lparr>lr_msg := msg\<rparr>) = Inr b" "int (length b) \<le> cap" by auto
    then show ?thesis using prefix_cut cut_utf8 by (blast intro: prefix_order.trans)
  qed
qed

lemma shrunk_None:
  assumes "frame T r = Inr f"
  shows "shrunk T r cap = Inr None \<longleftrightarrow> cap < int f"
    and "\<exists>x. shrunk T r cap = Inr x"
proof -
  have "(shrunk T r cap = Inr None \<longleftrightarrow> cap < int f) \<and> (\<exists>x. shrunk T r cap = Inr x)"
    using assms
  proof (induction T r cap rule: shrunk.induct)
    case (1 T r cap)
    from "1.prems" obtain b where e: "Encode_record T r = Inr b"
      using Encode_record_Inr [of T r] Encode_record_Inr [of T "r\<lparr>lr_msg := []\<rparr>"]
      by (auto simp: frame_def split: sum.splits)
    have f: "f \<le> length b" using Encode_frame [OF e] "1.prems" by simp
    let ?cut = "cut (lr_msg r) (int (length (lr_msg r) div 2))"
    have fc: "frame T (r\<lparr>lr_msg := ?cut\<rparr>) = Inr f" using "1.prems" by (simp add: frame_def)
    consider "int (length b) \<le> cap" | "\<not> int (length b) \<le> cap" "lr_msg r = []"
      | "\<not> int (length b) \<le> cap" "lr_msg r \<noteq> []" by blast
    then show ?case
    proof cases
      case 1
      then show ?thesis using e f by (simp add: shrunk.simps)
    next
      case 2
      then have "r\<lparr>lr_msg := []\<rparr> = r" by (cases r) simp
      then have "f = length b" using "1.prems" e by (simp add: frame_def)
      then show ?thesis using e 2 by (simp add: shrunk.simps)
    next
      case 3
      then have "shrunk T r cap = shrunk T (r\<lparr>lr_msg := ?cut\<rparr>) cap" using e by (subst shrunk.simps) simp
      then show ?thesis using "1.IH" [OF e 3 fc] by simp
    qed
  qed
  then show "shrunk T r cap = Inr None \<longleftrightarrow> cap < int f" and "\<exists>x. shrunk T r cap = Inr x" by blast+
qed

subsection \<open>The ladder\<close>

lemma frame_Inr: "(\<exists>f. frame T r = Inr f) \<longleftrightarrow> (\<exists>ts. T (lr_time r) = Inr ts)"
  using Encode_record_Inr [of T "r\<lparr>lr_msg := []\<rparr>"] by (auto simp: frame_def split: sum.splits)

text \<open>What holds of the stages built so far and the record last kept.\<close>

definition says_truncated :: "'t log_record \<Rightarrow> bool" where
  "says_truncated r \<longleftrightarrow> map_of (lr_attrs r) ''logging.truncated'' = Some ''true''"

definition same_event :: "'t log_record \<Rightarrow> 't log_record \<Rightarrow> bool" where
  "same_event a b \<longleftrightarrow> lr_schema a = lr_schema b \<and> lr_time a = lr_time b \<and> lr_level a = lr_level b \<and> lr_msg a = lr_msg b"

definition ladder :: "('t \<Rightarrow> wire_error + string) \<Rightarrow> 't log_record \<Rightarrow> 't log_record list \<times> 't log_record \<Rightarrow> bool" where
  "ladder T r st \<longleftrightarrow>
     fst st \<noteq> [] \<and> last (fst st) = snd st \<and> hd (fst st) = first_stage r
     \<and> (\<forall>x \<in> set (fst st). says_truncated x \<and> same_event x r)
     \<and> sorted_wrt (\<lambda>a b. \<exists>x y. frame T a = Inr x \<and> frame T b = Inr y \<and> y < x) (fst st)"

lemma first_stage_ladder: "ladder T r ([first_stage r], first_stage r)"
  by (simp add: ladder_def first_stage_def says_truncated_def same_event_def Let_def update_conv')

lemma shed_ladder:
  assumes l: "ladder T r st" and n: "says_truncated next" "same_event next r" and s: "shed T next st = Inr st'"
  shows "ladder T r st' \<and> length (fst st') \<le> length (fst st) + 1"
proof -
  obtain stages over where st: "st = (stages, over)" by force
  obtain nr where nr: "narrows T next over = Inr nr"
    using s by (auto simp: shed_def st split: sum.splits)
  show ?thesis
  proof (cases nr)
    case True
    then obtain x y where f: "frame T next = Inr x" "frame T over = Inr y" "x < y"
      using nr by (auto simp: narrows_def split: sum.splits)
    have st': "st' = (stages @ [next], next)" using s nr True by (simp add: shed_def st)
    have "\<exists>z. frame T a = Inr z \<and> y \<le> z" if "a \<in> set stages" for a
    proof -
      have "stages \<noteq> []" "last stages = over" using l by (simp_all add: ladder_def st)
      then have ys: "stages = butlast stages @ [over]" using append_butlast_last_id [of stages] by simp
      then have "sorted_wrt (\<lambda>a b. \<exists>x y. frame T a = Inr x \<and> frame T b = Inr y \<and> y < x) (butlast stages @ [over])"
        using l by (simp add: ladder_def st)
      moreover have "a \<in> set (butlast stages @ [over])" using that ys by simp
      ultimately show ?thesis using f(2) by (auto simp: sorted_wrt_append)
    qed
    then have "\<forall>a \<in> set stages. \<exists>z. frame T a = Inr z \<and> x < z" using f(3) by force
    then show ?thesis using l n f(1) unfolding st' by (auto simp: ladder_def st sorted_wrt_append)
  next
    case False
    then show ?thesis using l s nr by (simp add: shed_def st)
  qed
qed

lemma shed_Inr:
  assumes "T (lr_time next) = Inr ts" "T (lr_time (snd st)) = Inr ts"
  shows "\<exists>st'. shed T next st = Inr st'"
proof -
  obtain x y where "frame T next = Inr x" "frame T (snd st) = Inr y"
    using frame_Inr [of T "next"] frame_Inr [of T "snd st"] assms by auto
  then show ?thesis by (auto simp: shed_def narrows_def split: prod.splits)
qed

lemma ladder_last: "ladder T r st \<Longrightarrow> says_truncated (snd st) \<and> same_event (snd st) r"
  using last_in_set [of "fst st"] by (simp add: ladder_def)

lemma shed_job_ladder:
  assumes l: "ladder T r st" and t: "T (lr_time r) = Inr ts"
  shows "\<exists>st'. shed_job T st = Inr st' \<and> ladder T r st' \<and> length (fst st') \<le> length (fst st) + 1"
proof (cases "lr_job (snd st) = []")
  case False
  let ?next = "snd st\<lparr>lr_job := [], lr_attrs := marked (lr_attrs (snd st)) ''logging.dropped_job'' ''true''\<rparr>"
  have n: "says_truncated ?next" "same_event ?next r"
    using ladder_last [OF l] by (simp_all add: says_truncated_def same_event_def marked_def update_conv')
  then obtain st' where "shed T ?next st = Inr st'"
    using shed_Inr [of T ?next ts st] ladder_last [OF l] t by (auto simp: same_event_def)
  with shed_ladder [OF l n this] False show ?thesis by (simp add: shed_job_def Let_def)
qed (use l in \<open>simp add: shed_job_def\<close>)

lemma shed_identity_ladder:
  assumes l: "ladder T r st" and t: "T (lr_time r) = Inr ts"
  shows "\<exists>st'. shed_identity T st = Inr st' \<and> ladder T r st' \<and> length (fst st') \<le> length (fst st) + 1"
proof (cases "lr_identity (snd st) = []")
  case False
  let ?next = "snd st\<lparr>lr_attrs := marked (lr_attrs (snd st)) ''logging.dropped_hops'' (Itoa (length (lr_identity (snd st)))),
      lr_identity := []\<rparr>"
  have n: "says_truncated ?next" "same_event ?next r"
    using ladder_last [OF l] by (simp_all add: says_truncated_def same_event_def marked_def update_conv')
  then obtain st' where "shed T ?next st = Inr st'"
    using shed_Inr [of T ?next ts st] ladder_last [OF l] t by (auto simp: same_event_def)
  with shed_ladder [OF l n this] False show ?thesis by (simp add: shed_identity_def Let_def)
qed (use l in \<open>simp add: shed_identity_def\<close>)

lemma degraded_ladder:
  assumes "T (lr_time r) = Inr ts"
  shows "\<exists>stages. degraded T r = Inr stages \<and> ladder T r (stages, last stages) \<and> length stages \<le> 3"
proof -
  from shed_job_ladder [of T r, OF first_stage_ladder assms] obtain st where j:
    "shed_job T ([first_stage r], first_stage r) = Inr st" "ladder T r st" "length (fst st) \<le> 2" by auto
  from shed_identity_ladder [OF j(2) assms] obtain st' where i:
    "shed_identity T st = Inr st'" "ladder T r st'" "length (fst st') \<le> 3" using j(3) by auto
  then have "last (fst st') = snd st'" by (simp add: ladder_def)
  then have "(fst st', last (fst st')) = st'" by (cases st') simp
  then show ?thesis using i j(1) by (auto simp: degraded_def split: prod.splits)
qed

subsection \<open>The line that is written\<close>

lemma try_stages_result:
  assumes "\<forall>x \<in> set stages. \<exists>f. frame T x = Inr f"
  shows "try_stages T stages cap =
    (case List.find (\<lambda>x. case frame T x of Inr f \<Rightarrow> int f \<le> cap | Inl _ \<Rightarrow> False) stages of
       None \<Rightarrow> Inl (ErrLineCap cap)
     | Some x \<Rightarrow> (case shrunk T x cap of Inr (Some b) \<Rightarrow> Inr b | _ \<Rightarrow> Inl (ErrLineCap cap)))"
  using assms
proof (induction stages)
  case (Cons x stages)
  then obtain f where f: "frame T x = Inr f" by auto
  show ?case
  proof (cases "int f \<le> cap")
    case True
    then obtain b where "shrunk T x cap = Inr (Some b)"
      using shrunk_None [OF f, of cap] by (metis not_None_eq not_less)
    then show ?thesis using f True by simp
  next
    case False
    then show ?thesis using shrunk_None(1) [OF f, of cap] f Cons by simp
  qed
qed simp

lemma try_stages_Inr:
  "try_stages T stages cap = Inr b \<Longrightarrow> \<exists>x \<in> set stages. shrunk T x cap = Inr (Some b)"
  by (induction stages) (auto split: sum.splits option.splits)

lemma ladder_frames:
  assumes l: "ladder T r (stages, last stages)" and t: "T (lr_time r) = Inr ts"
  shows "\<forall>x \<in> set stages. \<exists>f. frame T x = Inr f"
proof
  fix x assume "x \<in> set stages"
  then have "lr_time x = lr_time r" using l by (auto simp: ladder_def same_event_def)
  then show "\<exists>f. frame T x = Inr f" using frame_Inr [of T x] t by auto
qed

lemma file_line_Inr:
  assumes "file_line T m r = Inr b"
  shows "one_line b" "int (length b) \<le> line_cap m"
proof -
  have "one_line b \<and> int (length b) \<le> line_cap m"
  proof (cases "Encode_record T r = Inr b")
    case True
    moreover have "int (length b) \<le> line_cap m"
    proof (rule ccontr)
      assume long: "\<not> int (length b) \<le> line_cap m"
      then have "truncated T r (line_cap m) = Inr b" using assms True by (simp add: file_line_def)
      then obtain x where "shrunk T x (line_cap m) = Inr (Some b)"
        by (auto simp: truncated_def split: sum.splits dest!: try_stages_Inr)
      then show False using shrunk_fits long by blast
    qed
    ultimately show ?thesis using Encode_record_one_line by blast
  next
    case False
    then have "truncated T r (line_cap m) = Inr b"
      using assms by (auto simp: file_line_def split: sum.splits if_splits)
    then obtain x where "shrunk T x (line_cap m) = Inr (Some b)"
      by (auto simp: truncated_def split: sum.splits dest!: try_stages_Inr)
    then show ?thesis using shrunk_fits Encode_record_one_line by blast
  qed
  then show "one_line b" "int (length b) \<le> line_cap m" by blast+
qed

text \<open>A written line is the encoding of a record of the same event: the record's own, or a marked one.\<close>

lemma file_line_source:
  assumes "file_line T m r = Inr b"
  obtains x where "Encode_record T x = Inr b" "if Encode_record T r = Inr b then x = r else says_truncated x"
    "lr_schema x = lr_schema r" "lr_time x = lr_time r" "lr_level x = lr_level r"
    "prefix (lr_msg x) (lr_msg r)" "validUTF8 (lr_msg r) \<longrightarrow> validUTF8 (lr_msg x)"
proof (cases "Encode_record T r = Inr b")
  case False
  have "\<exists>ts. T (lr_time r) = Inr ts"
    using assms Encode_record_Inr [of T r] by (auto simp: file_line_def split: sum.splits)
  then obtain ts where t: "T (lr_time r) = Inr ts" by blast
  have "truncated T r (line_cap m) = Inr b"
    using assms False by (auto simp: file_line_def split: sum.splits if_splits)
  then obtain stages y where d: "degraded T r = Inr stages" and y: "y \<in> set stages"
    "shrunk T y (line_cap m) = Inr (Some b)"
    by (auto simp: truncated_def split: sum.splits dest!: try_stages_Inr)
  have "ladder T r (stages, last stages)" using degraded_ladder [of T r, OF t] d by auto
  then have s: "says_truncated y" "same_event y r" using y(1) by (simp_all add: ladder_def)
  from shrunk_fits [OF y(2)] obtain msg where "prefix msg (lr_msg y)" "validUTF8 (lr_msg y) \<longrightarrow> validUTF8 msg"
    "Encode_record T (y\<lparr>lr_msg := msg\<rparr>) = Inr b" by blast
  then show ?thesis using that [of "y\<lparr>lr_msg := msg\<rparr>"] s False
    by (simp add: says_truncated_def same_event_def)
qed (use that in simp)

subsection \<open>The channel that wakes readers\<close>

text \<open>
  The current channel is not closed yet unless the sink is: what makes closing it safe.
\<close>

definition channel_ok :: "file_sink \<Rightarrow> bool" where
  "channel_ok s \<longleftrightarrow>
     (\<forall>c \<in> set (fs_woken s). c < fs_next s)
     \<and> (\<forall>c. fs_changed s = Some c \<longrightarrow> c < fs_next s \<and> (c \<in> set (fs_woken s) \<longrightarrow> fs_historyClosed s))
     \<and> (fs_historyClosed s \<longleftrightarrow> \<not> fs_open s)"

lemma channel_ok_open: "channel_ok (OpenFileSink content)"
  by (simp add: channel_ok_def OpenFileSink_def)

lemma FileSink_Write_ok:
  assumes "channel_ok s"
  shows "channel_ok (fst (FileSink_Write T W r s))"
    and "\<forall>e. snd (FileSink_Write T W r s) \<noteq> Some (RuntimePanic e)"
    and "\<exists>b. fs_content (fst (FileSink_Write T W r s)) = fs_content s @ b"
proof -
  have "channel_ok (fst (FileSink_Write T W r s)) \<and> (\<forall>e. snd (FileSink_Write T W r s) \<noteq> Some (RuntimePanic e))
    \<and> (\<exists>b. fs_content (fst (FileSink_Write T W r s)) = fs_content s @ b)"
  proof (cases "file_line T (fs_max s) r")
    case (Inl e)
    moreover have "e \<noteq> RuntimePanic x" for x
    proof
      assume "e = RuntimePanic x"
      with Inl have p: "truncated T r (line_cap (fs_max s)) = Inl (RuntimePanic x)"
        by (auto simp: file_line_def split: sum.splits if_splits)
      then show False
      proof (cases "T (lr_time r)")
        case (Inl e')
        then have "Encode_record T r = Inl e'" by (simp add: Encode_record_Inl)
        then show False using \<open>file_line T (fs_max s) r = Inl e\<close> \<open>e = RuntimePanic x\<close> by (simp add: file_line_def)
      next
        case (Inr ts)
        then obtain stages where d: "degraded T r = Inr stages" "ladder T r (stages, last stages)"
          using degraded_ladder by blast
        from p d(1) try_stages_result [OF ladder_frames [OF d(2) Inr]] show False
          by (auto simp: truncated_def split: option.splits sum.splits)
      qed
    qed
    ultimately show ?thesis using assms by (simp add: FileSink_Write_def)
  next
    case (Inr b)
    then show ?thesis using assms
      by (cases "fs_open s"; cases "W b"; cases "fs_changed s")
        (auto simp: FileSink_Write_def Let_def channel_ok_def close_channel_def make_channel_def)
  qed
  then show "channel_ok (fst (FileSink_Write T W r s))"
    and "\<forall>e. snd (FileSink_Write T W r s) \<noteq> Some (RuntimePanic e)"
    and "\<exists>b. fs_content (fst (FileSink_Write T W r s)) = fs_content s @ b" by blast+
qed

lemma FileSink_Write_frame:
  "fs_open (fst (FileSink_Write T W r s)) = fs_open s" "fs_epoch (fst (FileSink_Write T W r s)) = fs_epoch s"
  "fs_waiters (fst (FileSink_Write T W r s)) = fs_waiters s"
  "set (fs_woken s) \<subseteq> set (fs_woken (fst (FileSink_Write T W r s)))"
  by (auto simp: FileSink_Write_def close_channel_def make_channel_def Let_def split: sum.splits prod.splits option.splits)

text \<open>When the file grows, the channel readers wait on is closed and replaced.\<close>

lemma FileSink_Write_wakes:
  assumes "channel_ok s" "fs_changed s = Some c"
    and "fs_content (fst (FileSink_Write T W r s)) \<noteq> fs_content s \<or> fs_changed (fst (FileSink_Write T W r s)) \<noteq> Some c"
  shows "c \<in> set (fs_woken (fst (FileSink_Write T W r s)))"
  using assms
  by (auto simp: FileSink_Write_def close_channel_def make_channel_def Let_def
      split: sum.splits prod.splits option.splits if_splits)

lemma FileSink_Close_ok:
  assumes "channel_ok s"
  shows "channel_ok (fst (FileSink_Close err s)) \<and> (\<forall>e. snd (FileSink_Close err s) \<noteq> Some (RuntimePanic e))
    \<and> \<not> fs_open (fst (FileSink_Close err s)) \<and> set (fs_woken s) \<subseteq> set (fs_woken (fst (FileSink_Close err s)))
    \<and> (fs_open s \<longrightarrow> (\<forall>c. fs_changed s = Some c \<longrightarrow> c \<in> set (fs_woken (fst (FileSink_Close err s)))))
    \<and> fs_waiters (fst (FileSink_Close err s)) = fs_waiters s"
  using assms
  by (cases "fs_historyClosed s"; cases "fs_changed s"; cases "fs_open s")
    (auto simp: channel_ok_def FileSink_Close_def close_channel_def Let_def)

text \<open>A file sink keeps the contract, each write with what the operating system did to it.\<close>

definition file_write :: "('t \<Rightarrow> wire_error + string) \<Rightarrow> ('t log_record \<times> (string \<Rightarrow> nat \<times> string option), file_sink) sink" where
  "file_write T p s = FileSink_Write T (snd p) (fst p) s"

interpretation file_log: append_only "file_write T" fs_content channel_ok
  by unfold_locales
    (auto simp: file_write_def prefix_def FileSink_Write_ok(1) intro: FileSink_Write_ok(3))

subsection \<open>Properties of the file sink\<close>

text \<open>
  C27: Whatever line the sink writes fits its cap and is one line, even when the record does not
  fit: writers that share the file never interleave halves of two lines.
\<close>

theorem line_within_cap:
  assumes "file_line T m r = Inr b"
  shows "int (length b) \<le> line_cap m \<and> b \<noteq> [] \<and> last b = LF \<and> LF \<notin> set (butlast b)"
  using file_line_Inr [OF assms] by (simp_all add: one_line_def)

definition rung_fits :: "('t \<Rightarrow> wire_error + string) \<Rightarrow> int \<Rightarrow> 't log_record \<Rightarrow> bool" where
  "rung_fits T cap x \<longleftrightarrow> (case frame T x of Inr f \<Rightarrow> int f \<le> cap | Inl _ \<Rightarrow> False)"

lemma truncated_result:
  assumes t: "T (lr_time r) = Inr ts" and d: "degraded T r = Inr stages"
  shows "if list_ex (rung_fits T cap) stages then \<exists>line. truncated T r cap = Inr line
    else truncated T r cap = Inl (ErrLineCap cap)"
proof -
  have l: "ladder T r (stages, last stages)" using degraded_ladder [of T r, OF t] d by auto
  have fr: "\<forall>x \<in> set stages. \<exists>f. frame T x = Inr f" by (rule ladder_frames [OF l t])
  have e: "(\<lambda>x. case frame T x of Inr f \<Rightarrow> int f \<le> cap | Inl _ \<Rightarrow> False) = rung_fits T cap"
    by (simp add: rung_fits_def fun_eq_iff split: sum.splits)
  have tr: "truncated T r cap =
      (case List.find (rung_fits T cap) stages of None \<Rightarrow> Inl (ErrLineCap cap)
       | Some x \<Rightarrow> (case shrunk T x cap of Inr (Some b) \<Rightarrow> Inr b | _ \<Rightarrow> Inl (ErrLineCap cap)))"
    using d try_stages_result [OF fr, of cap] by (simp add: truncated_def e)
  show ?thesis
  proof (cases "List.find (rung_fits T cap) stages")
    case None
    then have "\<not> list_ex (rung_fits T cap) stages" by (simp add: find_None_iff list_ex_iff)
    then show ?thesis using tr None by simp
  next
    case (Some x)
    then have x: "x \<in> set stages" "rung_fits T cap x" by (auto simp: find_Some_iff)
    then obtain f where f: "frame T x = Inr f" "int f \<le> cap" by (auto simp: rung_fits_def split: sum.splits)
    obtain y where y: "shrunk T x cap = Inr y" using shrunk_None(2) [OF f(1)] by blast
    have "shrunk T x cap \<noteq> Inr None" using shrunk_None(1) [OF f(1), of cap] f(2) by simp
    then obtain b where "shrunk T x cap = Inr (Some b)" using y by (cases y) simp_all
    moreover have "list_ex (rung_fits T cap) stages" using x by (auto simp: list_ex_iff)
    ultimately show ?thesis using tr Some by simp
  qed
qed

text \<open>
  C28: A record is refused for its length exactly when nothing that could be shed makes room: it is
  over the cap and so is, message empty, every rung of the ladder.  Otherwise a line is written,
  the record's own when it fits.
\<close>

theorem refused_iff_nothing_fits:
  assumes t: "T (lr_time r) = Inr ts"
  shows "\<exists>b stages. Encode_record T r = Inr b \<and> degraded T r = Inr stages \<and>
    (if int (length b) \<le> line_cap m then file_line T m r = Inr b
     else if list_ex (rung_fits T (line_cap m)) stages then \<exists>line. file_line T m r = Inr line
     else file_line T m r = Inl (ErrLineCap (line_cap m)))"
proof -
  obtain b where b: "Encode_record T r = Inr b" using Encode_record_Inr [of T r] t by auto
  obtain stages where d: "degraded T r = Inr stages" using degraded_ladder [of T r, OF t] by blast
  from truncated_result [of T r, OF t d, of "line_cap m"] b d show ?thesis
    by (auto simp: file_line_def)
qed

text \<open>
  C29: A line shortened to fit is a record of the same event that says so: same schema, time and
  level, marked \<^verbatim>\<open>logging.truncated\<close>, its message a beginning of the original one
  that is valid UTF-8 whenever the original was.
\<close>

theorem shortened_line_is_marked:
  assumes w: "file_line T m r = Inr line" and n: "Encode_record T r \<noteq> Inr line"
  shows "\<exists>x. Encode_record T x = Inr line \<and> map_of (lr_attrs x) ''logging.truncated'' = Some ''true''
    \<and> lr_schema x = lr_schema r \<and> lr_time x = lr_time r \<and> lr_level x = lr_level r
    \<and> prefix (lr_msg x) (lr_msg r) \<and> (\<not> validUTF8 (lr_msg r) \<or> validUTF8 (lr_msg x))"
  by (rule file_line_source [OF w]) (use n in \<open>auto simp: says_truncated_def\<close>)

text \<open>
  The ladder is finite and every rung after the first costs strictly fewer bytes than the one
  before it: at most three rungs, the marked record first, each a record of the same event.
\<close>

theorem ladder_strictly_narrows:
  assumes t: "T (lr_time r) = Inr ts"
  shows "\<exists>stages. degraded T r = Inr stages \<and> stages \<noteq> [] \<and> hd stages = first_stage r \<and> length stages \<le> 3
    \<and> sorted_wrt (\<lambda>a b. \<exists>x y. frame T a = Inr x \<and> frame T b = Inr y \<and> y < x) stages
    \<and> list_all (\<lambda>x. says_truncated x \<and> same_event x r) stages"
proof -
  obtain stages where "degraded T r = Inr stages" "ladder T r (stages, last stages)" "length stages \<le> 3"
    using degraded_ladder [of T r, OF t] by blast
  then show ?thesis by (auto simp: ladder_def list_all_iff)
qed

text \<open>
  One turn of the shrink loop at least halves a message that is not empty, keeps a beginning of
  it, and never splits a character: the loop ends after at most as many turns as the message's
  length has binary digits.
\<close>

theorem cut_halves:
  assumes "s \<noteq> []"
  shows "length (cut s (int (length s div 2))) \<le> length s div 2
    \<and> prefix (cut s (int (length s div 2))) s
    \<and> (\<not> validUTF8 s \<or> validUTF8 (cut s (int (length s div 2))))"
  using cut_half [OF assms] prefix_cut cut_utf8 by blast

subsection \<open>Witnesses\<close>

text \<open>A record that does not fit a cap of 86 bytes until its message is shortened.\<close>

definition sample_event :: "string log_record" where
  "sample_event =
     \<lparr>lr_schema = 1, lr_time = ''t'', lr_level = 4, lr_msg = ''the disk is full and so is the other one too!'',
      lr_identity = [], lr_job = [], lr_attrs = []\<rparr>"

lemma sample_event_shortened:
  "case file_line Inr 86 sample_event of Inr line \<Rightarrow> Encode_record Inr sample_event \<noteq> Inr line | Inl _ \<Rightarrow> False"
  by code_simp

lemma sample_event_line:
  obtains line where "file_line Inr 86 sample_event = Inr line" "Encode_record Inr sample_event \<noteq> Inr line"
  using sample_event_shortened by (auto split: sum.splits)

theorem line_within_cap_witness:
  "\<exists>line. file_line Inr 86 sample_event = Inr line \<and> length line \<le> 86 \<and> last line = LF"
proof (rule sample_event_line)
  fix line assume l: "file_line Inr 86 sample_event = Inr line"
  have "line_cap 86 = 86" by code_simp
  then show ?thesis using line_within_cap [OF l] l by auto
qed

theorem refused_iff_nothing_fits_witness:
  "\<exists>b stages. Encode_record Inr sample_event = Inr b \<and> degraded Inr sample_event = Inr stages
    \<and> (if int (length b) \<le> line_cap 20 then file_line Inr 20 sample_event = Inr b
       else if list_ex (rung_fits Inr (line_cap 20)) stages then \<exists>line. file_line Inr 20 sample_event = Inr line
       else file_line Inr 20 sample_event = Inl (ErrLineCap (line_cap 20)))"
  by (rule refused_iff_nothing_fits [of Inr sample_event "lr_time sample_event"]) simp

theorem shortened_line_is_marked_witness:
  "\<exists>line x. file_line Inr 86 sample_event = Inr line \<and> Encode_record Inr x = Inr line
    \<and> map_of (lr_attrs x) ''logging.truncated'' = Some ''true''"
proof (rule sample_event_line)
  fix line assume "file_line Inr 86 sample_event = Inr line" "Encode_record Inr sample_event \<noteq> Inr line"
  then show ?thesis using shortened_line_is_marked [of Inr 86 sample_event line] by auto
qed

theorem ladder_strictly_narrows_witness:
  "\<exists>stages. degraded Inr sample_event = Inr stages \<and> length stages \<le> 3"
  using ladder_strictly_narrows [of Inr sample_event "lr_time sample_event"] by auto

text \<open>A message whose middle splits a two-byte character.\<close>

theorem cut_halves_witness:
  "length (cut [CHR ''a'', CHR 0xC3, CHR 0xA9, CHR ''b''] 2) \<le> 2 \<and> cut [CHR ''a'', CHR 0xC3, CHR 0xA9, CHR ''b''] 2 = ''a''"
proof -
  have "cut [CHR ''a'', CHR 0xC3, CHR 0xA9, CHR ''b''] 2 = ''a''" by code_simp
  then show ?thesis using cut_halves [of "[CHR ''a'', CHR 0xC3, CHR 0xA9, CHR ''b'']"] by simp
qed

end
