(* ===== verification/Wire_Frames.thy ===== *)
theory Wire_Frames
  imports Wire_Codec
begin

text \<open>
  The other generated types of \<^verbatim>\<open>rec.go\<close>: history pages, the arguments and results of
  the services, and the request, reply and error envelopes.  Their readers refuse a field
  they do not know, unlike a record's.  \<^verbatim>\<open>Raw\<close> is a value kept as the bytes it was
  written with; \<^verbatim>\<open>rawValue\<close> takes the slice \<^const>\<open>skipValue\<close> walks over.
\<close>

subsection \<open>Types\<close>

record wire_page =
  pg_outcome :: string
  pg_records :: "wire_record list"
  pg_next :: string
  pg_at_end :: bool

record sink_args =
  sa_record :: wire_record

record read_args =
  ra_cursor :: string
  ra_max_records :: i64
  ra_max_bytes :: i64

record observe_args =
  oa_cursor :: string
  oa_max_records :: i64
  oa_max_bytes :: i64
  oa_wait_ms :: i64

record service_frame =
  sf_version :: "32 word"
  sf_service :: string
  sf_method :: string
  sf_arguments :: string

record service_reply =
  sr_version :: "32 word"
  sr_service :: string
  sr_method :: string
  sr_ok :: bool
  sr_payload :: string

record service_error =
  se_code :: string
  se_message :: string

record page_result =
  pr_value :: wire_page

definition PageOutcomeNames :: "string list" where
  "PageOutcomeNames =
     [''page'', ''gap'', ''unavailable'', ''invalid_request'', ''record_too_large'', ''corrupt'', ''unsupported'']"

definition zero_page :: wire_page where
  "zero_page = \<lparr>pg_outcome = [], pg_records = [], pg_next = [], pg_at_end = False\<rparr>"

definition page_outcome_ok :: "wire_page \<Rightarrow> bool" where
  "page_outcome_ok v \<longleftrightarrow>
     \<not> (pg_outcome v \<noteq> ''page'' \<and> pg_outcome v \<noteq> ''gap'' \<and> pg_outcome v \<noteq> ''unavailable''
        \<and> pg_outcome v \<noteq> ''invalid_request'' \<and> pg_outcome v \<noteq> ''record_too_large''
        \<and> pg_outcome v \<noteq> ''corrupt'' \<and> pg_outcome v \<noteq> ''unsupported'')"

subsection \<open>Writers\<close>

definition encPage :: "string \<Rightarrow> wire_page \<Rightarrow> nat \<Rightarrow> wire_error + string" where
  "encPage out v depth =
     (if \<not> page_outcome_ok v then Inl (Refusal ''bad_enum'' 0)
      else
        let out = out @ ''{'';
            out = esc (put_key out depth ''outcome'') (pg_outcome v)
        in case encList (put_key (out @ '','') depth ''records'') (pg_records v) (depth + 1) encRecord of
             Inl e \<Rightarrow> Inl e
           | Inr out \<Rightarrow>
               (let out = esc (put_key (out @ '','') depth ''next'') (pg_next v);
                    out = put_bool (put_key (out @ '','') depth ''at_end'') (pg_at_end v)
                in Inr (put_close out depth)))"

definition encOASinkWriteArguments :: "string \<Rightarrow> sink_args \<Rightarrow> nat \<Rightarrow> wire_error + string" where
  "encOASinkWriteArguments out v depth =
     (case encRecord (put_key (out @ ''{'') depth ''record'') (sa_record v) (depth + 1) of
        Inl e \<Rightarrow> Inl e
      | Inr out \<Rightarrow> Inr (put_close out depth))"

definition encOAHistoryReaderReadArguments :: "string \<Rightarrow> read_args \<Rightarrow> nat \<Rightarrow> string" where
  "encOAHistoryReaderReadArguments out v depth =
     (let out = out @ ''{'';
          out = esc (put_key out depth ''cursor'') (ra_cursor v);
          out = num (put_key (out @ '','') depth ''max_records'') (ra_max_records v);
          out = num (put_key (out @ '','') depth ''max_bytes'') (ra_max_bytes v)
      in put_close out depth)"

definition encOAHistoryObserverObserveArguments :: "string \<Rightarrow> observe_args \<Rightarrow> nat \<Rightarrow> string" where
  "encOAHistoryObserverObserveArguments out v depth =
     (let out = out @ ''{'';
          out = esc (put_key out depth ''cursor'') (oa_cursor v);
          out = num (put_key (out @ '','') depth ''max_records'') (oa_max_records v);
          out = num (put_key (out @ '','') depth ''max_bytes'') (oa_max_bytes v);
          out = num (put_key (out @ '','') depth ''wait_ms'') (oa_wait_ms v)
      in put_close out depth)"

definition encOAServiceFrame :: "string \<Rightarrow> service_frame \<Rightarrow> nat \<Rightarrow> string" where
  "encOAServiceFrame out v depth =
     (let out = out @ ''{'';
          out = num (put_key out depth ''version'') (scast (sf_version v));
          out = esc (put_key (out @ '','') depth ''service'') (sf_service v);
          out = esc (put_key (out @ '','') depth ''method'') (sf_method v);
          out = put_key (out @ '','') depth ''arguments'' @ sf_arguments v
      in put_close out depth)"

definition encOAServiceReply :: "string \<Rightarrow> service_reply \<Rightarrow> nat \<Rightarrow> string" where
  "encOAServiceReply out v depth =
     (let out = out @ ''{'';
          out = num (put_key out depth ''version'') (scast (sr_version v));
          out = esc (put_key (out @ '','') depth ''service'') (sr_service v);
          out = esc (put_key (out @ '','') depth ''method'') (sr_method v);
          out = put_bool (put_key (out @ '','') depth ''ok'') (sr_ok v);
          out = put_key (out @ '','') depth ''payload'' @ sr_payload v
      in put_close out depth)"

definition encOAServiceError :: "string \<Rightarrow> service_error \<Rightarrow> nat \<Rightarrow> string" where
  "encOAServiceError out v depth =
     (let out = out @ ''{'';
          out = esc (put_key out depth ''code'') (se_code v);
          out = esc (put_key (out @ '','') depth ''message'') (se_message v)
      in put_close out depth)"

definition encOAHistoryReaderReadResult :: "string \<Rightarrow> page_result \<Rightarrow> nat \<Rightarrow> wire_error + string" where
  "encOAHistoryReaderReadResult out v depth =
     (case encPage (put_key (out @ ''{'') depth ''value'') (pr_value v) (depth + 1) of
        Inl e \<Rightarrow> Inl e
      | Inr out \<Rightarrow> Inr (put_close out depth))"

definition encOAHistoryObserverObserveResult :: "string \<Rightarrow> page_result \<Rightarrow> nat \<Rightarrow> wire_error + string" where
  "encOAHistoryObserverObserveResult out v depth =
     (case encPage (put_key (out @ ''{'') depth ''value'') (pr_value v) (depth + 1) of
        Inl e \<Rightarrow> Inl e
      | Inr out \<Rightarrow> Inr (put_close out depth))"

subsection \<open>Readers\<close>

definition rawValue :: "reader \<Rightarrow> string read" where
  "rawValue r =
     (case skipValue r of
        Inl e \<Rightarrow> Inl e
      | Inr r' \<Rightarrow> Inr (take (r_pos r' - r_pos r) (drop (r_pos r) (r_buf r)), r'))"

definition version_int :: "reader \<Rightarrow> i64 read" where
  "version_int r = integer (- 2147483648) 2147483647 r"

lemma rawValue_forward: "rawValue r = Inr (s, r') \<Longrightarrow> forward r r'"
  by (auto simp: rawValue_def dest: skipValue_forward split: sum.splits)

lemma version_int_forward: "version_int r = Inr (n, r') \<Longrightarrow> forward r r'"
  by (simp add: version_int_def integer_forward)

lemmas frame_forward = rawValue_forward version_int_forward

function records_loop :: "wire_record list \<Rightarrow> reader \<Rightarrow> wire_record list read" where
  "records_loop out r =
     (case list_step decodeRecord r of
        Inl e \<Rightarrow> Inl e
      | Inr ((again, v), r') \<Rightarrow>
          (if again then records_loop (out @ [v]) r' else Inr (out @ [v], r')))"
  by pat_completeness auto
termination
  by (relation "measure (\<lambda>(out, r). unread r)")
    (auto dest: list_step_unread decodeRecord_forward)

declare records_loop.simps [simp del]

interpretation records: list_decoder decodeRecord records_loop
  by unfold_locales (rule records_loop.simps, rule decodeRecord_forward)

definition page_field :: "string \<Rightarrow> wire_page \<Rightarrow> u32 \<Rightarrow> reader \<Rightarrow> (wire_page \<times> u32) read" where
  "page_field key v seen r =
     (if key = ''outcome'' then once 1 str (\<lambda>x. v\<lparr>pg_outcome := x\<rparr>) seen r
      else if key = ''records'' then once 2 (decode_list records_loop) (\<lambda>x. v\<lparr>pg_records := x\<rparr>) seen r
      else if key = ''next'' then once 4 str (\<lambda>x. v\<lparr>pg_next := x\<rparr>) seen r
      else if key = ''at_end'' then once 8 boolean (\<lambda>x. v\<lparr>pg_at_end := x\<rparr>) seen r
      else Inl (refuse r ''unknown_field''))"

lemma page_field_forward: "page_field k v seen r = Inr (x, r') \<Longrightarrow> forward r r'"
  unfolding page_field_def
  by (auto split: if_splits elim!: once_forward intro: scalar_forward records.decode_forward)

function page_loop :: "wire_page \<Rightarrow> u32 \<Rightarrow> reader \<Rightarrow> (wire_page \<times> u32) read" where
  "page_loop v seen r =
     (case object_step page_field v seen r of
        Inl e \<Rightarrow> Inl e
      | Inr ((again, v', seen'), r') \<Rightarrow>
          (if again then page_loop v' seen' r' else Inr ((v', seen'), r')))"
  by pat_completeness auto
termination
  by (relation "measure (\<lambda>(v, seen, r). unread r)")
    (auto dest: object_step_unread page_field_forward)

declare page_loop.simps [simp del]

interpretation page: object_decoder page_field page_loop
  by unfold_locales (rule page_loop.simps, rule page_field_forward)

definition decodePage :: "reader \<Rightarrow> wire_page read" where
  "decodePage r =
     (case decode_object page_loop 15 zero_page r of
        Inl e \<Rightarrow> Inl e
      | Inr (v, r') \<Rightarrow>
          (if \<not> page_outcome_ok v then Inl (refuse r' ''bad_enum'') else Inr (v, r')))"

lemma decodePage_forward: "decodePage r = Inr (v, r') \<Longrightarrow> forward r r'"
  by (auto simp: decodePage_def dest: page.decode_forward split: sum.splits if_splits)

definition sink_args_field :: "string \<Rightarrow> sink_args \<Rightarrow> u32 \<Rightarrow> reader \<Rightarrow> (sink_args \<times> u32) read" where
  "sink_args_field key v seen r =
     (if key = ''record'' then once 1 decodeRecord (\<lambda>x. v\<lparr>sa_record := x\<rparr>) seen r
      else Inl (refuse r ''unknown_field''))"

lemma sink_args_field_forward: "sink_args_field k v seen r = Inr (x, r') \<Longrightarrow> forward r r'"
  unfolding sink_args_field_def
  by (auto split: if_splits elim!: once_forward intro: scalar_forward decodeRecord_forward)

function sink_args_loop :: "sink_args \<Rightarrow> u32 \<Rightarrow> reader \<Rightarrow> (sink_args \<times> u32) read" where
  "sink_args_loop v seen r =
     (case object_step sink_args_field v seen r of
        Inl e \<Rightarrow> Inl e
      | Inr ((again, v', seen'), r') \<Rightarrow>
          (if again then sink_args_loop v' seen' r' else Inr ((v', seen'), r')))"
  by pat_completeness auto
termination
  by (relation "measure (\<lambda>(v, seen, r). unread r)")
    (auto dest: object_step_unread sink_args_field_forward)

declare sink_args_loop.simps [simp del]

interpretation sink_args: object_decoder sink_args_field sink_args_loop
  by unfold_locales (rule sink_args_loop.simps, rule sink_args_field_forward)

definition zero_sink_args :: sink_args where
  "zero_sink_args = \<lparr>sa_record = zero_record\<rparr>"

definition decodeOASinkWriteArguments :: "reader \<Rightarrow> sink_args read" where
  "decodeOASinkWriteArguments r = decode_object sink_args_loop 1 zero_sink_args r"

definition read_args_field :: "string \<Rightarrow> read_args \<Rightarrow> u32 \<Rightarrow> reader \<Rightarrow> (read_args \<times> u32) read" where
  "read_args_field key v seen r =
     (if key = ''cursor'' then once 1 str (\<lambda>x. v\<lparr>ra_cursor := x\<rparr>) seen r
      else if key = ''max_records'' then once 2 any_int (\<lambda>x. v\<lparr>ra_max_records := x\<rparr>) seen r
      else if key = ''max_bytes'' then once 4 any_int (\<lambda>x. v\<lparr>ra_max_bytes := x\<rparr>) seen r
      else Inl (refuse r ''unknown_field''))"

lemma read_args_field_forward: "read_args_field k v seen r = Inr (x, r') \<Longrightarrow> forward r r'"
  unfolding read_args_field_def
  by (auto split: if_splits elim!: once_forward intro: scalar_forward)

function read_args_loop :: "read_args \<Rightarrow> u32 \<Rightarrow> reader \<Rightarrow> (read_args \<times> u32) read" where
  "read_args_loop v seen r =
     (case object_step read_args_field v seen r of
        Inl e \<Rightarrow> Inl e
      | Inr ((again, v', seen'), r') \<Rightarrow>
          (if again then read_args_loop v' seen' r' else Inr ((v', seen'), r')))"
  by pat_completeness auto
termination
  by (relation "measure (\<lambda>(v, seen, r). unread r)")
    (auto dest: object_step_unread read_args_field_forward)

declare read_args_loop.simps [simp del]

interpretation read_args: object_decoder read_args_field read_args_loop
  by unfold_locales (rule read_args_loop.simps, rule read_args_field_forward)

definition zero_read_args :: read_args where
  "zero_read_args = \<lparr>ra_cursor = [], ra_max_records = 0, ra_max_bytes = 0\<rparr>"

definition decodeOAHistoryReaderReadArguments :: "reader \<Rightarrow> read_args read" where
  "decodeOAHistoryReaderReadArguments r = decode_object read_args_loop 7 zero_read_args r"

definition observe_args_field :: "string \<Rightarrow> observe_args \<Rightarrow> u32 \<Rightarrow> reader \<Rightarrow> (observe_args \<times> u32) read" where
  "observe_args_field key v seen r =
     (if key = ''cursor'' then once 1 str (\<lambda>x. v\<lparr>oa_cursor := x\<rparr>) seen r
      else if key = ''max_records'' then once 2 any_int (\<lambda>x. v\<lparr>oa_max_records := x\<rparr>) seen r
      else if key = ''max_bytes'' then once 4 any_int (\<lambda>x. v\<lparr>oa_max_bytes := x\<rparr>) seen r
      else if key = ''wait_ms'' then once 8 any_int (\<lambda>x. v\<lparr>oa_wait_ms := x\<rparr>) seen r
      else Inl (refuse r ''unknown_field''))"

lemma observe_args_field_forward: "observe_args_field k v seen r = Inr (x, r') \<Longrightarrow> forward r r'"
  unfolding observe_args_field_def
  by (auto split: if_splits elim!: once_forward intro: scalar_forward)

function observe_args_loop :: "observe_args \<Rightarrow> u32 \<Rightarrow> reader \<Rightarrow> (observe_args \<times> u32) read" where
  "observe_args_loop v seen r =
     (case object_step observe_args_field v seen r of
        Inl e \<Rightarrow> Inl e
      | Inr ((again, v', seen'), r') \<Rightarrow>
          (if again then observe_args_loop v' seen' r' else Inr ((v', seen'), r')))"
  by pat_completeness auto
termination
  by (relation "measure (\<lambda>(v, seen, r). unread r)")
    (auto dest: object_step_unread observe_args_field_forward)

declare observe_args_loop.simps [simp del]

interpretation observe_args: object_decoder observe_args_field observe_args_loop
  by unfold_locales (rule observe_args_loop.simps, rule observe_args_field_forward)

definition zero_observe_args :: observe_args where
  "zero_observe_args = \<lparr>oa_cursor = [], oa_max_records = 0, oa_max_bytes = 0, oa_wait_ms = 0\<rparr>"

definition decodeOAHistoryObserverObserveArguments :: "reader \<Rightarrow> observe_args read" where
  "decodeOAHistoryObserverObserveArguments r = decode_object observe_args_loop 15 zero_observe_args r"

definition service_frame_field :: "string \<Rightarrow> service_frame \<Rightarrow> u32 \<Rightarrow> reader \<Rightarrow> (service_frame \<times> u32) read" where
  "service_frame_field key v seen r =
     (if key = ''version'' then once 1 version_int (\<lambda>x. v\<lparr>sf_version := ucast x\<rparr>) seen r
      else if key = ''service'' then once 2 str (\<lambda>x. v\<lparr>sf_service := x\<rparr>) seen r
      else if key = ''method'' then once 4 str (\<lambda>x. v\<lparr>sf_method := x\<rparr>) seen r
      else if key = ''arguments'' then once 8 rawValue (\<lambda>x. v\<lparr>sf_arguments := x\<rparr>) seen r
      else Inl (refuse r ''unknown_field''))"

lemma service_frame_field_forward: "service_frame_field k v seen r = Inr (x, r') \<Longrightarrow> forward r r'"
  unfolding service_frame_field_def
  by (auto split: if_splits elim!: once_forward intro: scalar_forward frame_forward)

function service_frame_loop :: "service_frame \<Rightarrow> u32 \<Rightarrow> reader \<Rightarrow> (service_frame \<times> u32) read" where
  "service_frame_loop v seen r =
     (case object_step service_frame_field v seen r of
        Inl e \<Rightarrow> Inl e
      | Inr ((again, v', seen'), r') \<Rightarrow>
          (if again then service_frame_loop v' seen' r' else Inr ((v', seen'), r')))"
  by pat_completeness auto
termination
  by (relation "measure (\<lambda>(v, seen, r). unread r)")
    (auto dest: object_step_unread service_frame_field_forward)

declare service_frame_loop.simps [simp del]

interpretation service_frame: object_decoder service_frame_field service_frame_loop
  by unfold_locales (rule service_frame_loop.simps, rule service_frame_field_forward)

definition zero_service_frame :: service_frame where
  "zero_service_frame = \<lparr>sf_version = 0, sf_service = [], sf_method = [], sf_arguments = []\<rparr>"

definition decodeOAServiceFrame :: "reader \<Rightarrow> service_frame read" where
  "decodeOAServiceFrame r = decode_object service_frame_loop 15 zero_service_frame r"

definition service_reply_field :: "string \<Rightarrow> service_reply \<Rightarrow> u32 \<Rightarrow> reader \<Rightarrow> (service_reply \<times> u32) read" where
  "service_reply_field key v seen r =
     (if key = ''version'' then once 1 version_int (\<lambda>x. v\<lparr>sr_version := ucast x\<rparr>) seen r
      else if key = ''service'' then once 2 str (\<lambda>x. v\<lparr>sr_service := x\<rparr>) seen r
      else if key = ''method'' then once 4 str (\<lambda>x. v\<lparr>sr_method := x\<rparr>) seen r
      else if key = ''ok'' then once 8 boolean (\<lambda>x. v\<lparr>sr_ok := x\<rparr>) seen r
      else if key = ''payload'' then once 16 rawValue (\<lambda>x. v\<lparr>sr_payload := x\<rparr>) seen r
      else Inl (refuse r ''unknown_field''))"

lemma service_reply_field_forward: "service_reply_field k v seen r = Inr (x, r') \<Longrightarrow> forward r r'"
  unfolding service_reply_field_def
  by (auto split: if_splits elim!: once_forward intro: scalar_forward frame_forward)

function service_reply_loop :: "service_reply \<Rightarrow> u32 \<Rightarrow> reader \<Rightarrow> (service_reply \<times> u32) read" where
  "service_reply_loop v seen r =
     (case object_step service_reply_field v seen r of
        Inl e \<Rightarrow> Inl e
      | Inr ((again, v', seen'), r') \<Rightarrow>
          (if again then service_reply_loop v' seen' r' else Inr ((v', seen'), r')))"
  by pat_completeness auto
termination
  by (relation "measure (\<lambda>(v, seen, r). unread r)")
    (auto dest: object_step_unread service_reply_field_forward)

declare service_reply_loop.simps [simp del]

interpretation service_reply: object_decoder service_reply_field service_reply_loop
  by unfold_locales (rule service_reply_loop.simps, rule service_reply_field_forward)

definition zero_service_reply :: service_reply where
  "zero_service_reply = \<lparr>sr_version = 0, sr_service = [], sr_method = [], sr_ok = False, sr_payload = []\<rparr>"

definition decodeOAServiceReply :: "reader \<Rightarrow> service_reply read" where
  "decodeOAServiceReply r = decode_object service_reply_loop 31 zero_service_reply r"

definition service_error_field :: "string \<Rightarrow> service_error \<Rightarrow> u32 \<Rightarrow> reader \<Rightarrow> (service_error \<times> u32) read" where
  "service_error_field key v seen r =
     (if key = ''code'' then once 1 str (\<lambda>x. v\<lparr>se_code := x\<rparr>) seen r
      else if key = ''message'' then once 2 str (\<lambda>x. v\<lparr>se_message := x\<rparr>) seen r
      else Inl (refuse r ''unknown_field''))"

lemma service_error_field_forward: "service_error_field k v seen r = Inr (x, r') \<Longrightarrow> forward r r'"
  unfolding service_error_field_def
  by (auto split: if_splits elim!: once_forward intro: scalar_forward)

function service_error_loop :: "service_error \<Rightarrow> u32 \<Rightarrow> reader \<Rightarrow> (service_error \<times> u32) read" where
  "service_error_loop v seen r =
     (case object_step service_error_field v seen r of
        Inl e \<Rightarrow> Inl e
      | Inr ((again, v', seen'), r') \<Rightarrow>
          (if again then service_error_loop v' seen' r' else Inr ((v', seen'), r')))"
  by pat_completeness auto
termination
  by (relation "measure (\<lambda>(v, seen, r). unread r)")
    (auto dest: object_step_unread service_error_field_forward)

declare service_error_loop.simps [simp del]

interpretation service_error: object_decoder service_error_field service_error_loop
  by unfold_locales (rule service_error_loop.simps, rule service_error_field_forward)

definition zero_service_error :: service_error where
  "zero_service_error = \<lparr>se_code = [], se_message = []\<rparr>"

definition decodeOAServiceError :: "reader \<Rightarrow> service_error read" where
  "decodeOAServiceError r = decode_object service_error_loop 3 zero_service_error r"

definition page_result_field :: "string \<Rightarrow> page_result \<Rightarrow> u32 \<Rightarrow> reader \<Rightarrow> (page_result \<times> u32) read" where
  "page_result_field key v seen r =
     (if key = ''value'' then once 1 decodePage (\<lambda>x. v\<lparr>pr_value := x\<rparr>) seen r
      else Inl (refuse r ''unknown_field''))"

lemma page_result_field_forward: "page_result_field k v seen r = Inr (x, r') \<Longrightarrow> forward r r'"
  unfolding page_result_field_def
  by (auto split: if_splits elim!: once_forward intro: scalar_forward decodePage_forward)

function page_result_loop :: "page_result \<Rightarrow> u32 \<Rightarrow> reader \<Rightarrow> (page_result \<times> u32) read" where
  "page_result_loop v seen r =
     (case object_step page_result_field v seen r of
        Inl e \<Rightarrow> Inl e
      | Inr ((again, v', seen'), r') \<Rightarrow>
          (if again then page_result_loop v' seen' r' else Inr ((v', seen'), r')))"
  by pat_completeness auto
termination
  by (relation "measure (\<lambda>(v, seen, r). unread r)")
    (auto dest: object_step_unread page_result_field_forward)

declare page_result_loop.simps [simp del]

interpretation page_result: object_decoder page_result_field page_result_loop
  by unfold_locales (rule page_result_loop.simps, rule page_result_field_forward)

definition zero_page_result :: page_result where
  "zero_page_result = \<lparr>pr_value = zero_page\<rparr>"

definition decodeOAHistoryReaderReadResult :: "reader \<Rightarrow> page_result read" where
  "decodeOAHistoryReaderReadResult r = decode_object page_result_loop 1 zero_page_result r"

text \<open>The two history results have the same fields and the generator writes the same reader twice.\<close>

definition decodeOAHistoryObserverObserveResult :: "reader \<Rightarrow> page_result read" where
  "decodeOAHistoryObserverObserveResult r = decode_object page_result_loop 1 zero_page_result r"

end
