(* ===== verification/Wire_Raw.thy ===== *)
theory Wire_Raw
  imports Wire_Frames
begin

text \<open>
  The walk over an opaque value accepts exactly the texts the writers make: strings,
  numbers, booleans, objects, lists and maps, with as much nesting as the depth limit
  leaves.  So a value carried as \<^verbatim>\<open>Raw\<close> comes out of an envelope byte for byte.
\<close>

definition skips :: "nat \<Rightarrow> string \<Rightarrow> bool" where
  "skips h x \<longleftrightarrow> value_start x \<and> hd x \<noteq> CHR '']'' \<and>
     (\<forall>q u. rest q = x @ u \<longrightarrow> follows u \<longrightarrow> r_depth q + h \<le> depthLimit \<longrightarrow> skipValue q = Inr (to q u))"

lemma skipsI:
  "(\<And>q u. rest q = x @ u \<Longrightarrow> follows u \<Longrightarrow> r_depth q + h \<le> depthLimit \<Longrightarrow> skipValue q = Inr (to q u)) \<Longrightarrow>
    value_start x \<Longrightarrow> hd x \<noteq> CHR '']'' \<Longrightarrow> skips h x"
  by (simp add: skips_def)

lemma skips_mono: "skips h x \<Longrightarrow> h \<le> h' \<Longrightarrow> skips h' x"
  by (simp add: skips_def)

subsection \<open>Scalars\<close>

lemma skips_esc [skips_intros]: "validUTF8 s \<Longrightarrow> skips 0 (esc [] s)"
proof (rule skipsI)
  fix q u assume "rest q = esc [] s @ u" "validUTF8 s"
  moreover from this have "at q = QUOTE" by (simp add: esc_text)
  ultimately show "skipValue q = Inr (to q u)"
    by (simp add: skipValue.simps [of q] skipString_def str_text)
qed (simp_all add: esc_text)

lemma skips_bool [skips_intros]: "skips 0 (put_bool [] b)"
proof (rule skipsI)
  fix q u assume r: "rest q = put_bool [] b @ u"
  show "skipValue q = Inr (to q u)"
    using r literal_text [of q "put_bool [] b" u]
    by (cases b) (simp_all add: put_bool_def skipValue.simps [of q] skipLiteral_def)
qed (simp_all add: put_bool_def)

lemma digits_loop_digits:
  "rest q = ds @ t \<Longrightarrow> \<forall>c \<in> set ds. is_digit c \<Longrightarrow> no_number t \<Longrightarrow> in_buf q \<Longrightarrow>
    snd (digits_loop n q) = to q t"
proof (induction ds arbitrary: q n)
  case Nil
  have "\<not> is_digit (at q)"
    using Nil by (auto simp: at_rest no_number_def is_digit_def bv_def split: list.split)
  then show ?case using Nil to_rest [of q] by (simp add: digits_loop.simps [of n q])
next
  case (Cons c ds)
  have "rest (to q (ds @ t)) = ds @ t" using rest_to [of q "[c]"] Cons.prems by simp
  then show ?case
    using Cons skip1_to [of q c "ds @ t"] by (simp add: digits_loop.simps [of n q])
qed

lemma no_number_at: "rest q = t \<Longrightarrow> no_number t \<Longrightarrow> at q \<noteq> CHR ''.'' \<and> at q \<noteq> CHR ''e'' \<and> at q \<noteq> CHR ''E''"
  by (auto simp: at_rest no_number_def split: list.splits)

lemma digit_range: "is_digit c \<Longrightarrow> c \<noteq> CHR ''0'' \<Longrightarrow> CHR ''1'' \<le> c \<and> c \<le> CHR ''9''"
proof -
  assume a: "is_digit c" "c \<noteq> CHR ''0''"
  have "bv (CHR ''0'') = 48" "bv (CHR ''1'') = 49" "bv (CHR ''9'') = 57" by code_simp+
  moreover have "bv c \<noteq> bv (CHR ''0'')" using a by simp
  ultimately show ?thesis using a by (auto simp: is_digit_def less_eq_char_def bv_def)
qed

lemma skipNumber_num:
  assumes r: "rest q = num [] n @ u" and u: "no_number u"
  shows "skipNumber q = Inr (to q u)"
proof -
  define v where "v = (if sint n < 0 then - n else n)"
  define q1 where "q1 = (if at q = CHR ''-'' then skip1 q else q)"
  have ru: "rest (to q u) = u" using rest_to [OF r] .
  have ib: "in_buf q" by (rule in_buf_rest) (use r value_start_num [of n] in \<open>auto simp: value_start_def\<close>)
  have stop: "at (to q u) \<noteq> CHR ''.'' \<and> at (to q u) \<noteq> CHR ''e'' \<and> at (to q u) \<noteq> CHR ''E''"
    by (rule no_number_at [OF ru u])
  show ?thesis
  proof (cases "n = 0")
    case True
    then have r0: "rest q = CHR ''0'' # u" using r by (simp add: num_def)
    then show ?thesis using skip1_to [OF r0] stop by (simp add: skipNumber_def Let_def)
  next
    case False
    then have "v \<noteq> 0" by (simp add: v_def)
    then obtain c ds where c: "num_loop v [] = c # ds" "c \<noteq> CHR ''0''" "\<forall>d \<in> set (c # ds). is_digit d"
      using num_loop_digits [of v] by (cases "num_loop v []") auto
    have q1: "rest q1 = (c # ds) @ u \<and> in_buf q1 \<and> to q1 u = to q u"
    proof (cases "sint n < 0")
      case True
      then have r': "rest q = CHR ''-'' # c # ds @ u"
        using r False c by (simp add: num_def v_def Let_def)
      then have "q1 = to q (c # ds @ u)" using skip1_to [OF r'] by (simp add: q1_def)
      then show ?thesis using rest_to [of q "''-''"] r' by simp
    next
      case nn: False
      then have r': "rest q = c # ds @ u" using r False c by (simp add: num_def v_def)
      moreover have "c \<noteq> CHR ''-''" using c by (auto simp: is_digit_def bv_def)
      ultimately show ?thesis using ib by (simp add: q1_def)
    qed
    have "snd (digits_loop 0 q1) = to q u"
      using digits_loop_digits [of q1 "c # ds" u 0] q1 c u by simp
    moreover have "at q1 = c" "CHR ''1'' \<le> c \<and> c \<le> CHR ''9''" using q1 c digit_range by auto
    ultimately show ?thesis
      using c stop by (simp add: skipNumber_def Let_def flip: q1_def)
  qed
qed

lemma num_first: "\<exists>c t. num [] n = c # t \<and> (c = CHR ''-'' \<or> is_digit c)"
proof (cases "n = 0 \<or> sint n < 0")
  case True
  then show ?thesis by (auto simp: num_def Let_def is_digit_def bv_def)
next
  case False
  then obtain c t where "num_loop n [] = c # t" "is_digit c"
    using num_loop_digits [of n] by (cases "num_loop n []") auto
  then show ?thesis using False by (auto simp: num_def)
qed

lemma skips_num [skips_intros]: "skips 0 (num [] n)"
proof -
  obtain c t where c: "num [] n = c # t" "c = CHR ''-'' \<or> is_digit c" using num_first by blast
  have ne: "c \<notin> {QUOTE, CHR ''{'', CHR ''['', CHR ''t'', CHR ''f'', CHR ''n'', CHR '']''}"
    using c(2) by (auto simp: is_digit_def bv_def)
  show ?thesis
  proof (rule skipsI)
    fix q u assume r: "rest q = num [] n @ u" and u: "follows u"
    have "at q = c" using r c by simp
    then show "skipValue q = Inr (to q u)"
      using skipNumber_num [OF r follows_no_number [OF u]] ne c(2)
      by (auto simp: skipValue.simps [of q] Let_def)
  qed (use c(1) ne value_start_num [of n] in simp_all)
qed

subsection \<open>Containers\<close>

lemma follows_items_text: "follows (items_text d f vs @ close_text d c @ t)"
  by (cases vs) simp_all

lemma skip_members_object:
  assumes "rest q = key_text d k @ x @ members_text d ms @ close_text d (CHR ''}'' # []) @ t"
    and "\<forall>(k, x) \<in> set ((k, x) # ms). validUTF8 k \<and> skips h x" and "r_depth q + h \<le> depthLimit"
  shows "skip_members (CHR ''{'') q = Inr (to q (CHR ''}'' # t))"
  using assms
proof (induction ms arbitrary: q k x)
  case (Cons m ms)
  obtain k' x' where m: "m = (k', x')" by (cases m)
  let ?b = "key_text d k' @ x' @ members_text d ms @ close_text d ''}'' @ t"
  let ?u = "CHR '','' # ?b"
  have r: "rest q = key_text d k @ x @ ?u" using Cons.prems m by simp
  have sx: "validUTF8 k" "skips h x" "value_start x" using Cons.prems by (simp_all add: skips_def)
  have mk: "member_key (ws q) = Inr (k, to q (x @ ?u))"
    by (rule member_key_text [OF r]) (use sx in simp_all)
  have rx: "rest (to q (x @ ?u)) = x @ ?u" by (rule rest_to [OF r])
  have sv: "skipValue (to q (x @ ?u)) = Inr (to q ?u)"
    using sx(2) rx Cons.prems(3) by (simp add: skips_def)
  have ru: "rest (to q ?u) = ?u" using rest_to [OF rx] by simp
  have w: "ws (to q ?u) = to q ?u" by (rule ws_none [OF ru]) simp
  have rb: "rest (to q ?b) = ?b" using rest_to [of "to q ?u" "'',''" ?b] ru by simp
  have "skip_members (CHR ''{'') q = skip_members (CHR ''{'') (to q ?b)"
    using mk sv w ru skip1_to [OF ru] by (simp add: skip_members.simps [of _ q] Let_def)
  also have "\<dots> = Inr (to (to q ?b) (CHR ''}'' # t))"
    by (rule Cons.IH [OF rb]) (use Cons.prems m in auto)
  finally show ?case by simp
next
  case Nil
  let ?u = "close_text d ''}'' @ t"
  have r: "rest q = key_text d k @ x @ ?u" using Nil.prems by simp
  have sx: "validUTF8 k" "skips h x" "value_start x" using Nil.prems by (simp_all add: skips_def)
  have mk: "member_key (ws q) = Inr (k, to q (x @ ?u))"
    by (rule member_key_text [OF r]) (use sx in simp_all)
  have rx: "rest (to q (x @ ?u)) = x @ ?u" by (rule rest_to [OF r])
  have sv: "skipValue (to q (x @ ?u)) = Inr (to q ?u)"
    using sx(2) rx Nil.prems(3) by (simp add: skips_def)
  have ru: "rest (to q ?u) = LF # pad [] d @ CHR ''}'' # t"
    using rest_to [OF rx] by (simp add: close_text_def)
  have w: "ws (to q ?u) = to q (CHR ''}'' # t)" using ws_pad [OF ru] by simp
  have "rest (to q (CHR ''}'' # t)) = CHR ''}'' # t"
    using rest_to [of "to q ?u" "LF # pad [] d"] ru by simp
  then show ?case using mk sv w by (simp add: skip_members.simps [of _ q] Let_def)
qed

text \<open>The rest of a container, once its members are walked over.\<close>

lemma skipContainer_text:
  assumes r: "rest q = c # b @ z # t" and c: "c = CHR ''{'' \<and> z = CHR ''}'' \<or> c = CHR ''['' \<and> z = CHR '']''"
    and dep: "r_depth q < depthLimit"
    and m: "(if at (ws (to (deeper q) (b @ z # t))) \<noteq> z
        then skip_members c (ws (to (deeper q) (b @ z # t))) else Inr (ws (to (deeper q) (b @ z # t))))
      = Inr (to (deeper q) (z # t))"
  shows "skipValue q = Inr (to q t)"
proof -
  have en: "enter q = Inr (deeper q)" using dep by (simp add: enter_def deeper_def Let_def)
  have rd: "rest (deeper q) = c # b @ z # t" using r by simp
  have rz: "rest (to (deeper q) (z # t)) = z # t"
    by (rule rest_to [where a = "c # b"]) (simp add: r)
  have lv: "leave (to (deeper q) (z # t)) = to q t"
    using skip1_to [OF rz] by (simp add: leave_def deeper_def to_def)
  have n: "r_pos q < length (r_buf q)" "r_buf q ! r_pos q = c" using rest_nonempty [OF r] by simp_all
  have sh: "(if c = CHR ''['' then CHR '']'' else CHR ''}'') = z" using c by auto
  have "skipContainer q = Inr (to q t)"
    using n(1) rz lv
    by (simp only: skipContainer.simps [of q] Let_def n(2) sh en skip1_to [OF rd] m sum.case) simp
  moreover have "at q = c" using r by simp
  ultimately show ?thesis using c by (auto simp: skipValue.simps [of q])
qed

lemma skip_members_ws: "skip_members c (ws q) = skip_members c q"
  by (simp add: skip_members.simps [of c q] skip_members.simps [of c "ws q"] ws_ws)

lemma skips_object [skips_intros]:
  assumes "\<forall>(k, x) \<in> set ms. validUTF8 k \<and> skips h x" "ms \<noteq> []"
  shows "skips (h + 1) (object_text d ms)"
proof (rule skipsI)
  obtain k x ms' where ms: "ms = (k, x) # ms'" using assms(2) by (cases ms) auto
  fix q u assume r: "rest q = object_text d ms @ u" and dep: "r_depth q + (h + 1) \<le> depthLimit"
  let ?b = "key_text d k @ x @ members_text d ms' @ LF # pad [] d"
  let ?q = "to (deeper q) (?b @ CHR ''}'' # u)"
  have r': "rest q = CHR ''{'' # ?b @ CHR ''}'' # u"
    using r ms by (simp add: object_text_def close_text_def)
  have rq: "rest ?q = ?b @ CHR ''}'' # u" by (rule rest_to [where a = "''{''"]) (simp add: r')
  have sm: "skip_members (CHR ''{'') ?q = Inr (to ?q (CHR ''}'' # u))"
    by (rule skip_members_object [where k = k and x = x and ms = ms' and d = d and h = h])
      (use rq assms ms dep in \<open>auto simp: close_text_def\<close>)
  have "ws ?q = to ?q (esc [] k @ '': '' @ x @ members_text d ms' @ LF # pad [] d @ CHR ''}'' # u)"
    using ws_pad [of ?q "d + 1"] rq by (simp add: key_text_def)
  moreover have "rest (to ?q (esc [] k @ '': '' @ x @ members_text d ms' @ LF # pad [] d @ CHR ''}'' # u))
      = esc [] k @ '': '' @ x @ members_text d ms' @ LF # pad [] d @ CHR ''}'' # u"
    by (rule rest_to [where a = "LF # pad [] (d + 1)"]) (use rq in \<open>simp add: key_text_def\<close>)
  ultimately have "at (ws ?q) \<noteq> CHR ''}''" by (simp add: esc_text)
  then show "skipValue q = Inr (to q u)"
    using sm dep skip_members_ws [of "CHR ''{''" ?q] by (intro skipContainer_text [OF r']) simp_all
qed simp_all

lemma skip_members_items:
  assumes "rest q = item_line d @ f v @ items_text d f vs @ close_text d '']'' @ t"
    and "\<forall>w \<in> set (v # vs). skips h (f w)" and "r_depth q + h \<le> depthLimit"
  shows "skip_members (CHR ''['') q = Inr (to q (CHR '']'' # t))"
  using assms
proof (induction vs arbitrary: q v)
  case (Cons w vs)
  let ?b = "item_line d @ f w @ items_text d f vs @ close_text d '']'' @ t"
  let ?u = "CHR '','' # ?b"
  have r: "rest q = item_line d @ f v @ ?u" using Cons.prems by simp
  have sx: "skips h (f v)" "value_start (f v)" using Cons.prems by (simp_all add: skips_def)
  have ws1: "ws q = to q (f v @ ?u)"
    by (rule ws_pad [where n = "d + 1"]) (use r sx in \<open>simp_all add: item_line_def\<close>)
  have rx: "rest (to q (f v @ ?u)) = f v @ ?u" by (rule rest_to [OF r])
  have sv: "skipValue (to q (f v @ ?u)) = Inr (to q ?u)"
    using sx(1) rx Cons.prems(3) by (simp add: skips_def)
  have ru: "rest (to q ?u) = ?u" using rest_to [OF rx] by simp
  have w: "ws (to q ?u) = to q ?u" by (rule ws_none [OF ru]) simp
  have rb: "rest (to q ?b) = ?b" using rest_to [of "to q ?u" "'',''" ?b] ru by simp
  have "skip_members (CHR ''['') q = skip_members (CHR ''['') (to q ?b)"
    using ws1 sv w ru skip1_to [OF ru] by (simp add: skip_members.simps [of _ q] Let_def)
  also have "\<dots> = Inr (to (to q ?b) (CHR '']'' # t))"
    by (rule Cons.IH [OF rb]) (use Cons.prems in auto)
  finally show ?case by simp
next
  case Nil
  let ?u = "close_text d '']'' @ t"
  have r: "rest q = item_line d @ f v @ ?u" using Nil.prems by simp
  have sx: "skips h (f v)" "value_start (f v)" using Nil.prems by (simp_all add: skips_def)
  have ws1: "ws q = to q (f v @ ?u)"
    by (rule ws_pad [where n = "d + 1"]) (use r sx in \<open>simp_all add: item_line_def\<close>)
  have rx: "rest (to q (f v @ ?u)) = f v @ ?u" by (rule rest_to [OF r])
  have sv: "skipValue (to q (f v @ ?u)) = Inr (to q ?u)"
    using sx(1) rx Nil.prems(3) by (simp add: skips_def)
  have ru: "rest (to q ?u) = LF # pad [] d @ CHR '']'' # t"
    using rest_to [OF rx] by (simp add: close_text_def)
  have w: "ws (to q ?u) = to q (CHR '']'' # t)" using ws_pad [OF ru] by simp
  have "rest (to q (CHR '']'' # t)) = CHR '']'' # t"
    using rest_to [of "to q ?u" "LF # pad [] d"] ru by simp
  then show ?case using ws1 sv w by (simp add: skip_members.simps [of _ q] Let_def)
qed

lemma skips_list [skips_intros]:
  assumes "\<forall>v \<in> set vs. skips h (f v)"
  shows "skips (h + 1) (list_text d f vs)"
proof (rule skipsI)
  fix q u assume r: "rest q = list_text d f vs @ u" and dep: "r_depth q + (h + 1) \<le> depthLimit"
  show "skipValue q = Inr (to q u)"
  proof (cases vs)
    case Nil
    let ?q = "to (deeper q) (CHR '']'' # u)"
    have r': "rest q = CHR ''['' # [] @ CHR '']'' # u" using r Nil by (simp add: list_text_def)
    have rq: "rest ?q = CHR '']'' # u" by (rule rest_to [where a = "''[''"]) (simp add: r')
    have "ws ?q = ?q" by (rule ws_none [OF rq]) simp
    then show ?thesis using rq dep by (intro skipContainer_text [OF r']) simp_all
  next
    case (Cons v vs')
    let ?b = "item_line d @ f v @ items_text d f vs' @ LF # pad [] d"
    let ?q = "to (deeper q) (?b @ CHR '']'' # u)"
    have r': "rest q = CHR ''['' # ?b @ CHR '']'' # u"
      using r Cons by (simp add: list_text_def close_text_def)
    have rq: "rest ?q = ?b @ CHR '']'' # u" by (rule rest_to [where a = "''[''"]) (simp add: r')
    have sm: "skip_members (CHR ''['') ?q = Inr (to ?q (CHR '']'' # u))"
      by (rule skip_members_items [where v = v and vs = vs' and d = d and h = h and f = f])
        (use rq assms Cons dep in \<open>auto simp: close_text_def\<close>)
    obtain c z where cz: "f v = c # z" "\<not> is_ws c" "c \<noteq> CHR '']''"
      using assms Cons by (auto simp: skips_def value_start_def)
    let ?x = "f v @ items_text d f vs' @ LF # pad [] d @ CHR '']'' # u"
    have "ws ?q = to ?q ?x"
      using ws_pad [of ?q "d + 1" ?x] rq cz by (simp add: item_line_def)
    moreover have "rest (to ?q ?x) = ?x"
      by (rule rest_to [where a = "item_line d"]) (use rq in simp)
    ultimately have "at (ws ?q) \<noteq> CHR '']''" using cz by simp
    then show ?thesis
      using sm dep skip_members_ws [of "CHR ''[''" ?q] by (intro skipContainer_text [OF r']) simp_all
  qed
qed (simp_all add: list_text_def split: list.split)

subsection \<open>Records are skipped whole\<close>

lemma skips_entries:
  "skips h x \<Longrightarrow> h \<le> h' \<Longrightarrow> validUTF8 k \<Longrightarrow> validUTF8 k \<and> skips h' x"
  using skips_mono by blast

lemma skips_attestation [skips_intros]: "utf8_attestation a \<Longrightarrow> skips 1 (attestation_text d a)"
  unfolding attestation_text_def
  using skips_object [of "texts (attestation_members a)" 0 d]
  by (simp add: attestation_members_def optional_def utf8_attestation_def skips_intros)

lemma skips_map [skips_intros]: "utf8_map m \<Longrightarrow> m \<noteq> [] \<Longrightarrow> skips 1 (object_text d (texts (map_members m)))"
  using skips_object [of "texts (map_members m)" 0 d]
  by (auto simp: utf8_map_def list_all_iff map_members_def texts_def split_beta skips_esc)

lemma skips_record [skips_intros]:
  assumes "utf8_record v"
  shows "skips 3 (record_text d v)"
proof -
  have "skips 2 (list_text (d + 1) (attestation_text (d + 2)) (wr_identity v))"
    by (rule skips_mono [OF skips_list [where h = 1]])
      (use assms in \<open>simp_all add: utf8_record_def list_all_iff skips_attestation [simplified]\<close>)
  moreover have "wr_attrs v \<noteq> [] \<Longrightarrow>
      skips 2 (object_text (d + 1) (texts (map_members (sorted_map (wr_attrs v)))))"
    using assms by (intro skips_mono [OF skips_map])
      (simp_all add: utf8_record_def utf8_sorted_map sorted_map_Nil)
  moreover have "skips 2 (esc [] s)" if "validUTF8 s" for s using skips_mono [OF skips_esc [OF that]] by simp
  moreover have "skips 2 (num [] n)" for n using skips_mono [OF skips_num] by simp
  ultimately show ?thesis
    using skips_object [of "texts (record_members d v)" 2 d] assms
    by (simp add: record_text_def record_members_def optional_def utf8_record_def validUTF8_normalized)
qed

subsection \<open>Reading the other types back\<close>

lemma rawValue_back [reads_back]:
  assumes "rest q = x @ u" "skips h x" "follows u" "r_depth q + h \<le> depthLimit"
  shows "rawValue q = Inr (x, to q u)"
proof -
  have v: "skipValue q = Inr (to q u)" using assms by (simp add: skips_def)
  have "x \<noteq> []" using assms(2) by (auto simp: skips_def value_start_def)
  then have "r_pos q + length x + length u = length (r_buf q)" by (intro rest_Cons_length [OF assms(1)])
  then have "r_pos (to q u) - r_pos q = length x" by (simp add: to_def)
  then show ?thesis using v assms(1) by (simp add: rawValue_def flip: rest_def)
qed

lemma version_int_back [reads_back]:
  assumes "rest q = num [] (scast (v :: 32 word)) @ u" "follows u"
  shows "version_int q = Inr (scast v, to q u)"
proof -
  have s: "sint (scast v :: i64) = sint v" by (simp add: sint_up_scast is_up)
  have "sint (- 2147483648 :: i64) = - 2147483648" "sint (2147483647 :: i64) = 2147483647" by simp_all
  then show ?thesis
    unfolding version_int_def using assms sint_ge [of v] sint_lt [of v]
    by (intro integer_num) (simp_all add: s follows_no_number)
qed

lemma version_stored: "(ucast (scast v :: i64) :: 32 word) = v" for v :: "32 word"
proof (rule bit_word_eqI)
  fix n :: nat
  assume "n < LENGTH(32)"
  then have "n < 31 \<or> n = 31" by auto
  then show "bit (ucast (scast v :: i64) :: 32 word) n = bit v n"
    by (auto simp: bit_unsigned_iff bit_signed_iff)
qed

lemma frame_keys [simp]:
  "validUTF8 ''outcome''" "validUTF8 ''records''" "validUTF8 ''next''" "validUTF8 ''at_end''"
  "validUTF8 ''record''" "validUTF8 ''cursor''" "validUTF8 ''max_records''" "validUTF8 ''max_bytes''"
  "validUTF8 ''wait_ms''" "validUTF8 ''version''" "validUTF8 ''service''" "validUTF8 ''method''"
  "validUTF8 ''arguments''" "validUTF8 ''ok''" "validUTF8 ''payload''" "validUTF8 ''code''"
  "validUTF8 ''message''" "validUTF8 ''value''"
  by code_simp+

lemmas evaluates_text = Let_def append_assoc texts_simps members_text_append optional_simps
  members_text.simps member.sel append_Cons append_Nil append_Nil2 list.sel sum.case if_Inr writes

definition read_args_members :: "nat \<Rightarrow> read_args \<Rightarrow> read_args member list" where
  "read_args_members d v =
     [Member ''cursor'' (esc [] (ra_cursor v)) (\<lambda>w. w\<lparr>ra_cursor := ra_cursor v\<rparr>) 1,
      Member ''max_records'' (num [] (ra_max_records v)) (\<lambda>w. w\<lparr>ra_max_records := ra_max_records v\<rparr>) 2,
      Member ''max_bytes'' (num [] (ra_max_bytes v)) (\<lambda>w. w\<lparr>ra_max_bytes := ra_max_bytes v\<rparr>) 4]"

definition read_args_text :: "nat \<Rightarrow> read_args \<Rightarrow> string" where
  "read_args_text d v = object_text d (texts (read_args_members d v))"

lemma read_args_flags:
  "distinct_flags (read_args_members d v)" "flags (read_args_members d v) AND 7 = 7"
  by (simp_all add: read_args_members_def distinct_flags_def)

definition observe_args_members :: "nat \<Rightarrow> observe_args \<Rightarrow> observe_args member list" where
  "observe_args_members d v =
     [Member ''cursor'' (esc [] (oa_cursor v)) (\<lambda>w. w\<lparr>oa_cursor := oa_cursor v\<rparr>) 1,
      Member ''max_records'' (num [] (oa_max_records v)) (\<lambda>w. w\<lparr>oa_max_records := oa_max_records v\<rparr>) 2,
      Member ''max_bytes'' (num [] (oa_max_bytes v)) (\<lambda>w. w\<lparr>oa_max_bytes := oa_max_bytes v\<rparr>) 4,
      Member ''wait_ms'' (num [] (oa_wait_ms v)) (\<lambda>w. w\<lparr>oa_wait_ms := oa_wait_ms v\<rparr>) 8]"

definition observe_args_text :: "nat \<Rightarrow> observe_args \<Rightarrow> string" where
  "observe_args_text d v = object_text d (texts (observe_args_members d v))"

lemma observe_args_flags:
  "distinct_flags (observe_args_members d v)" "flags (observe_args_members d v) AND 15 = 15"
  by (simp_all add: observe_args_members_def distinct_flags_def)

definition service_frame_members :: "nat \<Rightarrow> service_frame \<Rightarrow> service_frame member list" where
  "service_frame_members d v =
     [Member ''version'' (num [] (scast (sf_version v))) (\<lambda>w. w\<lparr>sf_version := sf_version v\<rparr>) 1,
      Member ''service'' (esc [] (sf_service v)) (\<lambda>w. w\<lparr>sf_service := sf_service v\<rparr>) 2,
      Member ''method'' (esc [] (sf_method v)) (\<lambda>w. w\<lparr>sf_method := sf_method v\<rparr>) 4,
      Member ''arguments'' (sf_arguments v) (\<lambda>w. w\<lparr>sf_arguments := sf_arguments v\<rparr>) 8]"

definition service_frame_text :: "nat \<Rightarrow> service_frame \<Rightarrow> string" where
  "service_frame_text d v = object_text d (texts (service_frame_members d v))"

lemma service_frame_flags:
  "distinct_flags (service_frame_members d v)" "flags (service_frame_members d v) AND 15 = 15"
  by (simp_all add: service_frame_members_def distinct_flags_def)

definition service_reply_members :: "nat \<Rightarrow> service_reply \<Rightarrow> service_reply member list" where
  "service_reply_members d v =
     [Member ''version'' (num [] (scast (sr_version v))) (\<lambda>w. w\<lparr>sr_version := sr_version v\<rparr>) 1,
      Member ''service'' (esc [] (sr_service v)) (\<lambda>w. w\<lparr>sr_service := sr_service v\<rparr>) 2,
      Member ''method'' (esc [] (sr_method v)) (\<lambda>w. w\<lparr>sr_method := sr_method v\<rparr>) 4,
      Member ''ok'' (put_bool [] (sr_ok v)) (\<lambda>w. w\<lparr>sr_ok := sr_ok v\<rparr>) 8,
      Member ''payload'' (sr_payload v) (\<lambda>w. w\<lparr>sr_payload := sr_payload v\<rparr>) 16]"

definition service_reply_text :: "nat \<Rightarrow> service_reply \<Rightarrow> string" where
  "service_reply_text d v = object_text d (texts (service_reply_members d v))"

lemma service_reply_flags:
  "distinct_flags (service_reply_members d v)" "flags (service_reply_members d v) AND 31 = 31"
  by (simp_all add: service_reply_members_def distinct_flags_def)

definition service_error_members :: "nat \<Rightarrow> service_error \<Rightarrow> service_error member list" where
  "service_error_members d v =
     [Member ''code'' (esc [] (se_code v)) (\<lambda>w. w\<lparr>se_code := se_code v\<rparr>) 1,
      Member ''message'' (esc [] (se_message v)) (\<lambda>w. w\<lparr>se_message := se_message v\<rparr>) 2]"

definition service_error_text :: "nat \<Rightarrow> service_error \<Rightarrow> string" where
  "service_error_text d v = object_text d (texts (service_error_members d v))"

lemma service_error_flags:
  "distinct_flags (service_error_members d v)" "flags (service_error_members d v) AND 3 = 3"
  by (simp_all add: service_error_members_def distinct_flags_def)

definition sink_args_members :: "nat \<Rightarrow> sink_args \<Rightarrow> sink_args member list" where
  "sink_args_members d v =
     [Member ''record'' (record_text (d + 1) (sa_record v)) (\<lambda>w. w\<lparr>sa_record := canonical (sa_record v)\<rparr>) 1]"

definition sink_args_text :: "nat \<Rightarrow> sink_args \<Rightarrow> string" where
  "sink_args_text d v = object_text d (texts (sink_args_members d v))"

lemma sink_args_flags:
  "distinct_flags (sink_args_members d v)" "flags (sink_args_members d v) AND 1 = 1"
  by (simp_all add: sink_args_members_def distinct_flags_def)

definition page_members :: "nat \<Rightarrow> wire_page \<Rightarrow> wire_page member list" where
  "page_members d v =
     [Member ''outcome'' (esc [] (pg_outcome v)) (\<lambda>w. w\<lparr>pg_outcome := pg_outcome v\<rparr>) 1,
      Member ''records'' (list_text (d + 1) (record_text (d + 2)) (pg_records v)) (\<lambda>w. w\<lparr>pg_records := map canonical (pg_records v)\<rparr>) 2,
      Member ''next'' (esc [] (pg_next v)) (\<lambda>w. w\<lparr>pg_next := pg_next v\<rparr>) 4,
      Member ''at_end'' (put_bool [] (pg_at_end v)) (\<lambda>w. w\<lparr>pg_at_end := pg_at_end v\<rparr>) 8]"

definition page_text :: "nat \<Rightarrow> wire_page \<Rightarrow> string" where
  "page_text d v = object_text d (texts (page_members d v))"

lemma page_flags:
  "distinct_flags (page_members d v)" "flags (page_members d v) AND 15 = 15"
  by (simp_all add: page_members_def distinct_flags_def)

definition canonical_page :: "wire_page \<Rightarrow> wire_page" where
  "canonical_page v = v\<lparr>pg_records := map canonical (pg_records v)\<rparr>"

definition page_result_members :: "nat \<Rightarrow> page_result \<Rightarrow> page_result member list" where
  "page_result_members d v =
     [Member ''value'' (page_text (d + 1) (pr_value v)) (\<lambda>w. w\<lparr>pr_value := canonical_page (pr_value v)\<rparr>) 1]"

definition page_result_text :: "nat \<Rightarrow> page_result \<Rightarrow> string" where
  "page_result_text d v = object_text d (texts (page_result_members d v))"

lemma page_result_flags:
  "distinct_flags (page_result_members d v)" "flags (page_result_members d v) AND 1 = 1"
  by (simp_all add: page_result_members_def distinct_flags_def)

subsection \<open>What the writers write\<close>

lemma encOAHistoryReaderReadArguments_text: "encOAHistoryReaderReadArguments out v d = out @ read_args_text d v"
  unfolding encOAHistoryReaderReadArguments_def read_args_text_def object_text_def read_args_members_def
  by (simp only: writes append_assoc) (simp only: evaluates_text)

lemma encOAHistoryObserverObserveArguments_text: "encOAHistoryObserverObserveArguments out v d = out @ observe_args_text d v"
  unfolding encOAHistoryObserverObserveArguments_def observe_args_text_def object_text_def observe_args_members_def
  by (simp only: writes append_assoc) (simp only: evaluates_text)

lemma encOAServiceFrame_text: "encOAServiceFrame out v d = out @ service_frame_text d v"
  unfolding encOAServiceFrame_def service_frame_text_def object_text_def service_frame_members_def
  by (simp only: writes append_assoc) (simp only: evaluates_text)

lemma encOAServiceReply_text: "encOAServiceReply out v d = out @ service_reply_text d v"
  unfolding encOAServiceReply_def service_reply_text_def object_text_def service_reply_members_def
  by (simp only: writes append_assoc) (simp only: evaluates_text)

lemma encOAServiceError_text: "encOAServiceError out v d = out @ service_error_text d v"
  unfolding encOAServiceError_def service_error_text_def object_text_def service_error_members_def
  by (simp only: writes append_assoc) (simp only: evaluates_text)

lemma encOASinkWriteArguments_text:
  "writable (sa_record v) \<Longrightarrow> encOASinkWriteArguments out v d = Inr (out @ sink_args_text d v)"
  by (simp add: encOASinkWriteArguments_def encRecord_text put_key_text put_close_text
      sink_args_text_def object_text_def sink_args_members_def)

definition writable_page :: "wire_page \<Rightarrow> bool" where
  "writable_page v \<longleftrightarrow> page_outcome_ok v \<and> list_all writable (pg_records v)"

lemma encPage_text:
  assumes "writable_page v"
  shows "encPage out v d = Inr (out @ page_text d v)"
proof -
  have l: "encList o2 (pg_records v) (d + 1) encRecord
      = Inr (o2 @ list_text (d + 1) (record_text (d + 2)) (pg_records v))" for o2
    using assms by (intro encList_text) (simp add: encRecord_text writable_page_def list_all_iff)
  have "page_outcome_ok v" using assms by (simp add: writable_page_def)
  then show ?thesis
    unfolding encPage_def page_text_def object_text_def page_members_def l
    by (simp only: writes append_assoc sum.case) (simp only: evaluates_text simp_thms if_False)
qed

lemma encPage_Inr: "(\<exists>out'. encPage out v d = Inr out') \<longleftrightarrow> writable_page v"
proof
  assume "\<exists>out'. encPage out v d = Inr out'"
  then have "page_outcome_ok v" "\<exists>o1 o2. encList o1 (pg_records v) (d + 1) encRecord = Inr o2"
    by (auto simp: encPage_def Let_def split: if_splits sum.splits)
  then show "writable_page v"
    using encList_Inr encRecord_Inr unfolding writable_page_def list_all_iff by metis
qed (simp add: encPage_text)

lemma encPage_Inl: "\<not> writable_page v \<Longrightarrow> \<exists>e. encPage out v d = Inl e"
  using encPage_Inr [of out v d] by (cases "encPage out v d") auto

lemma encOAHistoryReaderReadResult_text:
  "writable_page (pr_value v) \<Longrightarrow> encOAHistoryReaderReadResult out v d = Inr (out @ page_result_text d v)"
  by (simp add: encOAHistoryReaderReadResult_def encPage_text put_key_text put_close_text
      page_result_text_def object_text_def page_result_members_def)

lemma encOAHistoryObserverObserveResult_text:
  "encOAHistoryObserverObserveResult = encOAHistoryReaderReadResult"
  by (intro ext) (simp add: encOAHistoryObserverObserveResult_def encOAHistoryReaderReadResult_def)

lemma decodeOAHistoryObserverObserveResult_eq:
  "decodeOAHistoryObserverObserveResult = decodeOAHistoryReaderReadResult"
  by (intro ext) (simp add: decodeOAHistoryObserverObserveResult_def decodeOAHistoryReaderReadResult_def)

subsection \<open>What the readers read back\<close>

text \<open>How deep a value's text nests bounds the depth it can be read at.\<close>

lemma object_texts_start [simp]: "value_start (record_text d v)" "value_start (page_text d p)"
  by (simp_all add: record_text_def page_text_def)

lemma records_back [reads_back]:
  assumes "rest q = list_text d (record_text d') vs @ u" "list_all utf8_record vs"
    "list_all writable vs" "list_all map_record vs" "r_depth q + 3 < depthLimit"
  shows "decode_list records_loop q = Inr (map canonical vs, to q u)"
  using records.decode_list_text [of q d "record_text d'" vs u canonical] assms decodeRecord_text
  by (simp add: list_all_iff record_text_def)

definition utf8_page :: "wire_page \<Rightarrow> bool" where
  "utf8_page v \<longleftrightarrow> validUTF8 (pg_outcome v) \<and> validUTF8 (pg_next v)
     \<and> list_all utf8_record (pg_records v) \<and> list_all map_record (pg_records v)"

lemma decodePage_text [reads_back]:
  assumes "rest q = page_text d v @ u" "utf8_page v" "writable_page v" "r_depth q + 4 < depthLimit"
  shows "decodePage q = Inr (canonical_page v, to q u)"
proof -
  have "\<forall>m \<in> set (page_members d v). reads_member page_field (r_depth q + 1) m"
    using assms unfolding page_members_def utf8_page_def writable_page_def
    by (simp add: ball_Un) (intro conjI; rule reads_memberI; simp add: page_field_def once_def reads_back)
  moreover have "page_members d v \<noteq> []" by (simp add: page_members_def)
  moreover have "stored (page_members d v) zero_page = canonical_page v"
    by (simp add: page_members_def canonical_page_def zero_page_def)
  ultimately have "decode_object page_loop 15 zero_page q = Inr (canonical_page v, to q u)"
    using page.decode_members [of q d "page_members d v" u 15 zero_page] assms page_flags
    by (simp add: page_text_def)
  moreover have "page_outcome_ok (canonical_page v)"
    using assms by (simp add: canonical_page_def writable_page_def page_outcome_ok_def)
  ultimately show ?thesis by (simp add: decodePage_def)
qed

lemma decodeOASinkWriteArguments_text [reads_back]:
  assumes "rest q = sink_args_text d v @ u" "utf8_record (sa_record v)" "writable (sa_record v)" "map_record (sa_record v)" "r_depth q + 3 < depthLimit"
  shows "decodeOASinkWriteArguments q = Inr (\<lparr>sa_record = canonical (sa_record v)\<rparr>, to q u)"
proof -
  have "\<forall>m \<in> set (sink_args_members d v). reads_member sink_args_field (r_depth q + 1) m"
    using assms unfolding sink_args_members_def
    by (simp add: ball_Un) ((intro conjI)?; rule reads_memberI; simp add: sink_args_field_def once_def reads_back version_stored)
  moreover have "sink_args_members d v \<noteq> []" by (simp add: sink_args_members_def)
  moreover have "stored (sink_args_members d v) zero_sink_args = \<lparr>sa_record = canonical (sa_record v)\<rparr>"
    by (cases v) (simp add: sink_args_members_def zero_sink_args_def)
  ultimately show ?thesis
    using sink_args.decode_members [of q d "sink_args_members d v" u 1 zero_sink_args] assms sink_args_flags
    by (simp add: sink_args_text_def decodeOASinkWriteArguments_def)
qed

lemma decodeOAHistoryReaderReadArguments_text [reads_back]:
  assumes "rest q = read_args_text d v @ u" "validUTF8 (ra_cursor v)" "r_depth q + 0 < depthLimit"
  shows "decodeOAHistoryReaderReadArguments q = Inr (v, to q u)"
proof -
  have "\<forall>m \<in> set (read_args_members d v). reads_member read_args_field (r_depth q + 1) m"
    using assms unfolding read_args_members_def
    by (simp add: ball_Un) ((intro conjI)?; rule reads_memberI; simp add: read_args_field_def once_def reads_back version_stored)
  moreover have "read_args_members d v \<noteq> []" by (simp add: read_args_members_def)
  moreover have "stored (read_args_members d v) zero_read_args = v"
    by (cases v) (simp add: read_args_members_def zero_read_args_def)
  ultimately show ?thesis
    using read_args.decode_members [of q d "read_args_members d v" u 7 zero_read_args] assms read_args_flags
    by (simp add: read_args_text_def decodeOAHistoryReaderReadArguments_def)
qed

lemma decodeOAHistoryObserverObserveArguments_text [reads_back]:
  assumes "rest q = observe_args_text d v @ u" "validUTF8 (oa_cursor v)" "r_depth q + 0 < depthLimit"
  shows "decodeOAHistoryObserverObserveArguments q = Inr (v, to q u)"
proof -
  have "\<forall>m \<in> set (observe_args_members d v). reads_member observe_args_field (r_depth q + 1) m"
    using assms unfolding observe_args_members_def
    by (simp add: ball_Un) ((intro conjI)?; rule reads_memberI; simp add: observe_args_field_def once_def reads_back version_stored)
  moreover have "observe_args_members d v \<noteq> []" by (simp add: observe_args_members_def)
  moreover have "stored (observe_args_members d v) zero_observe_args = v"
    by (cases v) (simp add: observe_args_members_def zero_observe_args_def)
  ultimately show ?thesis
    using observe_args.decode_members [of q d "observe_args_members d v" u 15 zero_observe_args] assms observe_args_flags
    by (simp add: observe_args_text_def decodeOAHistoryObserverObserveArguments_def)
qed

lemma decodeOAServiceError_text [reads_back]:
  assumes "rest q = service_error_text d v @ u" "validUTF8 (se_code v)" "validUTF8 (se_message v)" "r_depth q + 0 < depthLimit"
  shows "decodeOAServiceError q = Inr (v, to q u)"
proof -
  have "\<forall>m \<in> set (service_error_members d v). reads_member service_error_field (r_depth q + 1) m"
    using assms unfolding service_error_members_def
    by (simp add: ball_Un) ((intro conjI)?; rule reads_memberI; simp add: service_error_field_def once_def reads_back version_stored)
  moreover have "service_error_members d v \<noteq> []" by (simp add: service_error_members_def)
  moreover have "stored (service_error_members d v) zero_service_error = v"
    by (cases v) (simp add: service_error_members_def zero_service_error_def)
  ultimately show ?thesis
    using service_error.decode_members [of q d "service_error_members d v" u 3 zero_service_error] assms service_error_flags
    by (simp add: service_error_text_def decodeOAServiceError_def)
qed

lemma decodeOAHistoryReaderReadResult_text [reads_back]:
  assumes "rest q = page_result_text d v @ u" "utf8_page (pr_value v)" "writable_page (pr_value v)" "r_depth q + 5 < depthLimit"
  shows "decodeOAHistoryReaderReadResult q = Inr (\<lparr>pr_value = canonical_page (pr_value v)\<rparr>, to q u)"
proof -
  have "\<forall>m \<in> set (page_result_members d v). reads_member page_result_field (r_depth q + 1) m"
    using assms unfolding page_result_members_def
    by (simp add: ball_Un) ((intro conjI)?; rule reads_memberI; simp add: page_result_field_def once_def reads_back version_stored)
  moreover have "page_result_members d v \<noteq> []" by (simp add: page_result_members_def)
  moreover have "stored (page_result_members d v) zero_page_result = \<lparr>pr_value = canonical_page (pr_value v)\<rparr>"
    by (cases v) (simp add: page_result_members_def zero_page_result_def)
  ultimately show ?thesis
    using page_result.decode_members [of q d "page_result_members d v" u 1 zero_page_result] assms page_result_flags
    by (simp add: page_result_text_def decodeOAHistoryReaderReadResult_def)
qed

lemma decodeOAServiceFrame_text:
  assumes "rest q = service_frame_text d v @ u" "validUTF8 (sf_service v)" "validUTF8 (sf_method v)"
    "skips h (sf_arguments v)" "r_depth q + 1 + h \<le> depthLimit"
  shows "decodeOAServiceFrame q = Inr (v, to q u)"
proof -
  have dep: "r_depth q < depthLimit" using assms(5) by simp
  have st: "value_start (sf_arguments v)" using assms(4) by (simp add: skips_def)
  have "rawValue p = Inr (sf_arguments v, to p w)"
    if "rest p = sf_arguments v @ w" "follows w" "r_depth p = Suc (r_depth q)" for p w
    using rawValue_back [OF that(1) assms(4) that(2)] that(3) assms(5) by simp
  then have "\<forall>m \<in> set (service_frame_members d v). reads_member service_frame_field (r_depth q + 1) m"
    using assms(2,3) st unfolding service_frame_members_def
    by (simp add: ball_Un)
      (intro conjI; rule reads_memberI; simp add: service_frame_field_def once_def reads_back version_stored)
  moreover have "service_frame_members d v \<noteq> []" by (simp add: service_frame_members_def)
  moreover have "stored (service_frame_members d v) zero_service_frame = v"
    by (cases v) (simp add: service_frame_members_def zero_service_frame_def)
  ultimately show ?thesis
    using service_frame.decode_members [of q d "service_frame_members d v" u 15 zero_service_frame] assms(1) dep service_frame_flags
    by (simp add: service_frame_text_def decodeOAServiceFrame_def)
qed

lemma decodeOAServiceReply_text:
  assumes "rest q = service_reply_text d v @ u" "validUTF8 (sr_service v)" "validUTF8 (sr_method v)"
    "skips h (sr_payload v)" "r_depth q + 1 + h \<le> depthLimit"
  shows "decodeOAServiceReply q = Inr (v, to q u)"
proof -
  have dep: "r_depth q < depthLimit" using assms(5) by simp
  have st: "value_start (sr_payload v)" using assms(4) by (simp add: skips_def)
  have "rawValue p = Inr (sr_payload v, to p w)"
    if "rest p = sr_payload v @ w" "follows w" "r_depth p = Suc (r_depth q)" for p w
    using rawValue_back [OF that(1) assms(4) that(2)] that(3) assms(5) by simp
  then have "\<forall>m \<in> set (service_reply_members d v). reads_member service_reply_field (r_depth q + 1) m"
    using assms(2,3) st unfolding service_reply_members_def
    by (simp add: ball_Un)
      (intro conjI; rule reads_memberI; simp add: service_reply_field_def once_def reads_back version_stored)
  moreover have "service_reply_members d v \<noteq> []" by (simp add: service_reply_members_def)
  moreover have "stored (service_reply_members d v) zero_service_reply = v"
    by (cases v) (simp add: service_reply_members_def zero_service_reply_def)
  ultimately show ?thesis
    using service_reply.decode_members [of q d "service_reply_members d v" u 31 zero_service_reply] assms(1) dep service_reply_flags
    by (simp add: service_reply_text_def decodeOAServiceReply_def)
qed

end
