(* ===== verification/Wire_Dispatch.thy ===== *)
theory Wire_Dispatch
  imports Wire_Raw
begin

text \<open>
  The generated services of \<^verbatim>\<open>rec.go\<close>: the request and reply envelopes
  (\<^verbatim>\<open>servicePayload\<close>, \<^verbatim>\<open>serviceResponse\<close>, \<^verbatim>\<open>serviceReply\<close>) and, for the sink,
  the history reader and the history observer, the client and the dispatcher.  A handler
  or a transport is a state transformer of the caller's; its call returns, fails with an
  error value, or panics.
\<close>

datatype 'a call = Done 'a | Fails wire_error | Panics wire_error

subsection \<open>Envelopes\<close>

text \<open>
  The block every entry point repeats: a reader on the bytes, white space, one value, white
  space, and nothing after it.
\<close>

definition payload_reader :: "nat \<Rightarrow> string \<Rightarrow> reader" where
  "payload_reader depth s = \<lparr>r_buf = s, r_pos = 0, r_depth = depth\<rparr>"

definition read_whole :: "(reader \<Rightarrow> 'a read) \<Rightarrow> nat \<Rightarrow> string \<Rightarrow> wire_error + 'a" where
  "read_whole dec depth s =
     (case dec (ws (payload_reader depth s)) of
        Inl e \<Rightarrow> Inl e
      | Inr (v, r) \<Rightarrow>
          (let r' = ws r in
           if r_pos r' \<noteq> length (r_buf r') then Inl (refuse r' ''trailing_bytes'') else Inr v))"

definition servicePayload :: "string \<Rightarrow> wire_error + service_frame" where
  "servicePayload frame =
     (case read_whole decodeOAServiceFrame 0 frame of
        Inl e \<Rightarrow> Inl e
      | Inr v \<Rightarrow> (if sf_version v \<noteq> 1 then Inl (DispatchError ''unknown_version'') else Inr v))"

definition ServiceName :: "string \<Rightarrow> wire_error + string" where
  "ServiceName frame = (case servicePayload frame of Inl e \<Rightarrow> Inl e | Inr v \<Rightarrow> Inr (sf_service v))"

definition serviceResponse :: "string \<Rightarrow> string \<Rightarrow> string \<Rightarrow> wire_error + string" where
  "serviceResponse frame service method =
     (case read_whole decodeOAServiceReply 0 frame of
        Inl e \<Rightarrow> Inl e
      | Inr v \<Rightarrow>
          (if sr_version v \<noteq> 1 then Inl (DispatchError ''unknown_version'')
           else if sr_service v \<noteq> service \<or> sr_method v \<noteq> method then Inl (DispatchError ''mismatched_response'')
           else if \<not> sr_ok v then
             (case read_whole decodeOAServiceError 1 (sr_payload v) of
                Inl e \<Rightarrow> Inl e
              | Inr e \<Rightarrow>
                  (if se_code e = [] then Inl (DispatchError ''invalid_error'')
                   else Inl (ServiceError (se_code e) (se_message e))))
           else Inr (sr_payload v)))"

text \<open>How an error travels: what \<^verbatim>\<open>serviceReply\<close>'s type switch puts in the reply.\<close>

definition reply_error :: "wire_error \<Rightarrow> service_error" where
  "reply_error err =
     (case err of
        ServiceError code message \<Rightarrow>
          \<lparr>se_code = (if code \<noteq> [] then code else ''handler_error''), se_message = message\<rparr>
      | DispatchError w \<Rightarrow> \<lparr>se_code = w, se_message = []\<rparr>
      | Refusal w _ \<Rightarrow> \<lparr>se_code = w, se_message = []\<rparr>
      | _ \<Rightarrow> \<lparr>se_code = ''handler_error'', se_message = ''handler failed''\<rparr>)"

definition serviceReply :: "service_frame \<Rightarrow> wire_error + string \<Rightarrow> wire_error + string" where
  "serviceReply v result =
     (let reply = \<lparr>sr_version = 1, sr_service = sf_service v, sr_method = sf_method v,
                   sr_ok = (case result of Inl _ \<Rightarrow> False | Inr _ \<Rightarrow> True),
                   sr_payload = (case result of
                       Inl err \<Rightarrow> encOAServiceError [] (reply_error err) 1
                     | Inr payload \<Rightarrow> payload)\<rparr>;
          frame = encOAServiceReply [] reply 0
      in case decodeOAServiceReply (ws (payload_reader 0 frame)) of
           Inl e \<Rightarrow> Inl e
         | Inr _ \<Rightarrow> Inr frame)"

subsection \<open>The sink\<close>

text \<open>The deferred recover of a client turns a panic with a refusal into its error.\<close>

fun recovered :: "'s \<times> 'a call \<Rightarrow> 's \<times> 'a call" where
  "recovered (s, Panics (Refusal w n)) = (s, Fails (Refusal w n))"
| "recovered r = r"

definition sink_service :: string where "sink_service = ''abstraction.logging/sink@1''"
definition reader_service :: string where "reader_service = ''abstraction.logging/reader@1''"
definition observer_service :: string where "observer_service = ''abstraction.logging/observer@1''"

definition SinkClient_Write ::
  "('s \<Rightarrow> string \<Rightarrow> 's \<times> unit call) \<Rightarrow> 's \<Rightarrow> wire_record \<Rightarrow> 's \<times> unit call" where
  "SinkClient_Write transport s arg0 =
     (case encOASinkWriteArguments [] \<lparr>sa_record = arg0\<rparr> 1 of
        Inl e \<Rightarrow> (s, Fails e)
      | Inr arguments \<Rightarrow>
          (let frame = encOAServiceFrame []
                 \<lparr>sf_version = 1, sf_service = sink_service, sf_method = ''Write'', sf_arguments = arguments\<rparr> 0
           in case servicePayload frame of
                Inl e \<Rightarrow> (s, Fails e)
              | Inr _ \<Rightarrow> recovered (transport s frame)))"

definition SinkDispatcher_WriteFrame ::
  "('s \<Rightarrow> wire_record \<Rightarrow> 's \<times> unit call) \<Rightarrow> 's \<Rightarrow> string \<Rightarrow> 's \<times> unit call" where
  "SinkDispatcher_WriteFrame handler s frame =
     (case servicePayload frame of
        Inl e \<Rightarrow> (s, Fails e)
      | Inr v \<Rightarrow>
          (if sf_service v \<noteq> sink_service then (s, Fails (DispatchError ''unknown_service''))
           else if sf_method v = ''Write'' then
             (case read_whole decodeOASinkWriteArguments 1 (sf_arguments v) of
                Inl e \<Rightarrow> (s, Fails e)
              | Inr args \<Rightarrow> handler s (sa_record args))
           else (s, Fails (DispatchError ''unknown_method''))))"

subsection \<open>The history reader\<close>

definition HistoryReaderClient_Read ::
  "('s \<Rightarrow> string \<Rightarrow> 's \<times> string call) \<Rightarrow> 's \<Rightarrow> string \<Rightarrow> i64 \<Rightarrow> i64 \<Rightarrow> 's \<times> wire_page call" where
  "HistoryReaderClient_Read transport s arg0 arg1 arg2 =
     (let arguments = encOAHistoryReaderReadArguments []
            \<lparr>ra_cursor = arg0, ra_max_records = arg1, ra_max_bytes = arg2\<rparr> 1;
          frame = encOAServiceFrame []
            \<lparr>sf_version = 1, sf_service = reader_service, sf_method = ''Read'', sf_arguments = arguments\<rparr> 0
      in case servicePayload frame of
           Inl e \<Rightarrow> (s, Fails e)
         | Inr _ \<Rightarrow>
             (case recovered (transport s frame) of
                (s', Done response) \<Rightarrow>
                  (case serviceResponse response reader_service ''Read'' of
                     Inl e \<Rightarrow> (s', Fails e)
                   | Inr payload \<Rightarrow>
                       (case read_whole decodeOAHistoryReaderReadResult 1 payload of
                          Inl e \<Rightarrow> (s', Fails e)
                        | Inr decoded \<Rightarrow> (s', Done (pr_value decoded))))
              | (s', Fails e) \<Rightarrow> (s', Fails e)
              | (s', Panics e) \<Rightarrow> (s', Panics e)))"

definition HistoryReaderDispatcher_WriteFrame :: "string \<Rightarrow> wire_error" where
  "HistoryReaderDispatcher_WriteFrame frame =
     (case servicePayload frame of
        Inl e \<Rightarrow> e
      | Inr v \<Rightarrow>
          (if sf_service v \<noteq> reader_service then DispatchError ''unknown_service''
           else if sf_method v = ''Read'' then DispatchError ''wrong_mode''
           else DispatchError ''unknown_method''))"

definition invalid_result :: wire_error where
  "invalid_result = ServiceError ''invalid_result'' []"

definition invokeRead ::
  "('s \<Rightarrow> string \<Rightarrow> i64 \<Rightarrow> i64 \<Rightarrow> 's \<times> wire_page call) \<Rightarrow> 's \<Rightarrow> read_args \<Rightarrow> 's \<times> (wire_error + string)" where
  "invokeRead handler s args =
     (case handler s (ra_cursor args) (ra_max_records args) (ra_max_bytes args) of
        (s', Fails e) \<Rightarrow> (s', Inl e)
      | (s', Panics (Refusal w n)) \<Rightarrow> (s', Inl invalid_result)
      | (s', Panics _) \<Rightarrow> (s', Inl (ServiceError ''handler_error'' ''handler failed''))
      | (s', Done result) \<Rightarrow>
          (case encOAHistoryReaderReadResult [] \<lparr>pr_value = result\<rparr> 1 of
             Inl _ \<Rightarrow> (s', Inl invalid_result)
           | Inr payload \<Rightarrow>
               (case read_whole decodeOAHistoryReaderReadResult 1 payload of
                  Inl _ \<Rightarrow> (s', Inl invalid_result)
                | Inr _ \<Rightarrow> (s', Inr payload))))"

definition answer :: "'s \<times> (wire_error + string) \<Rightarrow> 's \<times> string call" where
  "answer r = (case r of (s, Inl e) \<Rightarrow> (s, Fails e) | (s, Inr frame) \<Rightarrow> (s, Done frame))"

definition HistoryReaderDispatcher_ExchangeFrame ::
  "('s \<Rightarrow> string \<Rightarrow> i64 \<Rightarrow> i64 \<Rightarrow> 's \<times> wire_page call) \<Rightarrow> 's \<Rightarrow> string \<Rightarrow> 's \<times> string call" where
  "HistoryReaderDispatcher_ExchangeFrame handler s frame =
     (case servicePayload frame of
        Inl e \<Rightarrow> (s, Fails e)
      | Inr v \<Rightarrow>
          (if sf_service v \<noteq> reader_service
           then answer (s, serviceReply v (Inl (DispatchError ''unknown_service'')))
           else if sf_method v = ''Read'' then
             (case read_whole decodeOAHistoryReaderReadArguments 1 (sf_arguments v) of
                Inl e \<Rightarrow> answer (s, serviceReply v (Inl e))
              | Inr args \<Rightarrow>
                  (case invokeRead handler s args of (s', result) \<Rightarrow> answer (s', serviceReply v result)))
           else answer (s, serviceReply v (Inl (DispatchError ''unknown_method'')))))"

subsection \<open>The history observer\<close>

definition HistoryObserverClient_Observe ::
  "('s \<Rightarrow> string \<Rightarrow> 's \<times> string call) \<Rightarrow> 's \<Rightarrow> string \<Rightarrow> i64 \<Rightarrow> i64 \<Rightarrow> i64 \<Rightarrow> 's \<times> wire_page call" where
  "HistoryObserverClient_Observe transport s arg0 arg1 arg2 arg3 =
     (let arguments = encOAHistoryObserverObserveArguments []
            \<lparr>oa_cursor = arg0, oa_max_records = arg1, oa_max_bytes = arg2, oa_wait_ms = arg3\<rparr> 1;
          frame = encOAServiceFrame []
            \<lparr>sf_version = 1, sf_service = observer_service, sf_method = ''Observe'', sf_arguments = arguments\<rparr> 0
      in case servicePayload frame of
           Inl e \<Rightarrow> (s, Fails e)
         | Inr _ \<Rightarrow>
             (case recovered (transport s frame) of
                (s', Done response) \<Rightarrow>
                  (case serviceResponse response observer_service ''Observe'' of
                     Inl e \<Rightarrow> (s', Fails e)
                   | Inr payload \<Rightarrow>
                       (case read_whole decodeOAHistoryObserverObserveResult 1 payload of
                          Inl e \<Rightarrow> (s', Fails e)
                        | Inr decoded \<Rightarrow> (s', Done (pr_value decoded))))
              | (s', Fails e) \<Rightarrow> (s', Fails e)
              | (s', Panics e) \<Rightarrow> (s', Panics e)))"

definition HistoryObserverDispatcher_WriteFrame :: "string \<Rightarrow> wire_error" where
  "HistoryObserverDispatcher_WriteFrame frame =
     (case servicePayload frame of
        Inl e \<Rightarrow> e
      | Inr v \<Rightarrow>
          (if sf_service v \<noteq> observer_service then DispatchError ''unknown_service''
           else if sf_method v = ''Observe'' then DispatchError ''wrong_mode''
           else DispatchError ''unknown_method''))"

definition invokeObserve ::
  "('s \<Rightarrow> string \<Rightarrow> i64 \<Rightarrow> i64 \<Rightarrow> i64 \<Rightarrow> 's \<times> wire_page call) \<Rightarrow> 's \<Rightarrow> observe_args \<Rightarrow> 's \<times> (wire_error + string)" where
  "invokeObserve handler s args =
     (case handler s (oa_cursor args) (oa_max_records args) (oa_max_bytes args) (oa_wait_ms args) of
        (s', Fails e) \<Rightarrow> (s', Inl e)
      | (s', Panics (Refusal w n)) \<Rightarrow> (s', Inl invalid_result)
      | (s', Panics _) \<Rightarrow> (s', Inl (ServiceError ''handler_error'' ''handler failed''))
      | (s', Done result) \<Rightarrow>
          (case encOAHistoryObserverObserveResult [] \<lparr>pr_value = result\<rparr> 1 of
             Inl _ \<Rightarrow> (s', Inl invalid_result)
           | Inr payload \<Rightarrow>
               (case read_whole decodeOAHistoryObserverObserveResult 1 payload of
                  Inl _ \<Rightarrow> (s', Inl invalid_result)
                | Inr _ \<Rightarrow> (s', Inr payload))))"

definition HistoryObserverDispatcher_ExchangeFrame ::
  "('s \<Rightarrow> string \<Rightarrow> i64 \<Rightarrow> i64 \<Rightarrow> i64 \<Rightarrow> 's \<times> wire_page call) \<Rightarrow> 's \<Rightarrow> string \<Rightarrow> 's \<times> string call" where
  "HistoryObserverDispatcher_ExchangeFrame handler s frame =
     (case servicePayload frame of
        Inl e \<Rightarrow> (s, Fails e)
      | Inr v \<Rightarrow>
          (if sf_service v \<noteq> observer_service
           then answer (s, serviceReply v (Inl (DispatchError ''unknown_service'')))
           else if sf_method v = ''Observe'' then
             (case read_whole decodeOAHistoryObserverObserveArguments 1 (sf_arguments v) of
                Inl e \<Rightarrow> answer (s, serviceReply v (Inl e))
              | Inr args \<Rightarrow>
                  (case invokeObserve handler s args of (s', result) \<Rightarrow> answer (s', serviceReply v result)))
           else answer (s, serviceReply v (Inl (DispatchError ''unknown_method'')))))"

subsection \<open>Refusal order\<close>

definition Refusals :: "string list" where
  "Refusals =
     [''malformed'', ''bad_string'', ''number_spelling'', ''wrong_type'', ''bad_timestamp'', ''depth_exceeded'',
      ''duplicate_field'', ''unknown_field'', ''missing_field'', ''bad_schema'', ''bad_enum'', ''trailing_bytes'']"

fun rank_loop :: "string \<Rightarrow> int \<Rightarrow> string list \<Rightarrow> int" where
  "rank_loop word i [] = - 1"
| "rank_loop word i (w # words) = (if w = word then i else rank_loop word (i + 1) words)"

definition RefusalRank :: "string \<Rightarrow> int" where
  "RefusalRank word = rank_loop word 0 Refusals"

subsection \<open>Envelopes carry their payload\<close>

lemma rest_payload_reader [simp]: "rest (payload_reader d s) = s"
  by (simp add: rest_def payload_reader_def)

lemma r_depth_payload_reader [simp]: "r_depth (payload_reader d s) = d"
  by (simp add: payload_reader_def)

lemma read_whole_text:
  assumes "\<And>q. rest q = x \<Longrightarrow> r_depth q = d \<Longrightarrow> dec q = Inr (w, to q [])" and "value_start x"
  shows "read_whole dec d x = Inr w"
proof -
  let ?r = "payload_reader d x"
  have "ws ?r = ?r" by (rule ws_none [OF _ assms(2)]) simp
  moreover have "rest (to ?r []) = []" by (rule rest_to [where a = x]) simp
  then have "r_pos (ws (to ?r [])) = length (r_buf (ws (to ?r [])))" by (rule ws_trailing) simp_all
  ultimately show ?thesis using assms(1) [of ?r] by (simp add: read_whole_def)
qed

lemma skips_sink_args: "utf8_record (sa_record v) \<Longrightarrow> skips 4 (sink_args_text d v)"
  using skips_object [of "texts (sink_args_members d v)" 3 d] skips_record
  by (simp add: sink_args_text_def sink_args_members_def)

lemma skips_read_args: "validUTF8 (ra_cursor v) \<Longrightarrow> skips 1 (read_args_text d v)"
  using skips_object [of "texts (read_args_members d v)" 0 d]
  by (simp add: read_args_text_def read_args_members_def skips_intros)

lemma skips_observe_args: "validUTF8 (oa_cursor v) \<Longrightarrow> skips 1 (observe_args_text d v)"
  using skips_object [of "texts (observe_args_members d v)" 0 d]
  by (simp add: observe_args_text_def observe_args_members_def skips_intros)

lemma skips_service_error:
  "validUTF8 (se_code v) \<Longrightarrow> validUTF8 (se_message v) \<Longrightarrow> skips 1 (service_error_text d v)"
  using skips_object [of "texts (service_error_members d v)" 0 d]
  by (simp add: service_error_text_def service_error_members_def skips_intros)

lemma skips_page_result:
  assumes "utf8_page (pr_value v)"
  shows "skips 6 (page_result_text d v)"
proof -
  let ?p = "pr_value v"
  have "skips 4 (list_text (d + 2) (record_text (d + 3)) (pg_records ?p))"
    by (rule skips_mono [OF skips_list [where h = 3]])
      (use assms in \<open>simp_all add: utf8_page_def list_all_iff skips_record\<close>)
  moreover have "skips 4 (esc [] s)" if "validUTF8 s" for s using skips_mono [OF skips_esc [OF that]] by simp
  moreover have "skips 4 (put_bool [] b)" for b using skips_mono [OF skips_bool] by simp
  ultimately have "skips 5 (page_text (d + 1) ?p)"
    using skips_object [of "texts (page_members (d + 1) ?p)" 4 "d + 1"] assms
    by (simp add: page_text_def page_members_def utf8_page_def numeral_eq_Suc)
  then show ?thesis
    using skips_object [of "texts (page_result_members d v)" 5 d]
    by (simp add: page_result_text_def page_result_members_def)
qed

lemma servicePayload_text:
  assumes "validUTF8 (sf_service v)" "validUTF8 (sf_method v)" "skips h (sf_arguments v)" "h < depthLimit"
  shows "servicePayload (encOAServiceFrame [] v 0) =
    (if sf_version v \<noteq> 1 then Inl (DispatchError ''unknown_version'') else Inr v)"
proof -
  have "read_whole decodeOAServiceFrame 0 (service_frame_text 0 v) = Inr v"
  proof (rule read_whole_text)
    show "decodeOAServiceFrame q = Inr (v, to q [])"
      if "rest q = service_frame_text 0 v" "r_depth q = 0" for q
      by (rule decodeOAServiceFrame_text [where d = 0 and h = h]) (use that assms in simp_all)
  qed (simp add: service_frame_text_def)
  then show ?thesis by (simp add: servicePayload_def encOAServiceFrame_text)
qed

definition reply_payload :: "wire_error + string \<Rightarrow> string" where
  "reply_payload result = (case result of Inl e \<Rightarrow> encOAServiceError [] (reply_error e) 1 | Inr p \<Rightarrow> p)"

definition utf8_error :: "wire_error \<Rightarrow> bool" where
  "utf8_error e \<longleftrightarrow> validUTF8 (se_code (reply_error e)) \<and> validUTF8 (se_message (reply_error e))"

text \<open>What the client makes of a reply is what the dispatcher put in it.\<close>

lemma serviceReply_text:
  assumes "validUTF8 (sf_service v)" "validUTF8 (sf_method v)"
    and ok: "case result of Inl e \<Rightarrow> utf8_error e \<and> se_code (reply_error e) \<noteq> [] | Inr p \<Rightarrow> skips 6 p"
  shows "\<exists>frame. serviceReply v result = Inr frame \<and>
    serviceResponse frame (sf_service v) (sf_method v) =
      (case result of
         Inl e \<Rightarrow> Inl (ServiceError (se_code (reply_error e)) (se_message (reply_error e)))
       | Inr p \<Rightarrow> Inr p)"
proof -
  define y where "y = \<lparr>sr_version = 1, sr_service = sf_service v, sr_method = sf_method v,
      sr_ok = (case result of Inl _ \<Rightarrow> False | Inr _ \<Rightarrow> True), sr_payload = reply_payload result\<rparr>"
  let ?t = "service_reply_text 0 y"
  have p: "skips 6 (sr_payload y)"
  proof (cases result)
    case (Inl e)
    then have "skips 1 (service_error_text 1 (reply_error e))"
      using ok by (intro skips_service_error) (simp_all add: utf8_error_def)
    then show ?thesis
      using skips_mono [of 1 _ 6] by (simp add: y_def reply_payload_def Inl encOAServiceError_text)
  qed (use ok in \<open>simp add: y_def reply_payload_def\<close>)
  have dec: "decodeOAServiceReply q = Inr (y, to q [])" if "rest q = ?t" "r_depth q = 0" for q
    by (rule decodeOAServiceReply_text [where d = 0 and h = 6])
      (use that assms p in \<open>simp_all add: y_def depthLimit_def\<close>)
  have "ws (payload_reader 0 ?t) = payload_reader 0 ?t"
    by (rule ws_none [of _ ?t]) (simp_all add: service_reply_text_def)
  then have "serviceReply v result = Inr ?t"
    using dec [of "payload_reader 0 ?t"]
    by (simp add: serviceReply_def encOAServiceReply_text flip: reply_payload_def y_def)
  moreover have w: "read_whole decodeOAServiceReply 0 ?t = Inr y"
    by (rule read_whole_text [OF dec]) (simp_all add: service_reply_text_def)
  have "serviceResponse ?t (sf_service v) (sf_method v) = (case result of
         Inl e \<Rightarrow> Inl (ServiceError (se_code (reply_error e)) (se_message (reply_error e)))
       | Inr p \<Rightarrow> Inr p)"
  proof (cases result)
    case (Inl e)
    have "read_whole decodeOAServiceError 1 (service_error_text 1 (reply_error e)) = Inr (reply_error e)"
    proof (rule read_whole_text)
      show "decodeOAServiceError q = Inr (reply_error e, to q [])"
        if "rest q = service_error_text 1 (reply_error e)" "r_depth q = 1" for q
        by (rule decodeOAServiceError_text [where d = 1])
          (use that ok Inl in \<open>simp_all add: utf8_error_def depthLimit_def\<close>)
    qed (simp add: service_error_text_def)
    then show ?thesis
      using w ok Inl by (simp add: serviceResponse_def y_def reply_payload_def encOAServiceError_text)
  qed (use w in \<open>simp add: serviceResponse_def y_def reply_payload_def\<close>)
  ultimately show ?thesis by blast
qed

subsection \<open>Calls arrive\<close>

lemma names_utf8 [simp]:
  "validUTF8 sink_service" "validUTF8 reader_service" "validUTF8 observer_service"
  "validUTF8 ''Write''" "validUTF8 ''Read''" "validUTF8 ''Observe''"
  by code_simp+

lemma depth_fits [simp]: "4 < depthLimit" "Suc 0 < depthLimit" "1 < depthLimit"
  by (simp_all add: depthLimit_def)

text \<open>The arguments the dispatcher reads are the ones the client encoded, in canonical form.\<close>

lemma sink_arguments_back:
  assumes "utf8_record r" "writable r" "map_record r"
  shows "read_whole decodeOASinkWriteArguments 1 (sink_args_text 1 \<lparr>sa_record = r\<rparr>)
    = Inr \<lparr>sa_record = canonical r\<rparr>"
proof (rule read_whole_text)
  show "decodeOASinkWriteArguments q = Inr (\<lparr>sa_record = canonical r\<rparr>, to q [])"
    if "rest q = sink_args_text 1 \<lparr>sa_record = r\<rparr>" "r_depth q = 1" for q
    using decodeOASinkWriteArguments_text [of q 1 "\<lparr>sa_record = r\<rparr>" "[]"] that assms
    by (simp add: depthLimit_def)
qed (simp add: sink_args_text_def)

lemma encOASinkWriteArguments_Inl:
  "\<not> writable r \<Longrightarrow> \<exists>w. encOASinkWriteArguments out \<lparr>sa_record = r\<rparr> d = Inl (Refusal w 0)"
  by (auto simp: encOASinkWriteArguments_def encRecord_def writable_def writeTimestamp_def
      WideTimestamp_def Let_def)

lemma read_arguments_back:
  assumes "validUTF8 c"
  shows "read_whole decodeOAHistoryReaderReadArguments 1
      (read_args_text 1 \<lparr>ra_cursor = c, ra_max_records = n, ra_max_bytes = b\<rparr>)
    = Inr \<lparr>ra_cursor = c, ra_max_records = n, ra_max_bytes = b\<rparr>"
proof (rule read_whole_text)
  let ?a = "\<lparr>ra_cursor = c, ra_max_records = n, ra_max_bytes = b\<rparr>"
  show "decodeOAHistoryReaderReadArguments q = Inr (?a, to q [])"
    if "rest q = read_args_text 1 ?a" "r_depth q = 1" for q
    using decodeOAHistoryReaderReadArguments_text [of q 1 ?a "[]"] that assms by (simp add: depthLimit_def)
qed (simp add: read_args_text_def)

lemma observe_arguments_back:
  assumes "validUTF8 c"
  shows "read_whole decodeOAHistoryObserverObserveArguments 1
      (observe_args_text 1 \<lparr>oa_cursor = c, oa_max_records = n, oa_max_bytes = b, oa_wait_ms = w\<rparr>)
    = Inr \<lparr>oa_cursor = c, oa_max_records = n, oa_max_bytes = b, oa_wait_ms = w\<rparr>"
proof (rule read_whole_text)
  let ?a = "\<lparr>oa_cursor = c, oa_max_records = n, oa_max_bytes = b, oa_wait_ms = w\<rparr>"
  show "decodeOAHistoryObserverObserveArguments q = Inr (?a, to q [])"
    if "rest q = observe_args_text 1 ?a" "r_depth q = 1" for q
    using decodeOAHistoryObserverObserveArguments_text [of q 1 ?a "[]"] that assms by (simp add: depthLimit_def)
qed (simp add: observe_args_text_def)

lemma page_result_back:
  assumes "utf8_page p" "writable_page p"
  shows "read_whole decodeOAHistoryReaderReadResult 1 (page_result_text 1 \<lparr>pr_value = p\<rparr>)
    = Inr \<lparr>pr_value = canonical_page p\<rparr>"
proof (rule read_whole_text)
  show "decodeOAHistoryReaderReadResult q = Inr (\<lparr>pr_value = canonical_page p\<rparr>, to q [])"
    if "rest q = page_result_text 1 \<lparr>pr_value = p\<rparr>" "r_depth q = 1" for q
    using decodeOAHistoryReaderReadResult_text [of q 1 "\<lparr>pr_value = p\<rparr>" "[]"] that assms
    by (simp add: depthLimit_def)
qed (simp add: page_result_text_def)

lemma encResult_Inl:
  "\<not> writable_page p \<Longrightarrow> \<exists>e. encOAHistoryReaderReadResult out \<lparr>pr_value = p\<rparr> d = Inl e"
  using encPage_Inl [of p "put_key (out @ ''{'') d ''value''" "d + 1"]
  by (auto simp: encOAHistoryReaderReadResult_def)

text \<open>
  What a client sees of one call of a handler: the page in canonical form, or the error as it
  travels.
\<close>

fun seen_by_client :: "'s \<times> wire_page call \<Rightarrow> 's \<times> wire_page call" where
  "seen_by_client (s, Done p) =
     (s, if writable_page p then Done (canonical_page p) else Fails invalid_result)"
| "seen_by_client (s, Fails e) = (s, Fails (ServiceError (se_code (reply_error e)) (se_message (reply_error e))))"
| "seen_by_client (s, Panics (Refusal w n)) = (s, Fails invalid_result)"
| "seen_by_client (s, Panics e) = (s, Fails (ServiceError ''handler_error'' ''handler failed''))"

fun clean_result :: "'s \<times> wire_page call \<Rightarrow> bool" where
  "clean_result (s, Done p) \<longleftrightarrow> (writable_page p \<longrightarrow> utf8_page p)"
| "clean_result (s, Fails e) \<longleftrightarrow> utf8_error e \<and> se_code (reply_error e) \<noteq> []"
| "clean_result (s, Panics e) \<longleftrightarrow> True"

lemma fixed_errors [simp]:
  "utf8_error invalid_result" "se_code (reply_error invalid_result) = ''invalid_result''"
  "se_message (reply_error invalid_result) = []"
  "utf8_error (ServiceError ''handler_error'' ''handler failed'')"
  "se_code (reply_error (ServiceError ''handler_error'' ''handler failed'')) = ''handler_error''"
  "se_message (reply_error (ServiceError ''handler_error'' ''handler failed'')) = ''handler failed''"
  by code_simp+

lemma fixed_error: "ServiceError ''invalid_result'' [] = invalid_result"
  by (simp add: invalid_result_def)

definition invoked_result :: "'s \<times> wire_page call \<Rightarrow> 's \<times> (wire_error + string)" where
  "invoked_result r =
     (case r of
        (s', Fails e) \<Rightarrow> (s', Inl e)
      | (s', Panics (Refusal w n)) \<Rightarrow> (s', Inl invalid_result)
      | (s', Panics _) \<Rightarrow> (s', Inl (ServiceError ''handler_error'' ''handler failed''))
      | (s', Done result) \<Rightarrow>
          (case encOAHistoryReaderReadResult [] \<lparr>pr_value = result\<rparr> 1 of
             Inl _ \<Rightarrow> (s', Inl invalid_result)
           | Inr payload \<Rightarrow>
               (case read_whole decodeOAHistoryReaderReadResult 1 payload of
                  Inl _ \<Rightarrow> (s', Inl invalid_result)
                | Inr _ \<Rightarrow> (s', Inr payload))))"

lemma invokeRead_result:
  "invokeRead handler s args =
    invoked_result (handler s (ra_cursor args) (ra_max_records args) (ra_max_bytes args))"
  by (simp add: invokeRead_def invoked_result_def)

lemma invokeObserve_result:
  "invokeObserve handler s args =
    invoked_result (handler s (oa_cursor args) (oa_max_records args) (oa_max_bytes args) (oa_wait_ms args))"
  unfolding invokeObserve_def invoked_result_def encOAHistoryObserverObserveResult_text
    decodeOAHistoryObserverObserveResult_eq ..

text \<open>
  The invocation of a handler, for both history services: its result, and what that result
  becomes at the client.
\<close>

lemma invoked:
  assumes "clean_result r" and "validUTF8 (sf_service v)" "validUTF8 (sf_method v)"
    and inv: "res = invoked_result r"
  shows "\<exists>frame. serviceReply v (snd res) = Inr frame \<and>
    (fst res, case serviceResponse frame (sf_service v) (sf_method v) of
        Inl e \<Rightarrow> Fails e
      | Inr payload \<Rightarrow>
          (case read_whole decodeOAHistoryReaderReadResult 1 payload of
             Inl e \<Rightarrow> Fails e
           | Inr decoded \<Rightarrow> Done (pr_value decoded))) = seen_by_client r"
proof -
  obtain s c where r: "r = (s, c)" by (cases r)
  note reply = serviceReply_text [of v, OF assms(2,3)]
  have bad: ?thesis if "res = (s, Inl e)" "utf8_error e" "se_code (reply_error e) \<noteq> []"
    "seen_by_client r = (s, Fails (ServiceError (se_code (reply_error e)) (se_message (reply_error e))))" for e
    using reply [of "Inl e"] that by auto
  show ?thesis
  proof (cases c)
    case (Fails e)
    then show ?thesis using bad [of e] assms(1) r inv [unfolded invoked_result_def] by simp
  next
    case (Panics e)
    then show ?thesis
      using bad [of invalid_result] bad [of "ServiceError ''handler_error'' ''handler failed''"] r inv [unfolded invoked_result_def]
      by (cases e) (simp_all add: fixed_error)
  next
    case (Done p)
    show ?thesis
    proof (cases "writable_page p")
      case False
      then obtain e where "encOAHistoryReaderReadResult [] \<lparr>pr_value = p\<rparr> 1 = Inl e"
        using encResult_Inl by blast
      then show ?thesis using bad [of invalid_result] r inv [unfolded invoked_result_def] Done False
        by (simp add: fixed_error)
    next
      case True
      let ?t = "page_result_text 1 \<lparr>pr_value = p\<rparr>"
      have u: "utf8_page p" using assms(1) r Done True by simp
      have "encOAHistoryReaderReadResult [] \<lparr>pr_value = p\<rparr> 1 = Inr ?t"
        using encOAHistoryReaderReadResult_text [of "\<lparr>pr_value = p\<rparr>" "[]" 1] True by simp
      then have "res = (s, Inr ?t)" using inv [unfolded invoked_result_def] r Done page_result_back [OF u True] by simp
      moreover have "skips 6 ?t" using skips_page_result [of "\<lparr>pr_value = p\<rparr>" 1] u by simp
      ultimately show ?thesis
        using reply [of "Inr ?t"] page_result_back [OF u True] r Done True by auto
    qed
  qed
qed

subsection \<open>Properties of the services\<close>

definition collect :: "wire_record list \<Rightarrow> wire_record \<Rightarrow> wire_record list \<times> unit call" where
  "collect s r = (s @ [r], Done ())"

definition sample_page :: wire_page where
  "sample_page = \<lparr>pg_outcome = ''page'', pg_records = [sample_record], pg_next = ''7'', pg_at_end = True\<rparr>"

lemma sample_page_ok: "utf8_page sample_page" "writable_page sample_page"
  by code_simp+

lemma sink_delivered:
  assumes "utf8_record r" "writable r" "map_record r"
  shows "SinkClient_Write (SinkDispatcher_WriteFrame handler) s r = recovered (handler s (canonical r))"
proof -
  let ?x = "sink_args_text 1 \<lparr>sa_record = r\<rparr>"
  let ?v = "\<lparr>sf_version = 1, sf_service = sink_service, sf_method = ''Write'', sf_arguments = ?x\<rparr>"
  have "skips 4 ?x" using skips_sink_args [of "\<lparr>sa_record = r\<rparr>" 1] assms by simp
  then have "servicePayload (encOAServiceFrame [] ?v 0) = Inr ?v"
    using servicePayload_text [of ?v 4] by simp
  then show ?thesis
    using sink_arguments_back [OF assms] encOASinkWriteArguments_text [of "\<lparr>sa_record = r\<rparr>" "[]" 1] assms
    by (simp add: SinkClient_Write_def SinkDispatcher_WriteFrame_def Let_def)
qed

text \<open>
  C9: A record the client writes reaches the handler exactly once and in canonical form, and
  the handler's answer is the client's (a panic with a refusal becomes that error): the
  client, the envelope and the dispatcher neither lose nor alter it.
\<close>

theorem sink_delivery:
  assumes "utf8_record r" "writable r" "map_record r"
  shows "SinkClient_Write (SinkDispatcher_WriteFrame handler) s r = recovered (handler s (canonical r))"
  by (rule sink_delivered [OF assms])

theorem sink_delivery_witness:
  "SinkClient_Write (SinkDispatcher_WriteFrame collect) [] sample_record = ([canonical sample_record], Done ())"
  using sink_delivery [OF sample_record_ok(1,3,2), of collect "[]"] by (simp add: collect_def)

text \<open>
  A record that cannot be written (wrong schema, or a time that is no timestamp) is
  refused by the client before anything is sent.
\<close>

theorem sink_refuses_unwritable:
  assumes "\<not> writable r"
  shows "\<exists>w. SinkClient_Write transport s r = (s, Fails (Refusal w 0))"
  using encOASinkWriteArguments_Inl [OF assms, of "[]" 1] by (auto simp: SinkClient_Write_def)

theorem sink_refuses_unwritable_witness:
  "\<exists>w. SinkClient_Write (SinkDispatcher_WriteFrame collect) [] (sample_record\<lparr>wr_schema := 2\<rparr>)
    = ([], Fails (Refusal w 0))"
  by (rule sink_refuses_unwritable) (simp add: writable_def)

lemma dispatch_guarded:
  "(\<exists>v r. servicePayload frame = Inr v \<and> sf_version v = 1 \<and> sf_service v = ''abstraction.logging/sink@1''
      \<and> sf_method v = ''Write'' \<and> writable r \<and> utf8_record r
      \<and> SinkDispatcher_WriteFrame handler s frame = handler s r)
   \<or> (\<exists>e. SinkDispatcher_WriteFrame handler s frame = (s, Fails e))"
proof -
  have "writable (sa_record a) \<and> utf8_record (sa_record a)"
    if t: "read_whole decodeOASinkWriteArguments 1 x = Inr a" for x a
  proof -
    let ?P = "\<lambda>(v :: sink_args) (seen :: u32). seen AND 1 \<noteq> 0 \<longrightarrow> writable (sa_record v) \<and> utf8_record (sa_record v)"
    obtain r q where d: "decode_object sink_args_loop 1 zero_sink_args q = Inr (a, r)"
      using t by (auto simp: read_whole_def decodeOASinkWriteArguments_def Let_def split: sum.splits if_splits)
    have "\<exists>seen. ?P a seen \<and> seen AND 1 = 1"
    proof (rule sink_args.decode_invariant [OF d, of ?P])
      fix k v seen q v' seen' q'
      assume "sink_args_field k v seen q = Inr ((v', seen'), q')"
      then show "?P v' seen'"
        by (auto simp: sink_args_field_def split: if_splits elim!: once_InrE dest: decodeRecord_sound)
    qed simp
    then show ?thesis by auto
  qed
  moreover have "sf_version v = 1" if "servicePayload frame = Inr v" for v
    using that by (auto simp: servicePayload_def split: sum.splits if_splits)
  ultimately show ?thesis
    by (auto simp: SinkDispatcher_WriteFrame_def sink_service_def split: sum.splits)
qed

text \<open>
  C12: The dispatcher calls its handler only for a well-formed frame of version 1 that names the
  sink service and the method Write, and then with a record that is itself writable; on every
  other frame it fails and the handler's state is untouched.
\<close>

theorem sink_dispatch_guard:
  "(\<exists>v r. servicePayload frame = Inr v \<and> sf_version v = 1 \<and> sf_service v = ''abstraction.logging/sink@1''
      \<and> sf_method v = ''Write'' \<and> writable r \<and> utf8_record r
      \<and> SinkDispatcher_WriteFrame handler s frame = handler s r)
   \<or> (\<exists>e. SinkDispatcher_WriteFrame handler s frame = (s, Fails e))"
  by (rule dispatch_guarded)

lemma read_delivered:
  assumes "validUTF8 c" "clean_result (handler s c n b)"
  shows "HistoryReaderClient_Read (HistoryReaderDispatcher_ExchangeFrame handler) s c n b
    = seen_by_client (handler s c n b)"
proof -
  let ?a = "\<lparr>ra_cursor = c, ra_max_records = n, ra_max_bytes = b\<rparr>"
  let ?v = "\<lparr>sf_version = 1, sf_service = reader_service, sf_method = ''Read'',
      sf_arguments = read_args_text 1 ?a\<rparr>"
  have v: "servicePayload (encOAServiceFrame [] ?v 0) = Inr ?v"
    using servicePayload_text [of ?v 1] skips_read_args [of ?a 1] assms by simp
  obtain s' x where x: "invoked_result (handler s c n b) = (s', x)" by fastforce
  obtain frame where f: "serviceReply ?v x = Inr frame" and
    seen: "seen_by_client (handler s c n b) = (s', case serviceResponse frame reader_service ''Read'' of
        Inl e \<Rightarrow> Fails e
      | Inr payload \<Rightarrow>
          (case read_whole decodeOAHistoryReaderReadResult 1 payload of
             Inl e \<Rightarrow> Fails e
           | Inr decoded \<Rightarrow> Done (pr_value decoded)))"
    using invoked [OF assms(2) _ _ refl, of ?v] by (auto simp: x)
  have "HistoryReaderDispatcher_ExchangeFrame handler s (encOAServiceFrame [] ?v 0) = (s', Done frame)"
    using v f x read_arguments_back [OF assms(1)]
    by (simp add: HistoryReaderDispatcher_ExchangeFrame_def invokeRead_result answer_def)
  then show ?thesis
    using v unfolding seen HistoryReaderClient_Read_def
    by (simp add: Let_def encOAHistoryReaderReadArguments_text decodeOAHistoryObserverObserveResult_eq split: sum.split)
qed

text \<open>
  A history read through client, envelope and dispatcher is the handler's own answer: a
  page in canonical form; a page that cannot be encoded as the error invalid_result; an error
  as its code and message; a panic as an error and never as a broken connection.
\<close>

theorem read_delivery:
  assumes "validUTF8 c" "clean_result (handler s c n b)"
  shows "HistoryReaderClient_Read (HistoryReaderDispatcher_ExchangeFrame handler) s c n b
    = seen_by_client (handler s c n b)"
  by (rule read_delivered) (rule assms)+

theorem read_delivery_witness:
  "HistoryReaderClient_Read (HistoryReaderDispatcher_ExchangeFrame (\<lambda>s c n b. (c, Done sample_page))) [] ''3'' 10 4096
    = (''3'', Done (canonical_page sample_page))"
proof -
  have "validUTF8 ''3''" by code_simp
  then show ?thesis using read_delivery [of "''3''" "\<lambda>s c n b. (c, Done sample_page)" "[]" 10 4096] sample_page_ok by simp
qed

lemma observe_delivered:
  assumes "validUTF8 c" "clean_result (handler s c n b w)"
  shows "HistoryObserverClient_Observe (HistoryObserverDispatcher_ExchangeFrame handler) s c n b w
    = seen_by_client (handler s c n b w)"
proof -
  let ?a = "\<lparr>oa_cursor = c, oa_max_records = n, oa_max_bytes = b, oa_wait_ms = w\<rparr>"
  let ?v = "\<lparr>sf_version = 1, sf_service = observer_service, sf_method = ''Observe'',
      sf_arguments = observe_args_text 1 ?a\<rparr>"
  have v: "servicePayload (encOAServiceFrame [] ?v 0) = Inr ?v"
    using servicePayload_text [of ?v 1] skips_observe_args [of ?a 1] assms by simp
  obtain s' x where x: "invoked_result (handler s c n b w) = (s', x)" by fastforce
  obtain frame where f: "serviceReply ?v x = Inr frame" and
    seen: "seen_by_client (handler s c n b w) = (s', case serviceResponse frame observer_service ''Observe'' of
        Inl e \<Rightarrow> Fails e
      | Inr payload \<Rightarrow>
          (case read_whole decodeOAHistoryReaderReadResult 1 payload of
             Inl e \<Rightarrow> Fails e
           | Inr decoded \<Rightarrow> Done (pr_value decoded)))"
    using invoked [OF assms(2) _ _ refl, of ?v] by (auto simp: x)
  have "HistoryObserverDispatcher_ExchangeFrame handler s (encOAServiceFrame [] ?v 0) = (s', Done frame)"
    using v f x observe_arguments_back [OF assms(1)]
    by (simp add: HistoryObserverDispatcher_ExchangeFrame_def invokeObserve_result answer_def)
  then show ?thesis
    using v unfolding seen HistoryObserverClient_Observe_def
    by (simp add: Let_def encOAHistoryObserverObserveArguments_text decodeOAHistoryObserverObserveResult_eq split: sum.split)
qed

text \<open>
  The same for an observation: the wait is passed on with the cursor and the limits, and
  the client gets the handler's answer.
\<close>

theorem observe_delivery:
  assumes "validUTF8 c" "clean_result (handler s c n b w)"
  shows "HistoryObserverClient_Observe (HistoryObserverDispatcher_ExchangeFrame handler) s c n b w
    = seen_by_client (handler s c n b w)"
  by (rule observe_delivered) (rule assms)+

theorem observe_delivery_witness:
  "HistoryObserverClient_Observe (HistoryObserverDispatcher_ExchangeFrame
      (\<lambda>s c n b w. (c, Fails (ServiceError ''denied'' ''no'')))) [] ''3'' 10 4096 500
    = (''3'', Fails (ServiceError ''denied'' ''no''))"
proof -
  have "validUTF8 ''3''" "utf8_error (ServiceError ''denied'' ''no'')" by code_simp+
  then show ?thesis
    using observe_delivery [of "''3''" "\<lambda>s c n b w. (c, Fails (ServiceError ''denied'' ''no''))" "[]" 10 4096 500]
    by (simp add: reply_error_def)
qed

end
