(* ===== verification/History.thy ===== *)
theory History
  imports File_Sink Wire_Dispatch Provenance
begin

text \<open>
  \<^verbatim>\<open>go/history.go\<close>: bounded reading and observation of what a file sink stored, and the
  page check of \<^verbatim>\<open>go/client/client.go\<close>.  The bytes of the file up to the size the
  operating system reports are the sink's content; whether the calls that open, stat and read the
  file succeed, and the random key of the instance, are the environment \<open>history_env\<close>.
\<close>

subsection \<open>Names\<close>

definition PageOutcomePage :: string where "PageOutcomePage = ''page''"
definition PageOutcomeGap :: string where "PageOutcomeGap = ''gap''"
definition PageOutcomeUnavailable :: string where "PageOutcomeUnavailable = ''unavailable''"
definition PageOutcomeInvalidRequest :: string where "PageOutcomeInvalidRequest = ''invalid_request''"
definition PageOutcomeRecordTooLarge :: string where "PageOutcomeRecordTooLarge = ''record_too_large''"
definition PageOutcomeCorrupt :: string where "PageOutcomeCorrupt = ''corrupt''"
definition PageOutcomeUnsupported :: string where "PageOutcomeUnsupported = ''unsupported''"

lemmas outcome_defs = PageOutcomePage_def PageOutcomeGap_def PageOutcomeUnavailable_def
  PageOutcomeInvalidRequest_def PageOutcomeRecordTooLarge_def PageOutcomeCorrupt_def PageOutcomeUnsupported_def

record history_env =
  he_key :: "string option"
  he_stat :: bool
  he_open :: bool
  he_info :: bool
  he_same :: bool
  he_byte :: bool
  he_line :: "nat \<Rightarrow> bool"

subsection \<open>Cursors\<close>

text \<open>\<^verbatim>\<open>strings.Split\<close> at a one-byte separator, and \<^verbatim>\<open>strconv.ParseInt\<close> in base ten.\<close>

fun split_at :: "char \<Rightarrow> string \<Rightarrow> string list" where
  "split_at sep [] = [[]]"
| "split_at sep (c # cs) =
     (if c = sep then [] # split_at sep cs
      else (c # hd (split_at sep cs)) # tl (split_at sep cs))"

definition ParseInt :: "string \<Rightarrow> int option" where
  "ParseInt s =
     (let negative = (s \<noteq> [] \<and> hd s = CHR ''-'');
          ds = (if s \<noteq> [] \<and> (hd s = CHR ''-'' \<or> hd s = CHR ''+'') then tl s else s);
          n = int (digits_value 0 ds)
      in if ds = [] \<or> \<not> list_all is_digit ds then None
         else if negative then (if n \<le> 2 ^ 63 then Some (- n) else None)
         else if n < 2 ^ 63 then Some n else None)"

definition FormatInt :: "int \<Rightarrow> string" where
  "FormatInt n = decimal (word_of_int n)"

definition cursor_of :: "string \<Rightarrow> nat \<Rightarrow> string" where
  "cursor_of epoch offset = epoch @ '':'' @ FormatInt (int offset)"

text \<open>The offset a cursor stands for; \<open>None\<close> is a gap.\<close>

definition cursor_offset :: "string \<Rightarrow> string \<Rightarrow> nat option" where
  "cursor_offset epoch cursor =
     (if cursor = [] then Some 0
      else
        let parts = split_at (CHR '':'') cursor in
        if length parts \<noteq> 2 \<or> parts ! 0 \<noteq> epoch then None
        else case ParseInt (parts ! 1) of
               None \<Rightarrow> None
             | Some n \<Rightarrow> (if n < 0 \<or> FormatInt n \<noteq> parts ! 1 then None else Some (nat n)))"

subsection \<open>Reading a page\<close>

text \<open>One line from a position, at most 65537 bytes; \<open>False\<close> when the end came before a line feed.\<close>

definition read_line :: "string \<Rightarrow> nat \<Rightarrow> string \<times> bool" where
  "read_line content offset =
     (let chunk = take 65537 (drop offset content)
      in if LF \<in> set chunk then (takeWhile (\<lambda>c. c \<noteq> LF) chunk @ [LF], True) else (chunk, False))"

datatype page_end = Filled "wire_record list" nat | Refused string | Broken wire_error

lemma read_line_advances:
  assumes "offset < length content"
  shows "0 < length (fst (read_line content offset))"
  using assms by (auto simp: read_line_def Let_def)

function read_loop ::
  "(nat \<Rightarrow> bool) \<Rightarrow> string \<Rightarrow> int \<Rightarrow> int \<Rightarrow> wire_record list \<Rightarrow> int \<Rightarrow> nat \<Rightarrow> page_end" where
  "read_loop readable content maxRecords maxBytes records used offset =
     (if offset < length content \<and> int (length records) < maxRecords then
        (let (line, whole) = read_line content offset in
         if length line > 65536 \<and> readable offset then Refused PageOutcomeRecordTooLarge
         else if \<not> whole \<or> \<not> readable offset then Refused PageOutcomeCorrupt
         else case Decode line of
                Inl e \<Rightarrow> Refused PageOutcomeCorrupt
              | Inr record \<Rightarrow>
                  (case Encode record of
                     Inl e \<Rightarrow> Broken e
                   | Inr text \<Rightarrow>
                       (let bytes = int (length text) in
                        if used + bytes > maxBytes then
                          (if records = [] then Refused PageOutcomeRecordTooLarge else Filled records offset)
                        else read_loop readable content maxRecords maxBytes (records @ [record]) (used + bytes)
                               (offset + length line))))
      else Filled records offset)"
  by pat_completeness auto
termination
proof (relation "measure (\<lambda>(readable, content, maxRecords, maxBytes, records, used, offset). length content - offset)")
  fix readable :: "nat \<Rightarrow> bool" and content :: string and maxRecords maxBytes used :: int
    and records :: "wire_record list" and offset :: nat and x line whole "record" "text" bytes
  assume "offset < length content \<and> int (length records) < maxRecords" "x = read_line content offset"
    "(line, whole) = x"
  then have "0 < length line" "offset < length content" using read_line_advances [of offset content] by (auto dest: sym)
  then show "((readable, content, maxRecords, maxBytes, records @ [record], used + bytes, offset + length line),
      (readable, content, maxRecords, maxBytes, records, used, offset))
    \<in> measure (\<lambda>(readable, content, maxRecords, maxBytes, records, used, offset). length content - offset)"
    by (cases line) auto
qed simp

declare read_loop.simps [simp del]

definition refusal_page :: "string \<Rightarrow> string \<Rightarrow> wire_page" where
  "refusal_page outcome cursor = \<lparr>pg_outcome = outcome, pg_records = [], pg_next = cursor, pg_at_end = False\<rparr>"

definition bad_limits :: "i64 \<Rightarrow> i64 \<Rightarrow> bool" where
  "bad_limits maxRecords maxBytes \<longleftrightarrow>
     sint maxRecords < 1 \<or> sint maxRecords > 256 \<or> sint maxBytes < 1 \<or> sint maxBytes > 65536"

definition readHistoryLocked ::
  "history_env \<Rightarrow> file_sink \<Rightarrow> string \<Rightarrow> i64 \<Rightarrow> i64 \<Rightarrow> file_sink \<times> wire_page call" where
  "readHistoryLocked env s cursor maxRecords maxBytes =
     (let refuse = (\<lambda>s outcome. (s, Done (refusal_page outcome cursor))) in
      if bad_limits maxRecords maxBytes then refuse s PageOutcomeInvalidRequest
      else if fs_epoch s = [] \<and> he_key env = None then refuse s PageOutcomeUnavailable
      else
        let s1 = (if fs_epoch s = [] then s\<lparr>fs_epoch := hex_encode (the (he_key env))\<rparr> else s) in
        case cursor_offset (fs_epoch s1) cursor of
          None \<Rightarrow> refuse s1 PageOutcomeGap
        | Some offset \<Rightarrow>
            let end = length (fs_content s1) in
            if \<not> fs_open s1 \<or> \<not> he_stat env then refuse s1 PageOutcomeUnavailable
            else if \<not> he_open env then refuse s1 PageOutcomeUnavailable
            else if \<not> he_info env then refuse s1 PageOutcomeUnavailable
            else if \<not> he_same env \<or> offset > end then refuse s1 PageOutcomeGap
            else if offset > 0 \<and> (\<not> he_byte env \<or> fs_content s1 ! (offset - 1) \<noteq> LF) then refuse s1 PageOutcomeGap
            else case read_loop (he_line env) (fs_content s1) (sint maxRecords) (sint maxBytes) [] 0 offset of
                   Broken e \<Rightarrow> (s1, Panics e)
                 | Refused outcome \<Rightarrow> refuse s1 outcome
                 | Filled records offset' \<Rightarrow>
                     (s1, Done \<lparr>pg_outcome = PageOutcomePage, pg_records = records,
                                pg_next = cursor_of (fs_epoch s1) offset', pg_at_end = (offset' = end)\<rparr>))"

definition FileSink_Read ::
  "history_env \<Rightarrow> file_sink \<Rightarrow> string \<Rightarrow> i64 \<Rightarrow> i64 \<Rightarrow> file_sink \<times> wire_page call" where
  "FileSink_Read env s cursor maxRecords maxBytes = readHistoryLocked env s cursor maxRecords maxBytes"

lemma readHistoryLocked_frame:
  assumes "readHistoryLocked env s cursor maxRecords maxBytes = (s', x)"
  shows "fs_content s' = fs_content s \<and> fs_changed s' = fs_changed s \<and> fs_woken s' = fs_woken s \<and> fs_next s' = fs_next s
    \<and> fs_waiters s' = fs_waiters s \<and> fs_open s' = fs_open s \<and> fs_historyClosed s' = fs_historyClosed s \<and> fs_max s' = fs_max s"
  using assms
  by (auto simp: readHistoryLocked_def Let_def split: if_splits option.splits page_end.splits)

subsection \<open>What a client accepts\<close>

text \<open>The sizes are summed in 64-bit words; \<open>None\<close> is the run-time panic of the encoder.\<close>

fun page_size :: "wire_record list \<Rightarrow> i64 \<Rightarrow> i64 option" where
  "page_size [] n = Some n"
| "page_size (r # rs) n =
     (case Encode r of Inl e \<Rightarrow> None | Inr text \<Rightarrow> page_size rs (n + of_nat (length text)))"

definition validateHistoryPage :: "wire_page \<Rightarrow> string \<Rightarrow> i64 \<Rightarrow> i64 \<Rightarrow> wire_page call" where
  "validateHistoryPage page cursor maxRecords maxBytes =
     (if pg_outcome page = PageOutcomePage then
        (case page_size (pg_records page) 0 of
           None \<Rightarrow> Panics (Panic ''encode'')
         | Some n \<Rightarrow>
             (if bad_limits maxRecords maxBytes
                 \<or> sint (of_nat (length (pg_records page)) :: i64) > sint maxRecords
                 \<or> sint n > sint maxBytes \<or> pg_next page = []
                 \<or> (pg_records page \<noteq> [] \<and> pg_next page = cursor)
                 \<or> (\<not> pg_at_end page \<and> pg_records page = [])
              then Fails (HandlerError ''logging: invalid bounded history response'')
              else Done page))
      else if pg_records page \<noteq> [] \<or> pg_next page \<noteq> cursor \<or> pg_at_end page
        then Fails (HandlerError ''logging: refusal changed history continuation'')
      else Done page)"

subsection \<open>Cursors read back\<close>

definition history_ok_env :: "history_env \<Rightarrow> bool" where
  "history_ok_env env \<longleftrightarrow> he_key env \<noteq> Some []"

lemma split_at_nonempty: "split_at sep s \<noteq> []"
  by (induction s) simp_all

lemma split_at_none: "sep \<notin> set s \<Longrightarrow> split_at sep s = [s]"
  by (induction s) auto

lemma split_at_one: "sep \<notin> set a \<Longrightarrow> split_at sep (a @ sep # b) = a # split_at sep b"
  by (induction a) auto

lemma hex_encode_no_colon: "CHR '':'' \<notin> set (hex_encode k)"
proof -
  have h: "n < 16 \<Longrightarrow> hex_digits ! n \<noteq> CHR '':''" for n
  proof -
    have "list_all (\<lambda>n. hex_digits ! n \<noteq> CHR '':'') [0..<16]" by code_simp
    then show "n < 16 \<Longrightarrow> hex_digits ! n \<noteq> CHR '':''" by (simp add: list_all_iff)
  qed
  have "bv c div 16 < 16" for c using bv_less_256 [of c] by linarith
  then show ?thesis using h [symmetric] by (auto simp: hex_encode_def)
qed

lemma FormatInt_digits:
  assumes "n < 2 ^ 63"
  shows "list_all is_digit (FormatInt (int n)) \<and> int (digits_value 0 (FormatInt (int n))) = int n"
proof -
  have "sint (word_of_int (int n) :: i64) = int n"
    by (subst sint_sbintrunc', subst signed_take_bit_int_eq_self) (use assms in simp_all)
  then show ?thesis using decimal_nonneg [of "word_of_int (int n)"] by (simp add: FormatInt_def)
qed

lemma FormatInt_nonempty: "FormatInt n \<noteq> []"
proof -
  have "num_loop u [] \<noteq> []" if "u \<noteq> 0" for u
    using that num_loop_append [of "u div 10" "[char_of (48 + unat (u mod 10))]"] by (subst num_loop.simps) simp
  then show ?thesis by (simp add: FormatInt_def decimal_def num_def Let_def)
qed

lemma FormatInt_inject:
  assumes "m < 2 ^ 63" "n < 2 ^ 63" "FormatInt (int m) = FormatInt (int n)"
  shows "m = n"
proof -
  have "int m = int (digits_value 0 (FormatInt (int m)))"
    by (rule FormatInt_digits [OF assms(1), THEN conjunct2, symmetric])
  also have "\<dots> = int n" unfolding assms(3) by (rule FormatInt_digits [OF assms(2), THEN conjunct2])
  finally show ?thesis by simp
qed

lemma ParseInt_FormatInt:
  assumes "n < 2 ^ 63"
  shows "ParseInt (FormatInt (int n)) = Some (int n)"
proof -
  let ?s = "FormatInt (int n)"
  have d: "list_all is_digit ?s" "int (digits_value 0 ?s) = int n" using FormatInt_digits [OF assms] by simp_all
  obtain c cs where s: "?s = c # cs" using FormatInt_nonempty by (cases ?s) auto
  then have "c \<noteq> CHR ''-''" "c \<noteq> CHR ''+''" using d(1) by (auto simp: is_digit_def bv_def)
  then show ?thesis using d s assms unfolding ParseInt_def Let_def by simp
qed

lemma cursor_round_trip:
  assumes "n < 2 ^ 63" "CHR '':'' \<notin> set epoch"
  shows "cursor_offset epoch (cursor_of epoch n) = Some n"
proof -
  let ?s = "FormatInt (int n)"
  have "CHR '':'' \<notin> set ?s" using FormatInt_digits [OF assms(1)] by (auto simp: list_all_iff is_digit_def bv_def)
  then have "split_at (CHR '':'') (cursor_of epoch n) = [epoch, ?s]"
    using split_at_one [OF assms(2)] by (simp add: cursor_of_def split_at_none)
  then show ?thesis
    using ParseInt_FormatInt [OF assms(1)] by (simp add: cursor_offset_def cursor_of_def numeral_2_eq_2)
qed

lemma cursor_of_inject:
  "m < 2 ^ 63 \<Longrightarrow> n < 2 ^ 63 \<Longrightarrow> cursor_of epoch m = cursor_of epoch n \<longleftrightarrow> m = n"
  using FormatInt_inject by (auto simp: cursor_of_def)

text \<open>A cursor that is accepted and not empty is the one written for its offset.\<close>

lemma split_at_single: "split_at sep s = [b] \<Longrightarrow> s = b"
proof (induction s arbitrary: b)
  case (Cons c s)
  then have "c \<noteq> sep" by (auto simp: split_at_nonempty)
  moreover obtain x xs where "split_at sep s = x # xs" using split_at_nonempty by (cases "split_at sep s") auto
  ultimately show ?case using Cons by simp
qed simp

lemma split_at_two: "split_at sep s = [a, b] \<Longrightarrow> s = a @ sep # b"
proof (induction s arbitrary: a)
  case (Cons c s)
  show ?case
  proof (cases "c = sep")
    case True
    then have "split_at sep s = [b]" "a = []" using Cons.prems by simp_all
    then show ?thesis using True split_at_single by simp
  next
    case False
    then obtain a' where "a = c # a'" "split_at sep s = [a', b]"
      using Cons.prems by (cases "split_at sep s") (auto simp: split_at_nonempty)
    then show ?thesis using Cons.IH by simp
  qed
qed simp

lemma cursor_offset_Some:
  assumes "cursor_offset epoch cursor = Some n" "cursor \<noteq> []"
  shows "cursor = cursor_of epoch n"
proof -
  let ?parts = "split_at (CHR '':'') cursor"
  have p: "length ?parts = 2" "?parts ! 0 = epoch"
    using assms by (auto simp: cursor_offset_def Let_def split: if_splits)
  then obtain b where b: "?parts = [epoch, b]" by (auto simp: length_Suc_conv numeral_2_eq_2)
  then obtain m where "ParseInt b = Some m" "\<not> m < 0" "FormatInt m = b" "n = nat m"
    using assms by (auto simp: cursor_offset_def Let_def split: if_splits option.splits)
  then show ?thesis using split_at_two [OF b] by (simp add: cursor_of_def)
qed

subsection \<open>The loop of a page\<close>

definition bytes_of :: "wire_record \<Rightarrow> int" where
  "bytes_of r = (case Encode r of Inr t \<Rightarrow> int (length t) | Inl _ \<Rightarrow> 0)"

definition total :: "wire_record list \<Rightarrow> int" where
  "total rs = sum_list (map bytes_of rs)"

lemma total_simps [simp]: "total [] = 0" "total (r # rs) = bytes_of r + total rs" "total (a @ b) = total a + total b"
  by (simp_all add: total_def)

lemma Decode_encodes:
  assumes "Decode s = Inr v"
  shows "\<exists>t. Encode v = Inr t \<and> bytes_of v = int (length t) \<and> 0 < bytes_of v"
proof -
  obtain r r' where "decodeRecord r = Inr (v, r')" using assms by (auto simp: Decode_Inr)
  then have "writable v" using decodeRecord_sound by blast
  then show ?thesis by (auto simp: Encode_def bytes_of_def encRecord_text)
qed

text \<open>Every record of a page encodes; the page keeps both limits and its offset moves with its records.\<close>

definition page_inv :: "string \<Rightarrow> int \<Rightarrow> int \<Rightarrow> nat \<Rightarrow> wire_record list \<Rightarrow> nat \<Rightarrow> bool" where
  "page_inv content maxRecords maxBytes start records offset \<longleftrightarrow>
     offset \<le> length content \<and> start \<le> offset \<and> (records = [] \<longleftrightarrow> offset = start)
     \<and> int (length records) \<le> maxRecords \<and> total records \<le> maxBytes
     \<and> list_all (\<lambda>r. \<exists>t. Encode r = Inr t) records"

lemma takeWhile_less: "x \<in> set xs \<Longrightarrow> length (takeWhile (\<lambda>c. c \<noteq> x) xs) < length xs"
  by (induction xs) auto

lemma read_line_in:
  assumes "offset < length content"
  shows "offset + length (fst (read_line content offset)) \<le> length content"
proof -
  let ?chunk = "take 65537 (drop offset content)"
  have "length (fst (read_line content offset)) \<le> length ?chunk"
    using takeWhile_less [of LF ?chunk]
    by (cases "LF \<in> set ?chunk") (simp_all only: read_line_def Let_def if_True if_False fst_conv length_append
        list.size Suc_le_eq add_0 add_Suc_right add_0_right order_refl)
  then have "length (fst (read_line content offset)) \<le> length content - offset" by simp
  then show ?thesis using assms by linarith
qed

lemma read_loop_result:
  assumes "page_inv content maxRecords maxBytes start records offset" "used = total records"
  shows "case read_loop readable content maxRecords maxBytes records used offset of
      Filled rs off \<Rightarrow> page_inv content maxRecords maxBytes start rs off \<and> (rs = [] \<longrightarrow> off = length content \<or> maxRecords < 1)
    | Refused outcome \<Rightarrow> outcome = PageOutcomeRecordTooLarge \<or> outcome = PageOutcomeCorrupt
    | Broken e \<Rightarrow> False"
  using assms
proof (induction readable content maxRecords maxBytes records used offset rule: read_loop.induct)
  case (1 readable content maxRecords maxBytes records used offset)
  let ?stop = "\<lambda>x. read_loop readable content maxRecords maxBytes records used offset = x"
  obtain line whole where l: "read_line content offset = (line, whole)" by force
  show ?case
  proof (cases "offset < length content \<and> int (length records) < maxRecords")
    case False
    then show ?thesis using "1.prems" by (subst read_loop.simps) (auto simp: page_inv_def)
  next
    case go: True
    consider "length line > 65536 \<and> readable offset" | "\<not> (length line > 65536 \<and> readable offset)" "\<not> whole \<or> \<not> readable offset"
      | e where "\<not> (length line > 65536 \<and> readable offset)" "\<not> (\<not> whole \<or> \<not> readable offset)" "Decode line = Inl e"
      | r where "\<not> (length line > 65536 \<and> readable offset)" "\<not> (\<not> whole \<or> \<not> readable offset)" "Decode line = Inr r"
      by (cases "Decode line") blast+
    then show ?thesis
    proof cases
      case (4 r)
      obtain t where t: "Encode r = Inr t" "bytes_of r = int (length t)" using Decode_encodes [OF 4(3)] by blast
      show ?thesis
      proof (cases "used + int (length t) > maxBytes")
        case True
        then show ?thesis using go l 4 t "1.prems"
          by (subst read_loop.simps) (auto simp: page_inv_def)
      next
        case False
        have n: "0 < length line" "offset + length line \<le> length content"
          using read_line_advances [of offset content] read_line_in [of offset content] go l by simp_all
        have "page_inv content maxRecords maxBytes start (records @ [r]) (offset + length line)"
          using "1.prems" go False t n by (auto simp: page_inv_def)
        moreover have "used + int (length t) = total (records @ [r])" using "1.prems"(2) t by simp
        ultimately have "case read_loop readable content maxRecords maxBytes (records @ [r]) (used + int (length t))
            (offset + length line) of
            Filled rs off \<Rightarrow> page_inv content maxRecords maxBytes start rs off \<and> (rs = [] \<longrightarrow> off = length content \<or> maxRecords < 1)
          | Refused outcome \<Rightarrow> outcome = PageOutcomeRecordTooLarge \<or> outcome = PageOutcomeCorrupt
          | Broken e \<Rightarrow> False"
          using "1.IH" [OF go l [symmetric] refl 4(1,2,3) t(1) refl False] by simp
        then show ?thesis using go l 4 t False by (subst read_loop.simps) simp
      qed
    qed (use go l in \<open>(subst read_loop.simps, simp)+\<close>)
  qed
qed

text \<open>Where a line starts: what a cursor points at.\<close>

definition at_line :: "string \<Rightarrow> nat \<Rightarrow> bool" where
  "at_line content k \<longleftrightarrow> k \<le> length content \<and> (k = 0 \<or> content ! (k - 1) = LF)"

lemma read_line_whole:
  assumes "read_line content offset = (line, True)"
  shows "at_line content (offset + length line)"
proof -
  let ?chunk = "take 65537 (drop offset content)"
  let ?b = "takeWhile (\<lambda>c. c \<noteq> LF) ?chunk"
  have m: "LF \<in> set ?chunk" and l: "line = ?b @ [LF]"
    using assms by (auto simp: read_line_def Let_def split: if_splits)
  have n: "length ?b < length ?chunk" by (rule takeWhile_less [OF m])
  then have "?chunk ! length ?b = LF" using nth_length_takeWhile [of "\<lambda>c. c \<noteq> LF" ?chunk] by simp
  moreover have "length ?b < length (drop offset content)" "length ?b < 65537" using n by simp_all
  ultimately show ?thesis using l by (simp add: at_line_def nth_take)
qed

lemma read_loop_at_line:
  assumes "at_line content offset"
  shows "case read_loop readable content maxRecords maxBytes records used offset of
    Filled rs off \<Rightarrow> at_line content off | _ \<Rightarrow> True"
  using assms
proof (induction readable content maxRecords maxBytes records used offset rule: read_loop.induct)
  case (1 readable content maxRecords maxBytes records used offset)
  obtain line whole where l: "read_line content offset = (line, whole)" by force
  show ?case
  proof (cases "offset < length content \<and> int (length records) < maxRecords")
    case False
    then show ?thesis using "1.prems" by (subst read_loop.simps) auto
  next
    case go: True
    consider "length line > 65536 \<and> readable offset \<or> \<not> whole \<or> \<not> readable offset \<or> (\<exists>e. Decode line = Inl e) \<or> (\<exists>r e. Decode line = Inr r \<and> Encode r = Inl e)"
      | r t where "\<not> (length line > 65536 \<and> readable offset)" "\<not> (\<not> whole \<or> \<not> readable offset)" "Decode line = Inr r" "Encode r = Inr t"
      by (cases "Decode line"; cases "Encode (projr (Decode line))") (auto simp: sum.collapse)
    then show ?thesis
    proof cases
      case 1
      then show ?thesis using go l by (subst read_loop.simps) (auto split: sum.splits)
    next
      case (2 r t)
      then have a: "at_line content (offset + length line)" using read_line_whole l by simp
      show ?thesis
      proof (cases "used + int (length t) > maxBytes")
        case True
        then show ?thesis using go l 2 "1.prems" by (subst read_loop.simps) auto
      next
        case False
        have "case read_loop readable content maxRecords maxBytes (records @ [r]) (used + int (length t)) (offset + length line) of
            Filled rs off \<Rightarrow> at_line content off | _ \<Rightarrow> True"
          using "1.IH" [OF go l [symmetric] refl 2(1,2,3,4) refl False a] by simp
        then show ?thesis using go l 2 False by (subst read_loop.simps) simp
      qed
    qed
  qed
qed

subsection \<open>What reading answers\<close>

lemma outcomes_differ [simp]:
  "PageOutcomeGap \<noteq> PageOutcomePage" "PageOutcomeUnavailable \<noteq> PageOutcomePage"
  "PageOutcomeInvalidRequest \<noteq> PageOutcomePage" "PageOutcomeRecordTooLarge \<noteq> PageOutcomePage"
  "PageOutcomeCorrupt \<noteq> PageOutcomePage" "PageOutcomeUnsupported \<noteq> PageOutcomePage"
  by (simp_all add: outcome_defs)

lemmas outcomes_differ' [simp] = outcomes_differ [symmetric]

text \<open>Every record of a page was decoded from a line.\<close>

lemma read_loop_decoded:
  assumes "list_all P records" "\<And>line r. Decode line = Inr r \<Longrightarrow> P r"
  shows "case read_loop readable content maxRecords maxBytes records used offset of
    Filled rs off \<Rightarrow> list_all P rs | _ \<Rightarrow> True"
  using assms(1)
proof (induction readable content maxRecords maxBytes records used offset rule: read_loop.induct)
  case (1 readable content maxRecords maxBytes records used offset)
  obtain line whole where l: "read_line content offset = (line, whole)" by force
  show ?case
  proof (cases "offset < length content \<and> int (length records) < maxRecords")
    case False
    then show ?thesis using "1.prems" by (subst read_loop.simps) auto
  next
    case go: True
    consider "length line > 65536 \<and> readable offset" | "\<not> (length line > 65536 \<and> readable offset)" "\<not> whole \<or> \<not> readable offset"
      | e where "\<not> (length line > 65536 \<and> readable offset)" "\<not> (\<not> whole \<or> \<not> readable offset)" "Decode line = Inl e"
      | r where "\<not> (length line > 65536 \<and> readable offset)" "\<not> (\<not> whole \<or> \<not> readable offset)" "Decode line = Inr r"
      by (cases "Decode line") blast+
    then show ?thesis
    proof cases
      case (4 r)
      obtain t where t: "Encode r = Inr t" using Decode_encodes [OF 4(3)] by blast
      show ?thesis
      proof (cases "used + int (length t) > maxBytes")
        case True
        then show ?thesis using go l 4 t "1.prems" by (subst read_loop.simps) auto
      next
        case False
        have "list_all P (records @ [r])" using "1.prems" assms(2) [OF 4(3)] by simp
        from "1.IH" [OF go l [symmetric] refl 4(1,2,3) t(1) refl False this]
        show ?thesis using go l 4 t False by (subst read_loop.simps) simp
      qed
    qed (use go l in \<open>(subst read_loop.simps, simp)+\<close>)
  qed
qed

lemma Decode_record_sound: "Decode line = Inr r \<Longrightarrow> utf8_record r \<and> map_record r \<and> writable r"
  by (auto simp: Decode_Inr dest: decodeRecord_sound)

definition read_refusal :: "string \<Rightarrow> bool" where
  "read_refusal x \<longleftrightarrow> x \<in> {PageOutcomeGap, PageOutcomeUnavailable, PageOutcomeInvalidRequest,
     PageOutcomeRecordTooLarge, PageOutcomeCorrupt}"

lemma read_refusal_simps [simp]:
  "read_refusal PageOutcomeGap" "read_refusal PageOutcomeUnavailable" "read_refusal PageOutcomeInvalidRequest"
  "read_refusal PageOutcomeRecordTooLarge" "read_refusal PageOutcomeCorrupt" "\<not> read_refusal PageOutcomePage"
  by (simp_all add: read_refusal_def outcome_defs)

lemma read_refusal_name: "read_refusal x \<Longrightarrow> x \<in> set PageOutcomeNames"
  by (auto simp: read_refusal_def outcome_defs PageOutcomeNames_def)

definition sound_record :: "wire_record \<Rightarrow> bool" where
  "sound_record r \<longleftrightarrow> utf8_record r \<and> map_record r \<and> writable r"

text \<open>
  A read either refuses, changing nothing but perhaps choosing the instance's key, or gives a page
  that starts where the cursor points and keeps the limits.
\<close>

lemma read_cases:
  obtains (refused) s1 outcome where "readHistoryLocked env s cursor maxRecords maxBytes = (s1, Done (refusal_page outcome cursor))"
      "outcome \<noteq> PageOutcomePage" "read_refusal outcome"
      "s1 = s \<or> s1 = (if fs_epoch s = [] then s\<lparr>fs_epoch := hex_encode (the (he_key env))\<rparr> else s)"
  | (page) s1 offset rs off where
      "readHistoryLocked env s cursor maxRecords maxBytes = (s1, Done \<lparr>pg_outcome = PageOutcomePage, pg_records = rs,
         pg_next = cursor_of (fs_epoch s1) off, pg_at_end = (off = length (fs_content s))\<rparr>)"
      "\<not> bad_limits maxRecords maxBytes" "cursor_offset (fs_epoch s1) cursor = Some offset" "fs_content s1 = fs_content s"
      "page_inv (fs_content s) (sint maxRecords) (sint maxBytes) offset rs off" "rs = [] \<longrightarrow> off = length (fs_content s)"
      "at_line (fs_content s) off"
      "s1 = (if fs_epoch s = [] then s\<lparr>fs_epoch := hex_encode (the (he_key env))\<rparr> else s)"
      "fs_epoch s = [] \<longrightarrow> he_key env \<noteq> None" "list_all sound_record rs"
proof -
  let ?s1 = "if fs_epoch s = [] then s\<lparr>fs_epoch := hex_encode (the (he_key env))\<rparr> else s"
  let ?refused = "\<exists>s1 outcome. readHistoryLocked env s cursor maxRecords maxBytes = (s1, Done (refusal_page outcome cursor))
    \<and> read_refusal outcome \<and> (s1 = s \<or> s1 = ?s1)"
  have c: "fs_content ?s1 = fs_content s" by simp
  show thesis
  proof (cases ?refused)
    case True
    then show thesis using refused by fastforce
  next
    case False
    then have f: "readHistoryLocked env s cursor maxRecords maxBytes \<noteq> (s', Done (refusal_page x cursor))"
      if "read_refusal x" "s' = s \<or> s' = ?s1" for s' x using that by blast
    have l: "\<not> bad_limits maxRecords maxBytes"
    proof
      assume "bad_limits maxRecords maxBytes"
      then have "readHistoryLocked env s cursor maxRecords maxBytes = (s, Done (refusal_page PageOutcomeInvalidRequest cursor))"
        by (simp add: readHistoryLocked_def)
      then show False using f by auto
    qed
    have k: "(fs_epoch s = [] \<and> he_key env = None) = False"
    proof (rule ccontr)
      assume "(fs_epoch s = [] \<and> he_key env = None) \<noteq> False"
      then have "readHistoryLocked env s cursor maxRecords maxBytes = (s, Done (refusal_page PageOutcomeUnavailable cursor))"
        using l by (simp add: readHistoryLocked_def)
      then show False using f by auto
    qed
    note open_def = readHistoryLocked_def [of env s cursor maxRecords maxBytes, unfolded Let_def, unfolded l k simp_thms if_False]
    obtain offset where o: "cursor_offset (fs_epoch ?s1) cursor = Some offset"
    proof (cases "cursor_offset (fs_epoch ?s1) cursor")
      case None
      then have "readHistoryLocked env s cursor maxRecords maxBytes = (?s1, Done (refusal_page PageOutcomeGap cursor))"
        using l unfolding open_def by (simp only: if_False option.case)
      then show thesis using f by auto
    qed
    have g: "fs_open ?s1 \<and> he_stat env \<and> he_open env \<and> he_info env \<and> he_same env \<and> \<not> offset > length (fs_content s)
      \<and> \<not> (offset > 0 \<and> (\<not> he_byte env \<or> fs_content s ! (offset - 1) \<noteq> LF))"
    proof (rule ccontr)
      assume "\<not> ?thesis"
      then have "readHistoryLocked env s cursor maxRecords maxBytes = (?s1, Done (refusal_page PageOutcomeUnavailable cursor))
        \<or> readHistoryLocked env s cursor maxRecords maxBytes = (?s1, Done (refusal_page PageOutcomeGap cursor))"
        using l unfolding open_def by (simp only: if_False option.case o c) auto
      then show False using f [of PageOutcomeUnavailable ?s1] f [of PageOutcomeGap ?s1] by fastforce
    qed
    let ?loop = "read_loop (he_line env) (fs_content s) (sint maxRecords) (sint maxBytes) [] 0 offset"
    have e: "readHistoryLocked env s cursor maxRecords maxBytes =
        (case ?loop of Broken e \<Rightarrow> (?s1, Panics e)
         | Refused outcome \<Rightarrow> (?s1, Done (refusal_page outcome cursor))
         | Filled records offset' \<Rightarrow>
             (?s1, Done \<lparr>pg_outcome = PageOutcomePage, pg_records = records,
               pg_next = cursor_of (fs_epoch ?s1) offset', pg_at_end = (offset' = length (fs_content s))\<rparr>))"
      using l g unfolding open_def by (simp only: if_False option.case o c) auto
    have "page_inv (fs_content s) (sint maxRecords) (sint maxBytes) offset [] offset"
      using g l by (simp add: page_inv_def bad_limits_def)
    from read_loop_result [OF this, of 0 "he_line env"] have r: "case ?loop of
        Filled rs off \<Rightarrow> page_inv (fs_content s) (sint maxRecords) (sint maxBytes) offset rs off
          \<and> (rs = [] \<longrightarrow> off = length (fs_content s) \<or> sint maxRecords < 1)
      | Refused outcome \<Rightarrow> outcome = PageOutcomeRecordTooLarge \<or> outcome = PageOutcomeCorrupt
      | Broken e \<Rightarrow> False" by simp
    have "at_line (fs_content s) offset" using g by (auto simp: at_line_def)
    have d: "case ?loop of Filled rs off \<Rightarrow> list_all sound_record rs | _ \<Rightarrow> True"
      by (rule read_loop_decoded) (simp_all add: sound_record_def Decode_record_sound)
    from read_loop_at_line [OF \<open>at_line (fs_content s) offset\<close>] have a: "case ?loop of Filled rs off \<Rightarrow> at_line (fs_content s) off | _ \<Rightarrow> True" .
    show thesis
    proof (cases ?loop)
      case (Filled rs off)
      then show thesis using page [of ?s1 rs off offset] e r l o c a k d by (auto simp: bad_limits_def)
    next
      case (Refused outcome)
      then have "outcome = PageOutcomeRecordTooLarge \<or> outcome = PageOutcomeCorrupt" using r by auto
      then show thesis using refused [of ?s1 outcome] e Refused by (auto simp: outcome_defs read_refusal_def)
    next
      case (Broken x)
      then show thesis using r by simp
    qed
  qed
qed

lemma page_size_total:
  "list_all (\<lambda>r. \<exists>t. Encode r = Inr t) rs \<Longrightarrow> page_size rs n = Some (n + word_of_int (total rs))"
  by (induction rs arbitrary: n) (auto simp: bytes_of_def)

lemma sint_small: "0 \<le> n \<Longrightarrow> n < 2 ^ 63 \<Longrightarrow> sint (word_of_int n :: i64) = n"
  by (subst sint_sbintrunc', subst signed_take_bit_int_eq_self) simp_all

lemma total_nonneg: "0 \<le> total rs"
  by (induction rs) (auto simp: bytes_of_def split: sum.splits)

lemma client_accepts_page:
  assumes "fs_content s = content" "length content < 2 ^ 63"
    and "FileSink_Read env s cursor maxRecords maxBytes = (s', result)"
  shows "\<exists>page. result = Done page \<and> validateHistoryPage page cursor maxRecords maxBytes = Done page"
proof (cases rule: read_cases [of env s cursor maxRecords maxBytes])
  case (refused s1 outcome)
  then have "result = Done (refusal_page outcome cursor)" using assms(3) by (simp add: FileSink_Read_def)
  then show ?thesis using refused(2) by (simp add: validateHistoryPage_def refusal_page_def)
next
  case (page s1 offset rs off)
  have inv: "off \<le> length content" "offset \<le> off" "rs = [] \<longleftrightarrow> off = offset"
    "int (length rs) \<le> sint maxRecords" "total rs \<le> sint maxBytes" "list_all (\<lambda>r. \<exists>t. Encode r = Inr t) rs"
    using page(5) assms(1) by (simp_all add: page_inv_def)
  have lim: "sint maxRecords \<le> 256" "sint maxBytes \<le> 65536" using page(2) by (simp_all add: bad_limits_def)
  have "sint (word_of_int (total rs) :: i64) = total rs" using sint_small total_nonneg [of rs] inv(5) lim(2) by simp
  moreover have "sint (word_of_int (int (length rs)) :: i64) = int (length rs)"
    by (rule sint_small) (use inv(4) lim(1) in simp_all)
  moreover have "rs \<noteq> [] \<longrightarrow> cursor_of (fs_epoch s1) off \<noteq> cursor"
  proof
    assume "rs \<noteq> []"
    then have "off \<noteq> offset" using inv(3) by simp
    moreover have "off < 2 ^ 63" "offset < 2 ^ 63" using inv(1,2) assms(2) by simp_all
    ultimately have "cursor_of (fs_epoch s1) off \<noteq> cursor_of (fs_epoch s1) offset" by (simp add: cursor_of_inject)
    moreover have "cursor = [] \<or> cursor = cursor_of (fs_epoch s1) offset" using cursor_offset_Some page(3) by blast
    moreover have "cursor_of (fs_epoch s1) off \<noteq> []" by (simp add: cursor_of_def)
    ultimately show "cursor_of (fs_epoch s1) off \<noteq> cursor" by auto
  qed
  moreover have "cursor_of (fs_epoch s1) off \<noteq> []" by (simp add: cursor_of_def)
  ultimately show ?thesis
    using page(1,2,6) assms(1,3) inv by (auto simp: FileSink_Read_def validateHistoryPage_def page_size_total)
qed

end
