(* ===== verification/Client.thy ===== *)
theory Client
  imports History
begin

text \<open>
  \<^verbatim>\<open>go/client/client.go\<close> and \<^verbatim>\<open>go/client/observer.go\<close>: the application's
  side.  A context is what \<^verbatim>\<open>ctx.Err\<close> answers.  The frame transport belongs to another
  module: a transformer of the caller's state \<open>'s\<close>, its fields the code sets are in
  \<open>frame_client\<close>, and what its \<^verbatim>\<open>WithDefaults\<close> fills in is the parameter \<open>defaults\<close>.
\<close>

subsection \<open>Bindings\<close>

definition EnvEndpoint :: string where "EnvEndpoint = ''ABSTRACTION_LOG_ENDPOINT''"

definition DefaultEndpoint :: "(string \<Rightarrow> string) \<Rightarrow> (string \<Rightarrow> string) \<Rightarrow> string" where
  "DefaultEndpoint getenv endpoint_of =
     (if getenv EnvEndpoint \<noteq> [] then getenv EnvEndpoint else endpoint_of ''logging-v1'')"

record frame_client =
  fc_endpoint :: string
  fc_timeout :: i64

definition second :: i64 where "second = 1000000000"

definition NewWithTransport ::
  "(i64 \<Rightarrow> i64 \<Rightarrow> frame_client \<Rightarrow> frame_client) \<Rightarrow> frame_client \<Rightarrow> frame_client" where
  "NewWithTransport defaults transport = defaults (2 * second) (push_bit 20 1) transport"

text \<open>A nonpositive budget and one of more than 35 seconds are refused; the receiver is copied.\<close>

definition Observer_WithTimeout :: "frame_client \<Rightarrow> i64 \<Rightarrow> wire_error + frame_client" where
  "Observer_WithTimeout c timeout =
     (if sint timeout \<le> 0 \<or> sint timeout > sint (35 * second)
      then Inl (HandlerError ''logging: timeout must be positive and at most 35 seconds'')
      else Inr (c\<lparr>fc_timeout := timeout\<rparr>))"

subsection \<open>Writing\<close>

definition Client_WriteContext ::
  "('s \<Rightarrow> string \<Rightarrow> 's \<times> unit call) \<Rightarrow> wire_error option \<Rightarrow> 's \<Rightarrow> wire_record \<Rightarrow> 's \<times> unit call" where
  "Client_WriteContext transport ctx s record =
     (case ctx of Some e \<Rightarrow> (s, Fails e) | None \<Rightarrow> SinkClient_Write transport s record)"

definition Client_Write ::
  "('s \<Rightarrow> string \<Rightarrow> 's \<times> unit call) \<Rightarrow> 's \<Rightarrow> wire_record \<Rightarrow> 's \<times> unit call" where
  "Client_Write transport s record = Client_WriteContext transport None s record"

text \<open>The record of an event; \<open>now\<close> is the formatted time.\<close>

definition log_entry :: "string \<Rightarrow> i64 \<Rightarrow> string \<Rightarrow> strings \<Rightarrow> wire_record" where
  "log_entry now level message attrs =
     \<lparr>wr_schema = 1, wr_time = now, wr_level = level, wr_msg = message,
      wr_identity = [zero_attestation\<lparr>wa_by := ''self'', wa_uid := - 1, wa_gid := - 1, wa_pid := - 1\<rparr>],
      wr_job = [], wr_attrs = attrs\<rparr>"

definition Client_LogContext ::
  "('s \<Rightarrow> string \<Rightarrow> 's \<times> unit call) \<Rightarrow> string \<Rightarrow> wire_error option \<Rightarrow> 's \<Rightarrow> i64 \<Rightarrow> string \<Rightarrow> strings \<Rightarrow> 's \<times> unit call" where
  "Client_LogContext transport now ctx s level message attrs =
     Client_WriteContext transport ctx s (log_entry now level message attrs)"

definition Client_Log ::
  "('s \<Rightarrow> string \<Rightarrow> 's \<times> unit call) \<Rightarrow> string \<Rightarrow> 's \<Rightarrow> i64 \<Rightarrow> string \<Rightarrow> strings \<Rightarrow> 's \<times> unit call" where
  "Client_Log transport now s level message attrs = Client_LogContext transport now None s level message attrs"

subsection \<open>Reading and observing\<close>

definition checked :: "string \<Rightarrow> i64 \<Rightarrow> i64 \<Rightarrow> 's \<times> wire_page call \<Rightarrow> 's \<times> wire_page call" where
  "checked cursor maxRecords maxBytes r =
     (case r of
        (s, Done page) \<Rightarrow> (s, validateHistoryPage page cursor maxRecords maxBytes)
      | (s, Fails e) \<Rightarrow> (s, Fails e)
      | (s, Panics e) \<Rightarrow> (s, Panics e))"

definition Reader_ReadContext ::
  "('s \<Rightarrow> string \<Rightarrow> 's \<times> string call) \<Rightarrow> wire_error option \<Rightarrow> 's \<Rightarrow> string \<Rightarrow> i64 \<Rightarrow> i64 \<Rightarrow> 's \<times> wire_page call" where
  "Reader_ReadContext transport ctx s cursor maxRecords maxBytes =
     (case ctx of
        Some e \<Rightarrow> (s, Fails e)
      | None \<Rightarrow> checked cursor maxRecords maxBytes (HistoryReaderClient_Read transport s cursor maxRecords maxBytes))"

definition Observer_ObserveContext ::
  "('s \<Rightarrow> string \<Rightarrow> 's \<times> string call) \<Rightarrow> wire_error option \<Rightarrow> 's \<Rightarrow> string \<Rightarrow> i64 \<Rightarrow> i64 \<Rightarrow> i64
    \<Rightarrow> 's \<times> wire_page call" where
  "Observer_ObserveContext transport ctx s cursor maxRecords maxBytes waitMS =
     (case ctx of
        Some e \<Rightarrow> (s, Fails e)
      | None \<Rightarrow>
          if sint waitMS < 0 \<or> sint waitMS > 30000 then (s, Fails (HandlerError ''logging: wait_ms outside 0..30000''))
          else checked cursor maxRecords maxBytes
                 (HistoryObserverClient_Observe transport s cursor maxRecords maxBytes waitMS))"


subsection \<open>A page of a file, as it travels\<close>

text \<open>Bytes of ASCII only.\<close>

definition ascii :: "string \<Rightarrow> bool" where
  "ascii s \<longleftrightarrow> list_all (\<lambda>c. bv c < 0x80) s"

lemma ascii_simps [simp]: "ascii []" "ascii (c # s) \<longleftrightarrow> bv c < 0x80 \<and> ascii s" "ascii (s @ t) \<longleftrightarrow> ascii s \<and> ascii t"
  by (simp_all add: ascii_def)

lemma ascii_valid: "ascii s \<Longrightarrow> validUTF8 s"
  by (simp add: ascii_def validUTF8_ascii)

lemma ascii_hex: "ascii (hex_encode s)"
proof -
  have "list_all (\<lambda>n. bv (hex_digits ! n) < 0x80) [0..<16]" by code_simp
  then have "n < 16 \<Longrightarrow> bv (hex_digits ! n) < 0x80" for n by (simp add: list_all_iff)
  then show ?thesis by (induction s) (simp_all add: hex_encode_def less_mult_imp_div_less)
qed

lemma ascii_decimal: "ascii (decimal n)"
proof -
  have "ascii (num_loop m [])" for m
    using num_loop_digits [of m] ascii_digit by (auto simp: ascii_def list_all_iff)
  moreover have "ascii ''0''" "ascii ''-''" by code_simp+
  ultimately show ?thesis by (simp add: decimal_def num_def)
qed

lemma ascii_cursor: "ascii epoch \<Longrightarrow> ascii (cursor_of epoch n)"
  using ascii_decimal by (simp add: cursor_of_def FormatInt_def bv_def)

lemma outcome_names: "x \<in> set PageOutcomeNames \<Longrightarrow> ascii x"
proof -
  have "list_all ascii PageOutcomeNames" by code_simp
  then show "x \<in> set PageOutcomeNames \<Longrightarrow> ascii x" by (simp add: list_all_iff)
qed

lemma page_outcome_names: "page_outcome_ok p \<longleftrightarrow> pg_outcome p \<in> set PageOutcomeNames"
  by (auto simp: page_outcome_ok_def PageOutcomeNames_def)

lemma FileSink_Read_clean:
  assumes "FileSink_Read env s cursor maxRecords maxBytes = (s', Done p)" "validUTF8 cursor" "ascii (fs_epoch s)"
  shows "utf8_page p \<and> writable_page p \<and> ascii (fs_epoch s')"
proof (cases rule: read_cases [of env s cursor maxRecords maxBytes])
  case (refused s1 outcome)
  then have p: "p = refusal_page outcome cursor" "s' = s1" using assms(1) by (simp_all add: FileSink_Read_def)
  have "outcome \<in> set PageOutcomeNames" by (rule read_refusal_name [OF refused(3)])
  then show ?thesis
    using p refused(4) assms(2,3) outcome_names ascii_hex
    by (auto simp: utf8_page_def writable_page_def page_outcome_names refusal_page_def ascii_valid)
next
  case (page s1 offset rs off)
  have p: "p = \<lparr>pg_outcome = PageOutcomePage, pg_records = rs, pg_next = cursor_of (fs_epoch s1) off,
      pg_at_end = (off = length (fs_content s))\<rparr>" "s' = s1"
    using assms(1) page(1) by (auto simp: FileSink_Read_def)
  have "ascii (fs_epoch s1)" using page(8) assms(3) ascii_hex by simp
  moreover have "PageOutcomePage \<in> set PageOutcomeNames" by (simp add: PageOutcomePage_def PageOutcomeNames_def)
  ultimately show ?thesis
    using p page(10) outcome_names [of PageOutcomePage]
    by (auto simp: utf8_page_def writable_page_def page_outcome_names list_all_iff sound_record_def
        ascii_valid ascii_cursor)
qed

text \<open>The client's check does not distinguish a page from its canonical form.\<close>

lemma page_size_canonical:
  "list_all writable rs \<Longrightarrow> page_size (map canonical rs) n = page_size rs n"
  by (induction rs arbitrary: n) (simp_all add: Encode_canonical split: sum.split)

lemma validate_canonical:
  assumes "writable_page p" "validateHistoryPage p cursor n b = Done p"
  shows "validateHistoryPage (canonical_page p) cursor n b = Done (canonical_page p)"
  using assms page_size_canonical [of "pg_records p"]
  by (auto simp: validateHistoryPage_def canonical_page_def writable_page_def split: if_splits option.splits)

lemma client_reads:
  assumes "handler s c n b = (s', Done p)" "validUTF8 c" "utf8_page p" "writable_page p"
    and "validateHistoryPage p c n b = Done p"
  shows "Reader_ReadContext (HistoryReaderDispatcher_ExchangeFrame handler) None s c n b = (s', Done (canonical_page p))"
  using read_delivered [of c handler s n b] validate_canonical [OF assms(4,5)] assms
  by (simp add: Reader_ReadContext_def checked_def)

lemma client_observes:
  assumes "handler s c n b w = (s', Done p)" "validUTF8 c" "utf8_page p" "writable_page p"
    and "validateHistoryPage p c n b = Done p" "0 \<le> sint w" "sint w \<le> 30000"
  shows "Observer_ObserveContext (HistoryObserverDispatcher_ExchangeFrame handler) None s c n b w
    = (s', Done (canonical_page p))"
  using observe_delivered [of c handler s n b w] validate_canonical [OF assms(4,5)] assms
  by (simp add: Observer_ObserveContext_def checked_def)

end
