(* ===== verification/Client_Sink.thy ===== *)
theory Client_Sink
  imports Json_Line Slog_Handler Client
begin

text \<open>
  \<^verbatim>\<open>go/client_handler.go\<close> and \<^verbatim>\<open>go/resolved.go\<close>: the sink that hands a record to a service's
  client as its contract encoding, and the one that finds that service first and keeps it.
\<close>

subsection \<open>Records to a client\<close>

definition clientSink_WriteContext ::
  "('t \<Rightarrow> wire_error + string) \<Rightarrow> ('s \<Rightarrow> string \<Rightarrow> 's \<times> unit call) \<Rightarrow> wire_error option \<Rightarrow> 't log_record \<Rightarrow> 's
    \<Rightarrow> 's \<times> unit call" where
  "clientSink_WriteContext T transport ctx r s =
     (case Encode_record T r of
        Inl e \<Rightarrow> (s, Fails e)
      | Inr encoded \<Rightarrow>
          (case Decode encoded of
             Inl e \<Rightarrow> (s, Fails e)
           | Inr record \<Rightarrow> Client_WriteContext transport ctx s record))"

definition clientSink_Write ::
  "('t \<Rightarrow> wire_error + string) \<Rightarrow> ('s \<Rightarrow> string \<Rightarrow> 's \<times> unit call) \<Rightarrow> 't log_record \<Rightarrow> 's \<Rightarrow> 's \<times> unit call" where
  "clientSink_Write T transport r s = clientSink_WriteContext T transport None r s"

definition NewClientHandler ::
  "('t \<Rightarrow> wire_error + string) \<Rightarrow> ('s \<Rightarrow> string \<Rightarrow> 's \<times> unit call) \<Rightarrow> options option
    \<Rightarrow> (wire_error option, 't, 's, unit call) handler" where
  "NewClientHandler T transport opts = NewHandler (With_context (clientSink_WriteContext T transport)) opts"

lemma set_AList_update: "set (AList.update k v m) \<subseteq> insert (k, v) (set m)"
  by (induction m) auto

lemma read_attrs_facts: "utf8_map (read_attrs m)" "distinct (map fst (read_attrs m))"
proof -
  have "utf8_map (fold (\<lambda>(k, x). AList.update (sanitize k) (sanitize x)) xs a) \<and>
      distinct (map fst (fold (\<lambda>(k, x). AList.update (sanitize k) (sanitize x)) xs a))"
    if "utf8_map a" "distinct (map fst a)" for xs and a :: strings
    using that
  proof (induction xs arbitrary: a)
    case (Cons p xs)
    have "utf8_map (AList.update (sanitize (fst p)) (sanitize (snd p)) a)"
      using Cons.prems(1) validUTF8_sanitize
      by (auto simp: utf8_map_def list_all_iff dest!: subsetD [OF set_AList_update])
    then show ?case using Cons.IH [of "AList.update (sanitize (fst p)) (sanitize (snd p)) a"] Cons.prems(2)
      by (simp add: split_beta distinct_update)
  qed simp
  from this [of "[]" "sorted_map m"] show "utf8_map (read_attrs m)" "distinct (map fst (read_attrs m))"
    by (simp_all add: read_attrs_def utf8_map_def)
qed

lemma wire_of_clean:
  assumes "stamp_ok ts" "lr_schema r = 0 \<or> lr_schema r = 1"
  shows "utf8_record (wire_of ts r)" "writable (wire_of ts r)" "map_record (wire_of ts r)"
  using assms read_attrs_facts [of "lr_attrs r"] validUTF8_sanitize
  by (auto simp: utf8_record_def writable_def map_record_def wire_of_def stamp_ok_def SchemaVersion_def
      list_all_iff utf8_attestation_def wire_attestation_of_def)

text \<open>
  A record written with a handler over a client reaches the service's operation exactly once, as
  its contract encoding says it, through both codecs, the envelope and the dispatcher, and what the
  operation answers is what Handle returns.
\<close>

theorem handler_reaches_service:
  assumes "T (lr_time (handled host pid At zero now h r)) = Inr ts" "stamp_ok ts"
    and "hd_sink h = With_context (clientSink_WriteContext T (SinkDispatcher_WriteFrame operation))"
  shows "Handle host pid At zero now h None r s
    = recovered (operation s (canonical (wire_of ts (handled host pid At zero now h r))))"
proof -
  let ?r = "handled host pid At zero now h r"
  have schema: "lr_schema ?r = 1" by (simp add: handled_def Let_def SchemaVersion_def)
  obtain line where line: "Encode_record T ?r = Inr line" using assms(1) schema by (simp add: Encode_record_def)
  have "Decode line = Inr (wire_of ts ?r)" using json_line_read [OF line assms(1,2)] schema by simp
  then have "clientSink_WriteContext T (SinkDispatcher_WriteFrame operation) None ?r s
      = SinkClient_Write (SinkDispatcher_WriteFrame operation) s (wire_of ts ?r)"
    using line by (simp add: clientSink_WriteContext_def Client_WriteContext_def)
  also have "\<dots> = recovered (operation s (canonical (wire_of ts ?r)))"
    by (rule sink_delivered) (use wire_of_clean [of ts ?r] assms(2) schema in simp_all)
  finally show ?thesis using assms(3) by (simp add: Handle_def Let_def)
qed

subsection \<open>The sink that finds its service\<close>

text \<open>
  What selection, resolution and binding of the facade's modules answer, and the words of theirs
  the code compares with, are parameters: \<open>'r\<close> is a reference, \<open>'c\<close> a client over its transport.
\<close>

record 'r resolved_reference =
  rr_status :: string
  rr_scope :: string
  rr_transport :: string
  rr_reference :: 'r

record ('sel, 'r, 'c) facade =
  fa_select :: "wire_error + 'sel"
  fa_resolve :: "'sel \<Rightarrow> wire_error + 'r resolved_reference"
  fa_bind :: "'sel \<Rightarrow> 'r \<Rightarrow> wire_error + 'c"

record words =
  wd_resolved :: string
  wd_local :: string
  wd_transport :: string

definition ResolutionError :: "string \<Rightarrow> wire_error" where
  "ResolutionError status = HandlerError (''logging resolution: '' @ status)"

text \<open>The part of \<^verbatim>\<open>binding\<close> after the gate when nothing is bound yet.\<close>

definition find_binding :: "words \<Rightarrow> ('sel, 'r, 'c) facade \<Rightarrow> wire_error + 'c" where
  "find_binding wd fa =
     (case fa_select fa of
        Inl e \<Rightarrow> Inl e
      | Inr selected \<Rightarrow>
          (case fa_resolve fa selected of
             Inl e \<Rightarrow> Inl e
           | Inr result \<Rightarrow>
               if rr_status result \<noteq> wd_resolved wd then Inl (ResolutionError (rr_status result))
               else if rr_scope result \<noteq> wd_local wd \<or> rr_transport result \<noteq> wd_transport wd
               then Inl (ResolutionError ''unsupported_transport'')
               else fa_bind fa selected (rr_reference result)))"

text \<open>
  Callers of \<^verbatim>\<open>binding\<close>: outside, holding the gate, finding a binding, and done with what they
  returned.  \<open>Acquires\<close> is the send on the gate; the context of a caller decides the rest of its select; \<open>Finds\<close> carries what \<^const>\<open>find_binding\<close> gave.
\<close>

datatype 'c caller = Outside | Holding | Finding | Got "wire_error + 'c"

record 'c resolved_sink =
  rs_gate :: bool
  rs_bound :: "'c option"
  rs_callers :: "'c caller list"
  rs_searches :: nat

definition newResolvedSink :: "nat \<Rightarrow> 'c resolved_sink" where
  "newResolvedSink n = \<lparr>rs_gate = False, rs_bound = None, rs_callers = replicate n Outside, rs_searches = 0\<rparr>"

datatype 'c binding_event =
    Acquires nat
  | Cancelled nat wire_error
  | Looks nat "wire_error option"
  | Finds nat "wire_error + 'c"

definition at_caller :: "nat \<Rightarrow> 'c caller \<Rightarrow> 'c resolved_sink \<Rightarrow> bool" where
  "at_caller i c s \<longleftrightarrow> i < length (rs_callers s) \<and> rs_callers s ! i = c"

definition now_at :: "nat \<Rightarrow> 'c caller \<Rightarrow> 'c resolved_sink \<Rightarrow> 'c resolved_sink" where
  "now_at i c s = s\<lparr>rs_callers := (rs_callers s)[i := c]\<rparr>"

text \<open>Returning gives the gate back.\<close>

definition returns :: "nat \<Rightarrow> wire_error + 'c \<Rightarrow> 'c resolved_sink \<Rightarrow> 'c resolved_sink" where
  "returns i x s = (now_at i (Got x) s)\<lparr>rs_gate := False\<rparr>"

fun binding_step :: "'c binding_event \<Rightarrow> 'c resolved_sink \<Rightarrow> 'c resolved_sink option" where
  "binding_step (Acquires i) s =
     (if at_caller i Outside s \<and> \<not> rs_gate s then Some ((now_at i Holding s)\<lparr>rs_gate := True\<rparr>) else None)"
| "binding_step (Cancelled i e) s = (if at_caller i Outside s then Some (now_at i (Got (Inl e)) s) else None)"
| "binding_step (Looks i ctx) s =
     (if at_caller i Holding s
      then Some (case ctx of
             Some e \<Rightarrow> returns i (Inl e) s
           | None \<Rightarrow> (case rs_bound s of Some c \<Rightarrow> returns i (Inr c) s | None \<Rightarrow> now_at i Finding s))
      else None)"
| "binding_step (Finds i found) s =
     (if at_caller i Finding s
      then Some (case found of
             Inl e \<Rightarrow> (returns i (Inl e) s)\<lparr>rs_searches := rs_searches s + 1\<rparr>
           | Inr c \<Rightarrow> (returns i (Inr c) s)\<lparr>rs_bound := Some c, rs_searches := rs_searches s + 1\<rparr>)
      else None)"

inductive binding_reached :: "'c resolved_sink \<Rightarrow> bool" where
  new: "binding_reached (newResolvedSink n)"
| event: "binding_reached s \<Longrightarrow> binding_step e s = Some s' \<Longrightarrow> binding_reached s'"

definition inside :: "'c caller \<Rightarrow> bool" where
  "inside c \<longleftrightarrow> c = Holding \<or> c = Finding"

definition binding_ok :: "'c resolved_sink \<Rightarrow> bool" where
  "binding_ok s \<longleftrightarrow>
     length (filter inside (rs_callers s)) = of_bool (rs_gate s)
     \<and> (Finding \<in> set (rs_callers s) \<longrightarrow> rs_bound s = None)
     \<and> (\<forall>c. Got (Inr c) \<in> set (rs_callers s) \<longrightarrow> rs_bound s = Some c)"

lemma binding_count:
  assumes "at_caller i c s"
  shows "length (filter inside ((rs_callers s)[i := c'])) + of_bool (inside c) = length (filter inside (rs_callers s)) + of_bool (inside c')"
    "c \<in> set (rs_callers s)" "set ((rs_callers s)[i := c']) \<subseteq> insert c' (set (rs_callers s))"
  using assms count_move [of i "rs_callers s" inside c'] set_update_subset_insert [of "rs_callers s" i c']
  by (auto simp: at_caller_def)

text \<open>Where somebody is inside, nobody else is.\<close>

lemma one_inside:
  assumes "binding_ok s" "at_caller i c s" "inside c"
  shows "rs_gate s" "inside d \<Longrightarrow> d \<notin> set ((rs_callers s)[i := Got x])"
proof -
  have n: "length (filter inside (rs_callers s)) \<le> 1" using assms(1) by (auto simp: binding_ok_def)
  have "0 < length (filter inside (rs_callers s))" using assms(3) binding_count(2) [OF assms(2)] by (auto simp: filter_empty_conv)
  then show "rs_gate s" using assms(1) by (cases "rs_gate s") (auto simp: binding_ok_def)
  have "\<not> inside (Got x)" by (simp add: inside_def)
  then have "length (filter inside ((rs_callers s)[i := Got x])) + 1 = length (filter inside (rs_callers s))"
    using binding_count(1) [OF assms(2), of "Got x"] assms(3) by simp
  then have "length (filter inside ((rs_callers s)[i := Got x])) = 0" using n by linarith
  then show "inside d \<Longrightarrow> d \<notin> set ((rs_callers s)[i := Got x])" by (auto simp: filter_empty_conv)
qed

lemma returns_ok:
  assumes ok: "binding_ok s" and c: "at_caller i c s" "inside c"
    and b: "case x of Inl e \<Rightarrow> b = rs_bound s \<or> rs_bound s = None | Inr v \<Rightarrow> b = Some v \<and> (rs_bound s = None \<or> rs_bound s = Some v)"
    and n: "rs_bound s = None \<longrightarrow> (case x of Inl e \<Rightarrow> b = None | Inr v \<Rightarrow> True)"
  shows "binding_ok ((returns i x s)\<lparr>rs_bound := b, rs_searches := k\<rparr>)"
proof -
  note o = one_inside [OF ok c]
  have "filter inside ((rs_callers s)[i := Got x]) = []"
    using o(2) by (auto simp: filter_empty_conv inside_def)
  moreover have "Got (Inr v) \<in> set ((rs_callers s)[i := Got x]) \<Longrightarrow> b = Some v" for v
    using binding_count(3) [OF c(1), of "Got x"] ok b n by (auto simp: binding_ok_def split: sum.splits)
  moreover have "Finding \<notin> set ((rs_callers s)[i := Got x])" by (rule o(2)) (simp add: inside_def)
  ultimately show ?thesis by (simp add: binding_ok_def returns_def now_at_def)
qed

lemma binding_ok_step:
  assumes ok: "binding_ok s" and st: "binding_step e s = Some s'"
  shows "binding_ok s'"
proof (cases e)
  case (Acquires i)
  then have c: "at_caller i Outside s" "\<not> rs_gate s" "s' = (now_at i Holding s)\<lparr>rs_gate := True\<rparr>" using st by (auto split: if_splits)
  then show ?thesis using ok binding_count(1,3) [OF c(1), of Holding] by (auto simp: binding_ok_def now_at_def inside_def)
next
  case (Cancelled i x)
  then have c: "at_caller i Outside s" "s' = now_at i (Got (Inl x)) s" using st by (auto split: if_splits)
  then show ?thesis using ok binding_count(1,3) [OF c(1), of "Got (Inl x)"] by (auto simp: binding_ok_def now_at_def inside_def)
next
  case (Looks i ctx)
  then have c: "at_caller i Holding s" using st by (auto split: if_splits)
  note r = returns_ok [OF ok c]
  consider x where "ctx = Some x" | v where "ctx = None" "rs_bound s = Some v" | "ctx = None" "rs_bound s = None"
    by (cases ctx; cases "rs_bound s") auto
  then show ?thesis
  proof cases
    case 1
    then have "s' = returns i (Inl x) s" using st Looks c by simp
    then show ?thesis using r [where x = "Inl x" and b = "rs_bound s" and k = "rs_searches s"] by (simp add: inside_def returns_def now_at_def)
  next
    case 2
    then have s': "s' = returns i (Inr v) s" using st Looks c by simp
    have "s' = (returns i (Inr v) s)\<lparr>rs_bound := rs_bound s, rs_searches := rs_searches s\<rparr>"
      unfolding s' by (simp add: returns_def now_at_def)
    moreover have "binding_ok \<dots>" by (rule r) (use 2 in \<open>simp_all add: inside_def\<close>)
    ultimately show ?thesis by (simp only:)
  next
    case 3
    then have "s' = now_at i Finding s" using st Looks c by simp
    then show ?thesis using ok binding_count(1,3) [OF c, of Finding] 3 by (auto simp: binding_ok_def now_at_def inside_def)
  qed
next
  case (Finds i found)
  then have c: "at_caller i Finding s" using st by (auto split: if_splits)
  then have n: "rs_bound s = None" using ok binding_count(2) [OF c] by (simp add: binding_ok_def)
  note r = returns_ok [OF ok c]
  show ?thesis
  proof (cases found)
    case (Inl x)
    then have s': "s' = (returns i (Inl x) s)\<lparr>rs_searches := rs_searches s + 1\<rparr>" using st Finds c by simp
    have "s' = (returns i (Inl x) s)\<lparr>rs_bound := rs_bound s, rs_searches := rs_searches s + 1\<rparr>"
      unfolding s' by (simp add: returns_def now_at_def)
    moreover have "binding_ok \<dots>" by (rule r) (use n in \<open>simp_all add: inside_def\<close>)
    ultimately show ?thesis by (simp only:)
  next
    case (Inr v)
    then have "s' = (returns i (Inr v) s)\<lparr>rs_bound := Some v, rs_searches := rs_searches s + 1\<rparr>" using st Finds c by simp
    then show ?thesis using r [where x = "Inr v" and b = "Some v" and k = "rs_searches s + 1"] n by (simp add: inside_def)
  qed
qed

lemma binding_reached_ok: "binding_reached s \<Longrightarrow> binding_ok s"
proof (induction rule: binding_reached.induct)
  case (new n)
  then show ?case by (auto simp: binding_ok_def newResolvedSink_def inside_def)
qed (rule binding_ok_step)

text \<open>
  C39: However callers, cancellations and resolutions interleave, at most one caller looks for a binding
  at a time and only while there is none, every caller that gets a client gets the same one, and it is the
  one retained: a record is never sent to a second service of the same handler.
\<close>

theorem one_binding_retained:
  assumes "binding_reached s"
  shows "length (filter inside (rs_callers s)) \<le> 1 \<and>
    (\<forall>c d. Got (Inr c) \<in> set (rs_callers s) \<and> Got (Inr d) \<in> set (rs_callers s) \<longrightarrow> c = d \<and> rs_bound s = Some c)
    \<and> (Finding \<in> set (rs_callers s) \<longrightarrow> rs_bound s = None)"
proof (intro conjI allI impI)
  have ok: "binding_ok s" by (rule binding_reached_ok [OF assms])
  then show "length (filter inside (rs_callers s)) \<le> 1" by (simp add: binding_ok_def)
  show "rs_bound s = None" if "Finding \<in> set (rs_callers s)" using that ok by (simp add: binding_ok_def)
  fix c d assume "Got (Inr c) \<in> set (rs_callers s) \<and> Got (Inr d) \<in> set (rs_callers s)"
  then have "rs_bound s = Some c" "rs_bound s = Some d" using ok by (simp_all add: binding_ok_def)
  then show "c = d" "rs_bound s = Some c" by simp_all
qed

subsection \<open>Writing, and finding the service early\<close>

text \<open>One caller on its own; \<open>entered\<close> and \<open>looked\<close> are the context at the gate and behind it.\<close>

definition binding ::
  "wire_error option \<Rightarrow> wire_error option \<Rightarrow> words \<Rightarrow> ('sel, 'r, 'c) facade \<Rightarrow> 'c option \<Rightarrow> 'c option \<times> (wire_error + 'c)" where
  "binding entered looked wd fa kept =
     (case entered of
        Some e \<Rightarrow> (kept, Inl e)
      | None \<Rightarrow>
     (case looked of
        Some e \<Rightarrow> (kept, Inl e)
      | None \<Rightarrow>
     (case kept of
        Some c \<Rightarrow> (kept, Inr c)
      | None \<Rightarrow> (case find_binding wd fa of Inl e \<Rightarrow> (None, Inl e) | Inr c \<Rightarrow> (Some c, Inr c)))))"

definition resolvedSink_WriteContext ::
  "('t \<Rightarrow> wire_error + string) \<Rightarrow> wire_error option \<Rightarrow> wire_error option \<Rightarrow> wire_error option \<Rightarrow> words
    \<Rightarrow> ('sel, 'r, 's \<Rightarrow> string \<Rightarrow> 's \<times> unit call) facade \<Rightarrow> 't log_record
    \<Rightarrow> ('s \<Rightarrow> string \<Rightarrow> 's \<times> unit call) option \<times> 's \<Rightarrow> (('s \<Rightarrow> string \<Rightarrow> 's \<times> unit call) option \<times> 's) \<times> unit call" where
  "resolvedSink_WriteContext T entered looked sending wd fa r st =
     (case binding entered looked wd fa (fst st) of
        (kept, Inl e) \<Rightarrow> ((kept, snd st), Fails e)
      | (kept, Inr c) \<Rightarrow> (case clientSink_WriteContext T c sending r (snd st) of (s', x) \<Rightarrow> ((kept, s'), x)))"

text \<open>\<^verbatim>\<open>Resolve\<close> and \<^verbatim>\<open>ResolveVerified\<close> bind now; the handler they return starts bound.\<close>

definition resolvedSinkFor :: "'sel \<Rightarrow> ('sel, 'r, 'c) facade \<Rightarrow> ('sel, 'r, 'c) facade" where
  "resolvedSinkFor selected fa = fa\<lparr>fa_select := Inr selected\<rparr>"

definition Resolve ::
  "wire_error option \<Rightarrow> wire_error option \<Rightarrow> words \<Rightarrow> ('sel, 'r, 'c) facade \<Rightarrow> wire_error + 'c" where
  "Resolve entered looked wd fa = snd (binding entered looked wd fa None)"

definition ResolveVerified ::
  "wire_error option \<Rightarrow> wire_error option \<Rightarrow> words \<Rightarrow> 'sel \<Rightarrow> ('sel, 'r, 'c) facade \<Rightarrow> wire_error + 'c" where
  "ResolveVerified entered looked wd selected fa = snd (binding entered looked wd (resolvedSinkFor selected fa) None)"

text \<open>\<^verbatim>\<open>Check\<close> on a handler; \<open>None\<close> is a handler over any other sink.\<close>

definition Check ::
  "wire_error option \<Rightarrow> wire_error option \<Rightarrow> words \<Rightarrow> ('sel, 'r, 'c) facade \<Rightarrow> 'c option option
    \<Rightarrow> 'c option option \<times> wire_error option" where
  "Check entered looked wd fa sink =
     (case sink of
        None \<Rightarrow> (None, None)
      | Some kept \<Rightarrow>
          (case binding entered looked wd fa kept of
             (b, Inl e) \<Rightarrow> (Some b, Some e)
           | (b, Inr c) \<Rightarrow> (Some b, None)))"

text \<open>
  A record is sent only to a service that selection, resolution and the trusted local binding all
  accepted, or that was bound before; any refusal on the way is the caller's error, touches no transport
  and leaves the sink as it was, so that a later record tries again.
\<close>

theorem delivers_only_when_bound:
  "case resolvedSink_WriteContext T entered looked sending wd fa r (kept, s) of ((kept', s'), x) \<Rightarrow>
     (case (if entered = None \<and> looked = None then (case kept of Some c \<Rightarrow> Inr c | None \<Rightarrow> find_binding wd fa)
            else Inl (case entered of Some e \<Rightarrow> e | None \<Rightarrow> the looked)) of
        Inl e \<Rightarrow> x = Fails e \<and> s' = s \<and> kept' = kept
      | Inr c \<Rightarrow> kept' = Some c \<and> clientSink_WriteContext T c sending r s = (s', x))"
  by (cases entered; cases looked; cases kept; cases "find_binding wd fa")
    (simp_all add: resolvedSink_WriteContext_def binding_def split: prod.splits)

subsection \<open>Witnesses\<close>

theorem handler_reaches_service_witness:
  "Handle ''h'' 7 (\<lambda>t :: string. t) (\<lambda>t. t = []) ''2026-05-01T10:00:00Z''
      (derive [In_group ''g''] (NewClientHandler Inr (SinkDispatcher_WriteFrame collect) None)) None
      \<lparr>sr_time = [], sr_level = 4, sr_message = ''hello'', sr_attrs = [Scalar ''k'' ''v'']\<rparr> []
    = recovered (collect [] (canonical (wire_of ''2026-05-01T10:00:00Z''
        (handled ''h'' 7 (\<lambda>t :: string. t) (\<lambda>t. t = []) ''2026-05-01T10:00:00Z''
          (derive [In_group ''g''] (NewClientHandler Inr (SinkDispatcher_WriteFrame collect) None))
          \<lparr>sr_time = [], sr_level = 4, sr_message = ''hello'', sr_attrs = [Scalar ''k'' ''v'']\<rparr>))))"
proof (rule handler_reaches_service)
  show "stamp_ok ''2026-05-01T10:00:00Z''" by code_simp
qed (simp_all add: handled_def NewClientHandler_def NewHandler_def WithGroup_def clone_def Let_def)

text \<open>Two callers, the second while the first finds the binding.\<close>

theorem one_binding_retained_witness:
  "\<exists>s :: nat resolved_sink. binding_reached s \<and> rs_callers s = [Got (Inr 5), Outside] \<and> rs_bound s = Some 5"
proof -
  let ?wd = "\<lparr>wd_resolved = ''resolved'', wd_local = ''local'', wd_transport = ''unix''\<rparr>"
  let ?fa = "\<lparr>fa_select = Inr (), fa_resolve = (\<lambda>_. Inr \<lparr>rr_status = ''resolved'', rr_scope = ''local'', rr_transport = ''unix'', rr_reference = ()\<rparr>),
    fa_bind = (\<lambda>_ _. Inr (5 :: nat))\<rparr>"
  have "find_binding ?wd ?fa = Inr 5" by (simp add: find_binding_def)
  then obtain s1 s2 s3 where s: "binding_step (Acquires 0 :: nat binding_event) (newResolvedSink 2) = Some s1"
    "binding_step (Looks 0 None :: nat binding_event) s1 = Some s2" "binding_step (Finds 0 (find_binding ?wd ?fa)) s2 = Some s3"
    "rs_callers s3 = [Got (Inr 5), Outside]"
    by (simp add: newResolvedSink_def at_caller_def now_at_def returns_def numeral_2_eq_2)
  have "binding_reached s3"
    using binding_reached.event [OF binding_reached.event [OF binding_reached.event [OF binding_reached.new s(1)] s(2)] s(3)] .
  moreover from this have "rs_bound s3 = Some 5" using one_binding_retained [of s3] s(4) by simp
  ultimately show ?thesis using s(4) by blast
qed

end
