(* ===== verification/Service.thy ===== *)
theory Service
  imports Client
begin

text \<open>
  \<^verbatim>\<open>go/service/service.go\<close>: what the machine's logging service does with one framed
  call.  The identity module answers who is calling (each fact at the required strength, or an
  error), again every time it is asked; the provider and the policy are parameters, and
  \<^verbatim>\<open>json.Unmarshal\<close> of a record is the parameter \<open>U\<close>, its error a text.
\<close>

subsection \<open>The caller\<close>

record user_fact =
  uf_kind :: string
  uf_sid :: string
  uf_uid :: i64
  uf_gid :: i64

record peer_facts =
  pf_path :: "wire_error + string"
  pf_user :: "wire_error + user_fact"
  pf_process :: "wire_error + i64"

text \<open>A policy allows (\<open>None\<close>), cannot decide, or refuses.\<close>

datatype policy_error = ErrHistoryPolicyUnavailable | PolicyRefusal

definition CodeForbidden :: string where "CodeForbidden = ''forbidden''"
definition CodePolicyUnavailable :: string where "CodePolicyUnavailable = ''policy_unavailable''"

text \<open>
  One call's receiver.  The number counts the checks of the call: the identity and the policy
  are asked anew, and the context may have run out in between.
\<close>

record receiver =
  rc_owner :: string
  rc_peer :: "nat \<Rightarrow> wire_error + peer_facts"
  rc_history :: "(nat \<Rightarrow> peer_facts \<Rightarrow> policy_error option) option"
  rc_expired :: "nat \<Rightarrow> bool"

text \<open>The provider: a sink that may also be a history reader and an observer.\<close>

record ('t, 'w) provider =
  out_write :: "('t log_record, 'w) sink"
  out_read :: "('w \<Rightarrow> string \<Rightarrow> i64 \<Rightarrow> i64 \<Rightarrow> 'w \<times> wire_page call) option"
  out_observe :: "('w \<Rightarrow> string \<Rightarrow> i64 \<Rightarrow> i64 \<Rightarrow> i64 \<Rightarrow> 'w \<times> wire_page call) option"

definition HistoryAvailable :: "('t, 'w) provider \<Rightarrow> bool" where
  "HistoryAvailable out \<longleftrightarrow> out_read out \<noteq> None"

definition ObservationAvailable :: "('t, 'w) provider \<Rightarrow> bool" where
  "ObservationAvailable out \<longleftrightarrow> out_observe out \<noteq> None"

definition principal :: "user_fact \<Rightarrow> string" where
  "principal who =
     (if uf_kind who = ''windows'' then uf_sid who
      else if uf_kind who = ''posix'' then decimal (uf_uid who) else [])"

definition authorizeHistory :: "receiver \<Rightarrow> nat \<Rightarrow> wire_error option" where
  "authorizeHistory r n =
     (case rc_peer r n of
        Inl e \<Rightarrow> Some (ServiceError ''caller_unavailable'' ''caller identity could not be rechecked'')
      | Inr peer \<Rightarrow>
          (case pf_user peer of
             Inl e \<Rightarrow> Some (ServiceError ''identity_required'' ''kernel user identity required'')
           | Inr who \<Rightarrow>
               (if principal who = [] \<or> principal who \<noteq> rc_owner r
                then Some (ServiceError ''wrong_user'' ''history belongs to another user'')
                else case rc_history r of
                       None \<Rightarrow> None
                     | Some history \<Rightarrow>
                         (let err = history n peer in
                          if err = None \<and> \<not> rc_expired r n then None
                          else if rc_expired r n \<or> err = Some ErrHistoryPolicyUnavailable
                          then Some (ServiceError CodePolicyUnavailable ''history policy decision unavailable'')
                          else Some (ServiceError CodeForbidden ''history reading not permitted'')))))"

subsection \<open>The three operations\<close>

definition DecodeRecord :: "(string \<Rightarrow> string + 't log_record) \<Rightarrow> string \<Rightarrow> string + 't log_record" where
  "DecodeRecord U line =
     (case U line of
        Inl e \<Rightarrow> Inl e
      | Inr r \<Rightarrow>
          (if lr_schema r \<noteq> SchemaVersion
           then Inl (''logging: record schema '' @ decimal (lr_schema r) @ '', this build understands '' @ decimal SchemaVersion)
           else Inr r))"

text \<open>What a provider's error is to the dispatcher.\<close>

definition sink_call :: "sink_error option \<Rightarrow> unit call" where
  "sink_call err =
     (case err of
        None \<Rightarrow> Done ()
      | Some (RuntimePanic x) \<Rightarrow> Panics (Panic x)
      | Some (EncodeError e) \<Rightarrow> Fails e
      | Some (SystemError x) \<Rightarrow> Fails (HandlerError x)
      | Some (ErrLineCap n) \<Rightarrow> Fails (HandlerError ''logging: line cap smaller than the smallest record'')
      | Some ErrQueueFull \<Rightarrow> Fails (HandlerError ''logging: asynchronous sink queue full; record dropped'')
      | Some ErrSinkClosed \<Rightarrow> Fails (HandlerError ''logging: asynchronous sink closed'')
      | Some ErrWriteTimeout \<Rightarrow> Fails (HandlerError ''logging: asynchronous sink delivery exceeded its write timeout'')
      | Some Canceled \<Rightarrow> Fails (HandlerError ''context canceled''))"

definition observed_peer :: "string \<Rightarrow> string \<Rightarrow> user_fact \<Rightarrow> i64 \<Rightarrow> attestation" where
  "observed_peer os path who pid =
     (let peer = no_attestation\<lparr>at_by := ''identity/'' @ os, at_verified := True, at_exe := path,
             at_uid := Unknown, at_gid := Unknown, at_pid := pid\<rparr>
      in if uf_kind who = ''windows'' then peer\<lparr>at_user := uf_sid who\<rparr>
         else peer\<lparr>at_uid := uf_uid who, at_gid := uf_gid who\<rparr>)"

definition receiver_Write ::
  "('t \<Rightarrow> wire_error + string) \<Rightarrow> (string \<Rightarrow> string \<Rightarrow> string) \<Rightarrow> (string \<Rightarrow> string + 't log_record) \<Rightarrow> string
    \<Rightarrow> receiver \<Rightarrow> ('t, 'w) provider \<Rightarrow> 'w \<Rightarrow> wire_record \<Rightarrow> 'w \<times> unit call" where
  "receiver_Write T H U os r out w value =
     (case rc_peer r 0 of
        Inl e \<Rightarrow> (w, Fails e)
      | Inr observed \<Rightarrow>
     (case pf_path observed of
        Inl e \<Rightarrow> (w, Fails e)
      | Inr path \<Rightarrow>
     (case pf_user observed of
        Inl e \<Rightarrow> (w, Fails e)
      | Inr user \<Rightarrow>
     (case pf_process observed of
        Inl e \<Rightarrow> (w, Fails e)
      | Inr pid \<Rightarrow>
     (case Encode value of
        Inl e \<Rightarrow> (w, Panics e)
      | Inr line \<Rightarrow>
     (case DecodeRecord U line of
        Inl e \<Rightarrow> (w, Fails (HandlerError (''logging service: '' @ e)))
      | Inr record \<Rightarrow>
          (let attested = Accept T H \<lparr>sv_keyid = [], sv_key = None\<rparr> record (observed_peer os path user pid) None
           in case out_write out attested w of (w', err) \<Rightarrow> (w', sink_call err))))))))"

definition receiver_Read ::
  "receiver \<Rightarrow> ('t, 'w) provider \<Rightarrow> 'w \<Rightarrow> string \<Rightarrow> i64 \<Rightarrow> i64 \<Rightarrow> 'w \<times> wire_page call" where
  "receiver_Read r out w cursor maxRecords maxBytes =
     (case authorizeHistory r 0 of
        Some e \<Rightarrow> (w, Fails e)
      | None \<Rightarrow>
          if bad_limits maxRecords maxBytes then (w, Done (refusal_page PageOutcomeInvalidRequest cursor))
          else case out_read out of
                 Some source \<Rightarrow> source w cursor maxRecords maxBytes
               | None \<Rightarrow> (w, Done (refusal_page PageOutcomeUnavailable cursor)))"

text \<open>Beside the provider's world stands the number of waiting observers of the service.\<close>

definition MaxObservers :: nat where "MaxObservers = 32"

definition receiver_Observe ::
  "receiver \<Rightarrow> ('t, nat \<times> 'w) provider \<Rightarrow> nat \<times> 'w \<Rightarrow> string \<Rightarrow> i64 \<Rightarrow> i64 \<Rightarrow> i64
    \<Rightarrow> (nat \<times> 'w) \<times> wire_page call" where
  "receiver_Observe r out st cursor maxRecords maxBytes waitMS =
     (case authorizeHistory r 0 of
        Some e \<Rightarrow> (st, Fails e)
      | None \<Rightarrow>
          let refusal = (\<lambda>outcome. (st, Done (refusal_page outcome cursor))) in
          if bad_limits maxRecords maxBytes \<or> sint waitMS < 0 \<or> sint waitMS > 30000
          then refusal PageOutcomeInvalidRequest
          else case out_observe out of
                 None \<Rightarrow> refusal PageOutcomeUnsupported
               | Some source \<Rightarrow>
                   if sint waitMS > 0 \<and> fst st \<ge> MaxObservers then refusal PageOutcomeUnavailable
                   else
                     let taken = (if sint waitMS > 0 then map_prod Suc id st else st);
                         (st', answer) = source taken cursor maxRecords maxBytes waitMS;
                         released = (if sint waitMS > 0 then map_prod (\<lambda>k. k - 1) id st' else st')
                     in (released,
                         case answer of
                           Done page \<Rightarrow> (case authorizeHistory r 1 of Some e \<Rightarrow> Fails e | None \<Rightarrow> Done page)
                         | _ \<Rightarrow> answer))"

subsection \<open>One connection\<close>

text \<open>
  The frame received, the reply sent if any, and the error reported to the operator; a panic of
  the provider takes the process down.
\<close>

datatype served = Served "string option" "wire_error option" | Crashed wire_error

text \<open>What \<^verbatim>\<open>OnError\<close> is told of a call, unless the host is closing.\<close>

definition reported :: "bool \<Rightarrow> served \<Rightarrow> wire_error list" where
  "reported closing x = (case x of Served reply (Some e) \<Rightarrow> (if closing then [] else [e]) | _ \<Rightarrow> [])"

definition exchanged :: "(string \<Rightarrow> wire_error option) \<Rightarrow> 's \<times> string call \<Rightarrow> 's \<times> served" where
  "exchanged reply_to r =
     (case r of
        (s, Done reply) \<Rightarrow> (s, Served (Some reply) (reply_to reply))
      | (s, Fails e) \<Rightarrow> (s, Served None (Some e))
      | (s, Panics e) \<Rightarrow> (s, Crashed e))"

definition serve_frame ::
  "('t \<Rightarrow> wire_error + string) \<Rightarrow> (string \<Rightarrow> string \<Rightarrow> string) \<Rightarrow> (string \<Rightarrow> string + 't log_record) \<Rightarrow> string
    \<Rightarrow> (string \<Rightarrow> wire_error option) \<Rightarrow> receiver \<Rightarrow> ('t, nat \<times> 'w) provider \<Rightarrow> nat \<times> 'w \<Rightarrow> string
    \<Rightarrow> (nat \<times> 'w) \<times> served" where
  "serve_frame T H U os reply_to r out st request =
     (case ServiceName request of
        Inl e \<Rightarrow> (st, Served None (Some e))
      | Inr name \<Rightarrow>
          (if name = reader_service then
             exchanged reply_to (HistoryReaderDispatcher_ExchangeFrame (receiver_Read r out) st request)
           else if name = observer_service then
             exchanged reply_to (HistoryObserverDispatcher_ExchangeFrame (receiver_Observe r out) st request)
           else
             (case SinkDispatcher_WriteFrame (receiver_Write T H U os r out) st request of
                (st', Done _) \<Rightarrow> (st', Served None None)
              | (st', Fails e) \<Rightarrow> (st', Served None (Some e))
              | (st', Panics e) \<Rightarrow> (st', Crashed e))))"


subsection \<open>A caller who may not read\<close>

lemma service_names [simp]:
  "observer_service \<noteq> reader_service" "reader_service \<noteq> observer_service"
  "sink_service \<noteq> reader_service" "sink_service \<noteq> observer_service"
  by (simp_all add: sink_service_def reader_service_def observer_service_def)

lemma exchanged_answer:
  "exchanged reply_to (answer (st, x)) =
    (st, case x of Inl e \<Rightarrow> Served None (Some e) | Inr reply \<Rightarrow> Served (Some reply) (reply_to reply))"
  by (simp add: exchanged_def answer_def split: sum.split)

lemma ServiceNameE:
  assumes "ServiceName request = Inr name"
  obtains v where "servicePayload request = Inr v" "sf_service v = name"
  using assms by (auto simp: ServiceName_def split: sum.splits)

lemma refused_reader:
  assumes "authorizeHistory r 0 = Some e" "servicePayload request = Inr v" "sf_service v = reader_service"
  shows "HistoryReaderDispatcher_ExchangeFrame (receiver_Read r out) st request =
    answer (st, serviceReply v (Inl
      (if sf_method v = ''Read'' then
         (case read_whole decodeOAHistoryReaderReadArguments 1 (sf_arguments v) of Inl x \<Rightarrow> x | Inr _ \<Rightarrow> e)
       else DispatchError ''unknown_method'')))"
  using assms
  by (cases "read_whole decodeOAHistoryReaderReadArguments 1 (sf_arguments v)")
    (simp_all add: HistoryReaderDispatcher_ExchangeFrame_def invokeRead_def receiver_Read_def)

lemma refused_observer:
  assumes "authorizeHistory r 0 = Some e" "servicePayload request = Inr v" "sf_service v = observer_service"
  shows "HistoryObserverDispatcher_ExchangeFrame (receiver_Observe r out) st request =
    answer (st, serviceReply v (Inl
      (if sf_method v = ''Observe'' then
         (case read_whole decodeOAHistoryObserverObserveArguments 1 (sf_arguments v) of Inl x \<Rightarrow> x | Inr _ \<Rightarrow> e)
       else DispatchError ''unknown_method'')))"
  using assms
  by (cases "read_whole decodeOAHistoryObserverObserveArguments 1 (sf_arguments v)")
    (simp_all add: HistoryObserverDispatcher_ExchangeFrame_def invokeObserve_def receiver_Observe_def)

text \<open>
  C14: A caller who fails the check learns nothing of the history: whatever frame it sends to the
  reader or the observer, the provider is not touched and the whole answer is the same whatever the
  provider holds or is.
\<close>

theorem unauthorised_learns_nothing:
  assumes "authorizeHistory r 0 = Some e"
    and "ServiceName request = Inr reader_service \<or> ServiceName request = Inr observer_service"
  shows "\<exists>x. \<forall>out st. serve_frame T H U os reply_to r out st request = (st, x)"
  using assms(2)
proof
  assume name: "ServiceName request = Inr reader_service"
  obtain v where "servicePayload request = Inr v" "sf_service v = reader_service"
    by (rule ServiceNameE [OF name])
  note v = refused_reader [OF assms(1) this]
  show ?thesis
    unfolding serve_frame_def name v exchanged_answer by simp
next
  assume name: "ServiceName request = Inr observer_service"
  obtain v where "servicePayload request = Inr v" "sf_service v = observer_service"
    by (rule ServiceNameE [OF name])
  note v = refused_observer [OF assms(1) this]
  show ?thesis
    unfolding serve_frame_def name v exchanged_answer by simp
qed

text \<open>Nothing is concluded from an observation's answer unless the caller passed both checks.\<close>

lemma receiver_Observe_Done:
  assumes "receiver_Observe r out st c n b w = (st', Done page)"
  obtains (refused) outcome where "st' = st" "page = refusal_page outcome c"
      "outcome \<in> {PageOutcomeInvalidRequest, PageOutcomeUnsupported, PageOutcomeUnavailable}"
  | (observed) source st1 where "out_observe out = Some source" "authorizeHistory r 0 = None" "authorizeHistory r 1 = None"
      "\<not> bad_limits n b" "0 \<le> sint w" "sint w \<le> 30000"
      "source (if sint w > 0 then map_prod Suc id st else st) c n b w = (st1, Done page)"
      "st' = (if sint w > 0 then map_prod (\<lambda>k. k - 1) id st1 else st1)"
      "sint w > 0 \<longrightarrow> fst st < MaxObservers"
proof -
  have a: "authorizeHistory r 0 = None" using assms by (auto simp: receiver_Observe_def split: option.splits)
  note d = assms [unfolded receiver_Observe_def Let_def a option.case]
  show thesis
  proof (cases "bad_limits n b \<or> sint w < 0 \<or> sint w > 30000")
    case True
    then show thesis using d refused [of PageOutcomeInvalidRequest] by simp
  next
    case False
    show thesis
    proof (cases "out_observe out")
      case None
      then show thesis using d False refused [of PageOutcomeUnsupported] by simp
    next
      case source: (Some source)
      show thesis
      proof (cases "sint w > 0 \<and> fst st \<ge> MaxObservers")
        case True
        then show thesis using d False source refused [of PageOutcomeUnavailable] by simp
      next
        case room: False
        obtain st1 x where x: "source (if sint w > 0 then map_prod Suc id st else st) c n b w = (st1, x)" by fastforce
        have "x = Done page \<and> authorizeHistory r 1 = None
            \<and> st' = (if sint w > 0 then map_prod (\<lambda>k. k - 1) id st1 else st1)"
          using d x by (simp only: source False room if_False option.case) (auto split: call.splits option.splits)
        then show thesis using observed [OF source a] x False room by (simp add: linorder_not_le)
      qed
    qed
  qed
qed

text \<open>Whatever an observation answers, the provider was called at most once, and the place is free again.\<close>

lemma receiver_Observe_place:
  assumes "receiver_Observe r out st c n b w = (st', x)"
  shows "st' = st \<or> authorizeHistory r 0 = None \<and> (\<exists>source st1 y. out_observe out = Some source
    \<and> source (if sint w > 0 then map_prod Suc id st else st) c n b w = (st1, y)
    \<and> st' = (if sint w > 0 then map_prod (\<lambda>k. k - 1) id st1 else st1)
    \<and> (sint w > 0 \<longrightarrow> fst st < MaxObservers))"
proof (cases "authorizeHistory r 0")
  case None
  note d = assms [unfolded receiver_Observe_def Let_def None option.case]
  show ?thesis
  proof (cases "out_observe out")
    case (Some source)
    show ?thesis
    proof (cases "(bad_limits n b \<or> sint w < 0 \<or> sint w > 30000) \<or> sint w > 0 \<and> fst st \<ge> MaxObservers")
      case True
      then have "st' = st" using d Some by (auto split: if_splits)
      then show ?thesis by simp
    next
      case False
      obtain st1 y where y: "source (if sint w > 0 then map_prod Suc id st else st) c n b w = (st1, y)" by fastforce
      then have "st' = (if sint w > 0 then map_prod (\<lambda>k. k - 1) id st1 else st1)"
        using d False by (simp only: Some option.case if_False) (auto split: if_splits)
      then show ?thesis using y None Some False
        by (intro disjI2 conjI exI [of _ source] exI [of _ st1] exI [of _ y]) (auto simp: linorder_not_le)
    qed
  qed (use d in \<open>auto split: if_splits\<close>)
qed (use assms in \<open>simp add: receiver_Observe_def\<close>)

text \<open>
  C16: An observation answers with anything but a refusal that keeps the caller's cursor only if the
  caller passed the check before the wait and again after it.  However it ends, with a page, a
  refusal, a provider's error or panic, or because the second check fails: it called the provider at
  most once, only after the first check, and as one of at most 32 waiting observers; and the place it
  took among them is given back, so that a provider which leaves the places alone finds them as they
  were.
\<close>

theorem observe_checks_twice:
  assumes "receiver_Observe r out st c n b w = (st', x)"
  shows "(\<forall>page. x = Done page \<and> (pg_records page \<noteq> [] \<or> pg_next page \<noteq> c \<or> pg_at_end page) \<longrightarrow>
      authorizeHistory r 0 = None \<and> authorizeHistory r 1 = None
      \<and> (\<exists>source st1. out_observe out = Some source
          \<and> source (if sint w > 0 then map_prod Suc id st else st) c n b w = (st1, Done page)
          \<and> st' = (if sint w > 0 then map_prod (\<lambda>k. k - 1) id st1 else st1)))
    \<and> (st' = st \<or> authorizeHistory r 0 = None \<and> (\<exists>source st1 y. out_observe out = Some source
          \<and> source (if sint w > 0 then map_prod Suc id st else st) c n b w = (st1, y)
          \<and> st' = (if sint w > 0 then map_prod (\<lambda>k. k - 1) id st1 else st1)
          \<and> (sint w > 0 \<longrightarrow> fst st < 32)))
    \<and> ((\<forall>source s1. out_observe out = Some source \<longrightarrow> fst (fst (source s1 c n b w)) = fst s1) \<longrightarrow> fst st' = fst st)"
proof (intro conjI allI impI)
  note place = receiver_Observe_place [OF assms, unfolded MaxObservers_def]
  show "st' = st \<or> authorizeHistory r 0 = None \<and> (\<exists>source st1 y. out_observe out = Some source
      \<and> source (if sint w > 0 then map_prod Suc id st else st) c n b w = (st1, y)
      \<and> st' = (if sint w > 0 then map_prod (\<lambda>k. k - 1) id st1 else st1)
      \<and> (sint w > 0 \<longrightarrow> fst st < 32))" by (rule place)
  assume keeps: "\<forall>source s1. out_observe out = Some source \<longrightarrow> fst (fst (source s1 c n b w)) = fst s1"
  from place show "fst st' = fst st"
  proof (elim disjE conjE exE)
    fix source st1 y
    assume s: "out_observe out = Some source" "source (if sint w > 0 then map_prod Suc id st else st) c n b w = (st1, y)"
      "st' = (if sint w > 0 then map_prod (\<lambda>k. k - 1) id st1 else st1)"
    then have "fst st1 = fst (if sint w > 0 then map_prod Suc id st else st)"
      using keeps [rule_format, OF s(1), of "if sint w > 0 then map_prod Suc id st else st"] by simp
    then show ?thesis using s(3) by simp
  qed simp
next
  fix page assume p: "x = Done page \<and> (pg_records page \<noteq> [] \<or> pg_next page \<noteq> c \<or> pg_at_end page)"
  then have "receiver_Observe r out st c n b w = (st', Done page)" using assms by simp
  then show "authorizeHistory r 0 = None" "authorizeHistory r 1 = None"
    "\<exists>source st1. out_observe out = Some source
      \<and> source (if sint w > 0 then map_prod Suc id st else st) c n b w = (st1, Done page)
      \<and> st' = (if sint w > 0 then map_prod (\<lambda>k. k - 1) id st1 else st1)"
    by (cases rule: receiver_Observe_Done; use p in \<open>auto simp: refusal_page_def\<close>)+
qed

lemma Accept_service:
  "let record = Accept T H \<lparr>sv_keyid = [], sv_key = None\<rparr> sub peer None in
   lr_identity record = claimed_chain sub @ [peer\<lparr>at_hop := of_nat (length (claimed_chain sub))\<rparr>]
   \<and> lr_msg record = lr_msg sub \<and> lr_level record = lr_level sub \<and> lr_time record = lr_time sub"
  by (simp add: Accept_def Let_def claimed_chain_def)

lemma receiver_Write_cases:
  assumes "writable value"
  obtains (refused) e where "receiver_Write T H U os r out st value = (st, Fails e)"
  | (stored) facts path who pid line sub where "rc_peer r 0 = Inr facts" "pf_path facts = Inr path"
      "pf_user facts = Inr who" "pf_process facts = Inr pid" "DecodeRecord U line = Inr sub"
      "receiver_Write T H U os r out st value =
        (case out_write out (Accept T H \<lparr>sv_keyid = [], sv_key = None\<rparr> sub (observed_peer os path who pid) None) st of
           (st', err) \<Rightarrow> (st', sink_call err))"
proof -
  obtain line where line: "Encode value = Inr line" using assms by (auto simp: Encode_def encRecord_text)
  consider e where "rc_peer r 0 = Inl e"
    | facts e where "rc_peer r 0 = Inr facts" "pf_path facts = Inl e"
    | facts path e where "rc_peer r 0 = Inr facts" "pf_path facts = Inr path" "pf_user facts = Inl e"
    | facts path who e where "rc_peer r 0 = Inr facts" "pf_path facts = Inr path" "pf_user facts = Inr who"
        "pf_process facts = Inl e"
    | facts path who pid e where "rc_peer r 0 = Inr facts" "pf_path facts = Inr path" "pf_user facts = Inr who"
        "pf_process facts = Inr pid" "DecodeRecord U line = Inl e"
    | facts path who pid sub where "rc_peer r 0 = Inr facts" "pf_path facts = Inr path" "pf_user facts = Inr who"
        "pf_process facts = Inr pid" "DecodeRecord U line = Inr sub"
    by (metis sum.exhaust)
  then show thesis
  proof cases
    case (6 facts path who pid sub)
    then show thesis using stored [of facts path who pid line sub] line by (simp add: receiver_Write_def Let_def)
  qed (use refused line in \<open>simp_all add: receiver_Write_def\<close>)
qed

text \<open>
  C15: Whatever frame reaches the sink's side of the service, and whatever it claims, the provider is
  given at most one record: it is the submitted chain (or the explicit hop of a writer without a
  claim) followed by exactly one hop, which says what the platform said of this caller and stands at
  its own place; otherwise the provider is untouched and the operator is told why.
\<close>

theorem service_stamps_its_caller:
  assumes "ServiceName request \<noteq> Inr reader_service" "ServiceName request \<noteq> Inr observer_service"
  shows "(\<exists>e. serve_frame T H U os reply_to r out st request = (st, Served None (Some e)))
    \<or> (\<exists>facts path who pid line sub record.
        rc_peer r 0 = Inr facts \<and> pf_path facts = Inr path \<and> pf_user facts = Inr who \<and> pf_process facts = Inr pid
        \<and> DecodeRecord U line = Inr sub
        \<and> lr_identity record = claimed_chain sub @
            [(observed_peer os path who pid)\<lparr>at_hop := of_nat (length (claimed_chain sub))\<rparr>]
        \<and> lr_msg record = lr_msg sub \<and> lr_level record = lr_level sub \<and> lr_time record = lr_time sub
        \<and> fst (serve_frame T H U os reply_to r out st request) = fst (out_write out record st))"
proof (cases "ServiceName request")
  case (Inr name)
  let ?w = "receiver_Write T H U os r out"
  have s: "serve_frame T H U os reply_to r out st request =
      (case SinkDispatcher_WriteFrame ?w st request of
         (st', Done _) \<Rightarrow> (st', Served None None)
       | (st', Fails e) \<Rightarrow> (st', Served None (Some e))
       | (st', Panics e) \<Rightarrow> (st', Crashed e))"
    using Inr assms by (simp add: serve_frame_def)
  from dispatch_guarded [of request ?w st] show ?thesis
  proof
    assume "\<exists>e. SinkDispatcher_WriteFrame ?w st request = (st, Fails e)"
    then show ?thesis using s by auto
  next
    assume "\<exists>v value. servicePayload request = Inr v \<and> sf_version v = 1 \<and> sf_service v = ''abstraction.logging/sink@1''
      \<and> sf_method v = ''Write'' \<and> writable value \<and> utf8_record value \<and> SinkDispatcher_WriteFrame ?w st request = ?w st value"
    then obtain v where v: "writable v" "SinkDispatcher_WriteFrame ?w st request = ?w st v" by blast
    from v(1) show ?thesis
    proof (cases rule: receiver_Write_cases [where T = T and H = H and U = U and os = os and r = r and out = out and st = st])
      case (refused e)
      then show ?thesis using s v(2) by simp
    next
      case (stored facts path who pid line sub)
      let ?rec = "Accept T H \<lparr>sv_keyid = [], sv_key = None\<rparr> sub (observed_peer os path who pid) None"
      have "fst (serve_frame T H U os reply_to r out st request) = fst (out_write out ?rec st)"
        using s v(2) stored(6) by (auto split: call.splits prod.splits)
      then show ?thesis
        using stored(1-5) Accept_service [of T H sub "observed_peer os path who pid", unfolded Let_def]
        by (intro disjI2 exI [of _ facts] exI [of _ path] exI [of _ who] exI [of _ pid] exI [of _ line]
            exI [of _ sub] exI [of _ ?rec]) (simp only: simp_thms)
    qed
  qed
qed (simp add: serve_frame_def)

subsection \<open>Witnesses\<close>

text \<open>A caller, in a service of one or another owner.\<close>

definition ann :: peer_facts where
  "ann = \<lparr>pf_path = Inr ''/usr/bin/app'',
     pf_user = Inr \<lparr>uf_kind = ''posix'', uf_sid = [], uf_uid = 1000, uf_gid = 1000\<rparr>, pf_process = Inr 42\<rparr>"

definition anns_call :: "string \<Rightarrow> receiver" where
  "anns_call owner = \<lparr>rc_owner = owner, rc_peer = (\<lambda>n. Inr ann), rc_history = None, rc_expired = (\<lambda>n. False)\<rparr>"

lemma ann_is_owner: "authorizeHistory (anns_call ''1000'') n = None"
proof -
  have "decimal 1000 = ''1000''" by code_simp
  then show ?thesis by (simp add: authorizeHistory_def anns_call_def ann_def principal_def)
qed

lemma ann_is_not_root:
  "authorizeHistory (anns_call ''0'') n = Some (ServiceError ''wrong_user'' ''history belongs to another user'')"
proof -
  have "decimal 1000 = ''1000''" by code_simp
  then show ?thesis by (simp add: authorizeHistory_def anns_call_def ann_def principal_def)
qed

definition read_request :: string where
  "read_request = encOAServiceFrame []
     \<lparr>sf_version = 1, sf_service = reader_service, sf_method = ''Read'',
      sf_arguments = read_args_text 1 \<lparr>ra_cursor = [], ra_max_records = 10, ra_max_bytes = 4096\<rparr>\<rparr> 0"

definition write_request :: string where
  "write_request = encOAServiceFrame []
     \<lparr>sf_version = 1, sf_service = sink_service, sf_method = ''Write'',
      sf_arguments = sink_args_text 1 \<lparr>sa_record = sample_record\<rparr>\<rparr> 0"

lemma request_names: "ServiceName read_request = Inr reader_service" "ServiceName write_request = Inr sink_service"
proof -
  let ?v = "\<lparr>sf_version = 1, sf_service = reader_service, sf_method = ''Read'',
      sf_arguments = read_args_text 1 \<lparr>ra_cursor = [], ra_max_records = 10, ra_max_bytes = 4096\<rparr>\<rparr>"
  have "validUTF8 []" by (simp add: validUTF8.simps)
  then have "servicePayload (encOAServiceFrame [] ?v 0) = Inr ?v"
    using servicePayload_text [of ?v 1] skips_read_args [of "\<lparr>ra_cursor = [], ra_max_records = 10, ra_max_bytes = 4096\<rparr>" 1]
    by simp
  then show "ServiceName read_request = Inr reader_service" by (simp add: ServiceName_def read_request_def)
  let ?w = "\<lparr>sf_version = 1, sf_service = sink_service, sf_method = ''Write'',
      sf_arguments = sink_args_text 1 \<lparr>sa_record = sample_record\<rparr>\<rparr>"
  have "servicePayload (encOAServiceFrame [] ?w 0) = Inr ?w"
    using servicePayload_text [of ?w 4] skips_sink_args [of "\<lparr>sa_record = sample_record\<rparr>" 1] sample_record_ok by simp
  then show "ServiceName write_request = Inr sink_service" by (simp add: ServiceName_def write_request_def)
qed

theorem unauthorised_learns_nothing_witness:
  "\<exists>x. \<forall>(out :: (string, nat \<times> string list) provider) st.
    serve_frame Inr (\<lambda>k b. b) (\<lambda>l. Inl ''bad'') ''linux'' (\<lambda>x. None) (anns_call ''0'') out st read_request = (st, x)"
  by (rule unauthorised_learns_nothing [OF ann_is_not_root]) (simp add: request_names)

definition busy :: "(string, nat \<times> string list) provider" where
  "busy = \<lparr>out_write = (\<lambda>r (k, w). ((k, w @ [lr_msg r]), None)), out_read = None,
     out_observe = Some (\<lambda>(k, w) c n b ms. ((k, w @ [c]), Done sample_page))\<rparr>"

text \<open>A caller whose second check fails after a wait: no page, and the place is free.\<close>

definition anns_revoked :: receiver where
  "anns_revoked = (anns_call ''1000'')\<lparr>rc_peer := (\<lambda>n. if n = 0 then Inr ann else Inl (HandlerError ''gone''))\<rparr>"

theorem observe_checks_twice_witness:
  "authorizeHistory (anns_call ''1000'') 1 = None
    \<and> receiver_Observe (anns_call ''1000'') busy (3, []) ''x'' 10 4096 500 = ((3, [''x'']), Done sample_page)
    \<and> (\<exists>st' e. receiver_Observe anns_revoked busy (3, []) ''x'' 10 4096 500 = (st', Fails e) \<and> fst st' = 3)"
proof -
  have d: "receiver_Observe (anns_call ''1000'') busy (3, []) ''x'' 10 4096 500 = ((3, [''x'']), Done sample_page)"
    by (simp add: receiver_Observe_def ann_is_owner busy_def bad_limits_def MaxObservers_def)
  have "pg_records sample_page \<noteq> [] \<or> pg_next sample_page \<noteq> ''x'' \<or> pg_at_end sample_page"
    by (simp add: sample_page_def)
  then have "authorizeHistory (anns_call ''1000'') 1 = None" using observe_checks_twice [OF d] by blast
  moreover have k: "\<forall>source s1. out_observe busy = Some source \<longrightarrow> fst (fst (source s1 ''x'' 10 4096 500)) = fst s1"
    by (simp add: busy_def)
  have a: "authorizeHistory anns_revoked 0 = None"
  proof -
    have "decimal 1000 = ''1000''" by code_simp
    then show ?thesis by (simp add: authorizeHistory_def anns_revoked_def anns_call_def ann_def principal_def)
  qed
  have b: "\<exists>e. authorizeHistory anns_revoked 1 = Some e" by (simp add: anns_revoked_def authorizeHistory_def)
  obtain st' e where f: "receiver_Observe anns_revoked busy (3, []) ''x'' 10 4096 500 = (st', Fails e)"
    using b by (auto simp: receiver_Observe_def a busy_def bad_limits_def MaxObservers_def)
  have "fst st' = 3" using observe_checks_twice [OF f] k by simp
  then show ?thesis using d f calculation by blast
qed

definition submitted :: "string log_record" where
  "submitted = \<lparr>lr_schema = 1, lr_time = ''2024-03-01T00:00:00.000000Z'', lr_level = 0, lr_msg = ''m'',
     lr_identity = [], lr_job = [], lr_attrs = []\<rparr>"

theorem service_stamps_its_caller_witness:
  "(\<exists>e. serve_frame Inr (\<lambda>k b. b) (\<lambda>l. Inr submitted) ''linux'' (\<lambda>x. None) (anns_call ''1000'') busy (0, [])
        write_request = ((0, []), Served None (Some e)))
    \<or> (\<exists>facts path who pid line sub record.
        rc_peer (anns_call ''1000'') 0 = Inr facts \<and> pf_path facts = Inr path \<and> pf_user facts = Inr who \<and> pf_process facts = Inr pid
        \<and> DecodeRecord (\<lambda>l. Inr submitted) line = Inr sub
        \<and> lr_identity record = claimed_chain sub @
            [(observed_peer ''linux'' path who pid)\<lparr>at_hop := of_nat (length (claimed_chain sub))\<rparr>]
        \<and> lr_msg record = lr_msg sub \<and> lr_level record = lr_level sub \<and> lr_time record = lr_time sub
        \<and> fst (serve_frame Inr (\<lambda>k b. b) (\<lambda>l. Inr submitted) ''linux'' (\<lambda>x. None) (anns_call ''1000'') busy (0, [])
            write_request) = fst (out_write busy record (0, [])))"
  by (rule service_stamps_its_caller) (simp_all add: request_names)

end
