(* ===== verification/Json_Read.thy ===== *)
theory Json_Read
  imports Json_Line Service
begin

text \<open>
  \<^verbatim>\<open>DecodeRecord\<close> of \<^verbatim>\<open>go/record.go\<close> on what the standard library's
  \<^verbatim>\<open>json.Unmarshal\<close> does with the record's types: one pass accepts or refuses the text (the
  grammar, ten thousand levels at most), a second stores what it finds into the struct.  Keys
  match a field exactly or under case folding, unknown keys are skipped, \<^verbatim>\<open>null\<close> leaves a
  scalar as it is, a repeated key is stored again, and a repeated list stores into the
  elements an earlier one left in the slice's memory.  Every mismatch is an error in the end,
  so the model stops at it; how the error reads is the parameter \<open>E\<close>.  The instant's own
  \<^verbatim>\<open>UnmarshalJSON\<close> belongs to another module: \<open>TU\<close> gets the raw bytes and the instant
  that is there.
\<close>

subsection \<open>The grammar\<close>

text \<open>
  A value with what storing it needs: numbers as spelled, strings as they read, members in
  order with their raw bytes.
\<close>

datatype json =
    JNull
  | JBool bool
  | JNumber string
  | JString string
  | JArray "json list"
  | JObject "(string \<times> string \<times> json) list"

definition json_ws :: "string \<Rightarrow> string" where
  "json_ws s = dropWhile is_ws s"

text \<open>
  After the opening quote: the string and what follows the closing one.  A surrogate that is
  not the first of a pair, and a byte that is no UTF-8, become U+FFFD.
\<close>

definition simple_escape :: "char \<Rightarrow> char option" where
  "simple_escape e =
     (if e \<in> {QUOTE, BSLASH, CHR ''/''} then Some e
      else if e = CHR ''b'' then Some (CHR 0x08)
      else if e = CHR ''f'' then Some (CHR 0x0C)
      else if e = CHR ''n'' then Some LF
      else if e = CHR ''r'' then Some (CHR 0x0D)
      else if e = CHR ''t'' then Some (CHR 0x09)
      else None)"

definition unicode_escape :: "string \<Rightarrow> nat option" where
  "unicode_escape s = (if length s < 4 then None else hex4_loop (take 4 s) 0)"

definition low_surrogate :: "string \<Rightarrow> nat option" where
  "low_surrogate s =
     (case s of
        a # b # t \<Rightarrow>
          (if a = BSLASH \<and> b = CHR ''u'' then
             (case unicode_escape t of
                None \<Rightarrow> None
              | Some v \<Rightarrow> (if 0xDC00 \<le> v \<and> v \<le> 0xDFFF then Some v else None))
           else None)
      | _ \<Rightarrow> None)"

function json_str :: "string \<Rightarrow> (string \<times> string) option" where
  "json_str [] = None"
| "json_str (c # cs) =
     (if c = QUOTE then Some ([], cs)
      else if bv c < 0x20 then None
      else if c = BSLASH then
        (case cs of
           [] \<Rightarrow> None
         | e # t \<Rightarrow>
             (if e = CHR ''u'' then
                (case unicode_escape t of
                   None \<Rightarrow> None
                 | Some v \<Rightarrow>
                     (if 0xD800 \<le> v \<and> v \<le> 0xDFFF then
                        (case (if v < 0xDC00 then low_surrogate (drop 4 t) else None) of
                           None \<Rightarrow> map_option (apfst ((@) (appendRune [] 0xFFFD))) (json_str (drop 4 t))
                         | Some lo \<Rightarrow>
                             map_option (apfst ((@) (appendRune [] (0x10000 + (v - 0xD800) * 0x400 + (lo - 0xDC00)))))
                               (json_str (drop 10 t)))
                      else map_option (apfst ((@) (appendRune [] v))) (json_str (drop 4 t))))
              else case simple_escape e of
                     None \<Rightarrow> None
                   | Some x \<Rightarrow> map_option (apfst ((#) x)) (json_str t)))
      else if bv c < 0x80 then map_option (apfst ((#) c)) (json_str cs)
      else case decode_rune (c # cs) of
             None \<Rightarrow> map_option (apfst ((@) (appendRune [] 0xFFFD))) (json_str cs)
           | Some (cp, n) \<Rightarrow> map_option (apfst ((@) (take n (c # cs)))) (json_str (drop (n - 1) cs)))"
  by pat_completeness auto
termination
  by (relation "measure length") auto

declare json_str.simps [simp del]

text \<open>A number: what is left after each of its parts.\<close>

definition number_int :: "string \<Rightarrow> string option" where
  "number_int s =
     (case s of
        [] \<Rightarrow> None
      | c # t \<Rightarrow>
          (if c = CHR ''0'' then Some t
           else if is_digit c then Some (dropWhile is_digit t)
           else None))"

definition number_digits :: "string \<Rightarrow> string option" where
  "number_digits s =
     (case s of
        [] \<Rightarrow> None
      | c # t \<Rightarrow> (if is_digit c then Some (dropWhile is_digit t) else None))"

definition number_frac :: "string \<Rightarrow> string option" where
  "number_frac s =
     (case s of c # t \<Rightarrow> (if c = CHR ''.'' then number_digits t else Some s) | [] \<Rightarrow> Some [])"

definition number_exp :: "string \<Rightarrow> string option" where
  "number_exp s =
     (case s of
        c # t \<Rightarrow>
          (if c = CHR ''e'' \<or> c = CHR ''E'' then
             (case t of
                d # u \<Rightarrow> (if d = CHR ''+'' \<or> d = CHR ''-'' then number_digits u else number_digits t)
              | [] \<Rightarrow> None)
           else Some s)
      | [] \<Rightarrow> Some [])"

definition number_end :: "string \<Rightarrow> string option" where
  "number_end s =
     (case number_int (case s of c # t \<Rightarrow> (if c = CHR ''-'' then t else s) | [] \<Rightarrow> []) of
        None \<Rightarrow> None
      | Some s1 \<Rightarrow>
          (case number_frac s1 of
             None \<Rightarrow> None
           | Some s2 \<Rightarrow> number_exp s2))"

definition json_number :: "string \<Rightarrow> (json \<times> string) option" where
  "json_number s =
     (case number_end s of
        None \<Rightarrow> None
      | Some t \<Rightarrow> Some (JNumber (take (length s - length t) s), t))"

definition json_word :: "string \<Rightarrow> json \<Rightarrow> string \<Rightarrow> (json \<times> string) option" where
  "json_word w v s = (if take (length w) s = w then Some (v, drop (length w) s) else None)"

definition json_scalar :: "string \<Rightarrow> (json \<times> string) option" where
  "json_scalar s =
     (case s of
        [] \<Rightarrow> None
      | c # t \<Rightarrow>
          (if c = QUOTE then map_option (apfst JString) (json_str t)
           else if c = CHR ''t'' then json_word ''true'' (JBool True) s
           else if c = CHR ''f'' then json_word ''false'' (JBool False) s
           else if c = CHR ''n'' then json_word ''null'' JNull s
           else json_number s))"

text \<open>
  Values, members and elements: \<open>d\<close> levels may still be opened.  The first argument bounds the
  steps; twice the length and one is enough, as shown below.
\<close>

fun json_value :: "nat \<Rightarrow> int \<Rightarrow> string \<Rightarrow> (json \<times> string) option"
  and json_members :: "nat \<Rightarrow> int \<Rightarrow> string \<Rightarrow> ((string \<times> string \<times> json) list \<times> string) option"
  and json_elements :: "nat \<Rightarrow> int \<Rightarrow> string \<Rightarrow> (json list \<times> string) option" where
  "json_value 0 d s = None"
| "json_value (Suc n) d s =
     (case s of
        [] \<Rightarrow> None
      | c # t \<Rightarrow>
          (if c = CHR ''{'' then
             (if d \<le> 0 then None
              else case json_ws t of
                [] \<Rightarrow> None
              | e # u \<Rightarrow>
                  (if e = CHR ''}'' then Some (JObject [], u)
                   else map_option (apfst JObject) (json_members n (d - 1) (e # u))))
           else if c = CHR ''['' then
             (if d \<le> 0 then None
              else case json_ws t of
                [] \<Rightarrow> None
              | e # u \<Rightarrow>
                  (if e = CHR '']'' then Some (JArray [], u)
                   else map_option (apfst JArray) (json_elements n (d - 1) (e # u))))
           else json_scalar s))"
| "json_members 0 d s = None"
| "json_members (Suc n) d s =
     (case s of
        [] \<Rightarrow> None
      | q # t \<Rightarrow>
          (if q \<noteq> QUOTE then None
           else case json_str t of
             None \<Rightarrow> None
           | Some (k, u) \<Rightarrow>
               (case json_ws u of
                  [] \<Rightarrow> None
                | c # u1 \<Rightarrow>
                    (if c \<noteq> CHR '':'' then None
                     else case json_value n d (json_ws u1) of
                       None \<Rightarrow> None
                     | Some (v, u2) \<Rightarrow>
                         (let m = (k, take (length (json_ws u1) - length u2) (json_ws u1), v) in
                          case json_ws u2 of
                            [] \<Rightarrow> None
                          | e # u3 \<Rightarrow>
                              (if e = CHR ''}'' then Some ([m], u3)
                               else if e = CHR '','' then map_option (apfst ((#) m)) (json_members n d (json_ws u3))
                               else None))))))"
| "json_elements 0 d s = None"
| "json_elements (Suc n) d s =
     (case json_value n d s of
        None \<Rightarrow> None
      | Some (v, u) \<Rightarrow>
          (case json_ws u of
             [] \<Rightarrow> None
           | e # u1 \<Rightarrow>
               (if e = CHR '']'' then Some ([v], u1)
                else if e = CHR '','' then map_option (apfst ((#) v)) (json_elements n d (json_ws u1))
                else None)))"

definition maxNestingDepth :: int where "maxNestingDepth = 10000"

definition json_parse :: "string \<Rightarrow> json option" where
  "json_parse s =
     (case json_value (2 * length s + 1) maxNestingDepth (json_ws s) of
        None \<Rightarrow> None
      | Some (v, t) \<Rightarrow> (if json_ws t = [] then Some v else None))"


subsection \<open>Storing a value\<close>

text \<open>
  Field names: as they are, or alike under \<^verbatim>\<open>foldName\<close>.  Two runes outside ASCII fold to
  letters, the long s and the Kelvin sign; every other one folds to a rune outside ASCII,
  which no field name has.
\<close>

definition upper :: "char \<Rightarrow> char" where
  "upper c = (if CHR ''a'' \<le> c \<and> c \<le> CHR ''z'' then char_of (bv c - 32) else c)"

function fold_name :: "string \<Rightarrow> string" where
  "fold_name [] = []"
| "fold_name (c # cs) =
     (if bv c < 0x80 then upper c # fold_name cs
      else case decode_rune (c # cs) of
             None \<Rightarrow> appendRune [] 0xFFFD @ fold_name cs
           | Some (cp, n) \<Rightarrow>
               (if cp = 0x17F then ''S'' else if cp = 0x212A then ''K'' else take n (c # cs))
                 @ fold_name (drop (n - 1) cs))"
  by pat_completeness auto
termination
  by (relation "measure length") auto

declare fold_name.simps [simp del]

definition field_named :: "string list \<Rightarrow> string \<Rightarrow> string option" where
  "field_named names k =
     (if k \<in> set names then Some k else List.find (\<lambda>n. fold_name n = fold_name k) names)"

text \<open>\<^verbatim>\<open>strconv.ParseInt\<close> on a number that the grammar accepted.\<close>

definition parse_int :: "string \<Rightarrow> i64 option" where
  "parse_int s =
     (let neg = (take 1 s = ''-''); ds = (if neg then drop 1 s else s);
          n = (if neg then - int (digits_value 0 ds) else int (digits_value 0 ds))
      in if list_all is_digit ds \<and> ds \<noteq> [] \<and> - (2 ^ 63) \<le> n \<and> n < 2 ^ 63 then Some (word_of_int n) else None)"

definition store_int :: "json \<Rightarrow> i64 \<Rightarrow> i64 option" where
  "store_int v old = (case v of JNull \<Rightarrow> Some old | JNumber s \<Rightarrow> parse_int s | _ \<Rightarrow> None)"

definition store_string :: "json \<Rightarrow> string \<Rightarrow> string option" where
  "store_string v old = (case v of JNull \<Rightarrow> Some old | JString s \<Rightarrow> Some s | _ \<Rightarrow> None)"

definition store_bool :: "json \<Rightarrow> bool \<Rightarrow> bool option" where
  "store_bool v old = (case v of JNull \<Rightarrow> Some old | JBool b \<Rightarrow> Some b | _ \<Rightarrow> None)"

fun store_members ::
  "(string \<Rightarrow> string \<Rightarrow> json \<Rightarrow> 'v \<Rightarrow> 'v option) \<Rightarrow> (string \<times> string \<times> json) list \<Rightarrow> 'v \<Rightarrow> 'v option" where
  "store_members f [] v = Some v"
| "store_members f ((k, raw, x) # ms) v =
     (case f k raw x v of None \<Rightarrow> None | Some v' \<Rightarrow> store_members f ms v')"

definition store_object ::
  "(string \<Rightarrow> string \<Rightarrow> json \<Rightarrow> 'v \<Rightarrow> 'v option) \<Rightarrow> json \<Rightarrow> 'v \<Rightarrow> 'v option" where
  "store_object f x v = (case x of JNull \<Rightarrow> Some v | JObject ms \<Rightarrow> store_members f ms v | _ \<Rightarrow> None)"

definition attestation_names :: "string list" where
  "attestation_names =
     [''by'', ''verified'', ''hop'', ''program'', ''host'', ''user'', ''exe'', ''uid'', ''gid'', ''pid'', ''key'', ''mac'']"

definition attestation_member :: "string \<Rightarrow> string \<Rightarrow> json \<Rightarrow> attestation \<Rightarrow> attestation option" where
  "attestation_member k raw x a =
     (case field_named attestation_names k of
        None \<Rightarrow> Some a
      | Some n \<Rightarrow>
          (if n = ''by'' then map_option (\<lambda>y. a\<lparr>at_by := y\<rparr>) (store_string x (at_by a))
           else if n = ''verified'' then map_option (\<lambda>y. a\<lparr>at_verified := y\<rparr>) (store_bool x (at_verified a))
           else if n = ''hop'' then map_option (\<lambda>y. a\<lparr>at_hop := y\<rparr>) (store_int x (at_hop a))
           else if n = ''program'' then map_option (\<lambda>y. a\<lparr>at_program := y\<rparr>) (store_string x (at_program a))
           else if n = ''host'' then map_option (\<lambda>y. a\<lparr>at_host := y\<rparr>) (store_string x (at_host a))
           else if n = ''user'' then map_option (\<lambda>y. a\<lparr>at_user := y\<rparr>) (store_string x (at_user a))
           else if n = ''exe'' then map_option (\<lambda>y. a\<lparr>at_exe := y\<rparr>) (store_string x (at_exe a))
           else if n = ''uid'' then map_option (\<lambda>y. a\<lparr>at_uid := y\<rparr>) (store_int x (at_uid a))
           else if n = ''gid'' then map_option (\<lambda>y. a\<lparr>at_gid := y\<rparr>) (store_int x (at_gid a))
           else if n = ''pid'' then map_option (\<lambda>y. a\<lparr>at_pid := y\<rparr>) (store_int x (at_pid a))
           else if n = ''key'' then map_option (\<lambda>y. a\<lparr>at_key := y\<rparr>) (store_string x (at_key a))
           else map_option (\<lambda>y. a\<lparr>at_mac := y\<rparr>) (store_string x (at_mac a))))"

definition store_attestation :: "json \<Rightarrow> attestation \<Rightarrow> attestation option" where
  "store_attestation = store_object attestation_member"

text \<open>
  A list is stored element by element over what the slice's memory holds; past its end the
  memory is zero.
\<close>

fun store_elements :: "json list \<Rightarrow> attestation list \<Rightarrow> attestation list option" where
  "store_elements [] mem = Some []"
| "store_elements (x # xs) mem =
     (case store_attestation x (case mem of [] \<Rightarrow> no_attestation | a # _ \<Rightarrow> a) of
        None \<Rightarrow> None
      | Some a \<Rightarrow> map_option ((#) a) (store_elements xs (tl mem)))"

definition store_identity :: "json \<Rightarrow> attestation list \<Rightarrow> (attestation list \<times> attestation list) option" where
  "store_identity x mem =
     (case x of
        JNull \<Rightarrow> Some ([], [])
      | JArray xs \<Rightarrow>
          (if xs = [] then Some ([], [])
           else map_option (\<lambda>as. (as, as @ drop (length xs) mem)) (store_elements xs mem))
      | _ \<Rightarrow> None)"

definition attr_member :: "string \<Rightarrow> string \<Rightarrow> json \<Rightarrow> strings \<Rightarrow> strings option" where
  "attr_member k raw x m = map_option (\<lambda>y. AList.update k y m) (store_string x [])"

definition store_attrs :: "json \<Rightarrow> strings \<Rightarrow> strings option" where
  "store_attrs x m =
     (case x of JNull \<Rightarrow> Some [] | JObject ms \<Rightarrow> store_members attr_member ms m | _ \<Rightarrow> None)"

text \<open>The record being filled and the memory of its identity slice.\<close>

definition record_names :: "string list" where
  "record_names = [''schema'', ''time'', ''level'', ''msg'', ''identity'', ''job'', ''attrs'']"

definition record_member ::
  "(string \<Rightarrow> 't \<Rightarrow> 't option) \<Rightarrow> string \<Rightarrow> string \<Rightarrow> json \<Rightarrow> 't log_record \<times> attestation list
    \<Rightarrow> ('t log_record \<times> attestation list) option" where
  "record_member TU k raw x = (\<lambda>(r, mem).
     (case field_named record_names k of
        None \<Rightarrow> Some (r, mem)
      | Some n \<Rightarrow>
          (if n = ''schema'' then map_option (\<lambda>y. (r\<lparr>lr_schema := y\<rparr>, mem)) (store_int x (lr_schema r))
           else if n = ''time'' then map_option (\<lambda>y. (r\<lparr>lr_time := y\<rparr>, mem)) (TU raw (lr_time r))
           else if n = ''level'' then map_option (\<lambda>y. (r\<lparr>lr_level := y\<rparr>, mem)) (store_int x (lr_level r))
           else if n = ''msg'' then map_option (\<lambda>y. (r\<lparr>lr_msg := y\<rparr>, mem)) (store_string x (lr_msg r))
           else if n = ''identity'' then map_option (\<lambda>(y, mem'). (r\<lparr>lr_identity := y\<rparr>, mem')) (store_identity x mem)
           else if n = ''job'' then map_option (\<lambda>y. (r\<lparr>lr_job := y\<rparr>, mem)) (store_string x (lr_job r))
           else map_option (\<lambda>y. (r\<lparr>lr_attrs := y\<rparr>, mem)) (store_attrs x (lr_attrs r)))))"

definition empty_record :: "'t \<Rightarrow> 't log_record" where
  "empty_record t =
     \<lparr>lr_schema = 0, lr_time = t, lr_level = 0, lr_msg = [], lr_identity = [], lr_job = [], lr_attrs = []\<rparr>"

definition Unmarshal ::
  "(string \<Rightarrow> 't \<Rightarrow> 't option) \<Rightarrow> 't \<Rightarrow> (string \<Rightarrow> string) \<Rightarrow> string \<Rightarrow> string + 't log_record" where
  "Unmarshal TU t E line =
     (case json_parse line of
        None \<Rightarrow> Inl (E line)
      | Some x \<Rightarrow>
          (case store_object (record_member TU) x (empty_record t, []) of
             None \<Rightarrow> Inl (E line)
           | Some (r, mem) \<Rightarrow> Inr r))"


subsection \<open>The bound on the steps is enough\<close>

lemma json_ws_length: "length (json_ws s) \<le> length s"
  by (simp add: json_ws_def length_dropWhile_le)

lemma json_str_shorter: "json_str s = Some (x, t) \<Longrightarrow> length t < length s"
proof (induction s arbitrary: x rule: length_induct)
  case (1 s)
  show ?case
  proof (cases s)
    case Nil
    then show ?thesis using "1.prems" by (simp add: json_str.simps)
  next
    case (Cons c cs)
    note step = "1.prems" [unfolded Cons json_str.simps(2) [of c cs]]
    have IH: "length t < length (c # cs)" if u: "json_str u = Some (y, t)" "length u \<le> length cs" for u y
    proof -
      have "length u < length s" using u(2) Cons by simp
      then have "length t < length u" using "1.IH" u(1) by blast
      then show ?thesis using u(2) by simp
    qed
    obtain u y where "cs = t \<or> json_str u = Some (y, t) \<and> length u \<le> length cs"
      using step by (fastforce split: if_splits option.splits list.splits)
    then show ?thesis using IH Cons by auto
  qed
qed

lemma number_parts_shorter:
  "number_int s = Some t \<Longrightarrow> length t < length s" "number_digits s = Some t \<Longrightarrow> length t < length s"
  "number_frac s = Some t \<Longrightarrow> length t \<le> length s" "number_exp s = Some t \<Longrightarrow> length t \<le> length s"
proof -
  have d: "length t < length s" if "number_digits s = Some t" for s t
    using that length_dropWhile_le [of is_digit] by (auto simp: number_digits_def less_Suc_eq_le split: list.splits if_splits)
  show "number_int s = Some t \<Longrightarrow> length t < length s"
    using length_dropWhile_le [of is_digit] by (auto simp: number_int_def less_Suc_eq_le split: list.splits if_splits)
  show "number_digits s = Some t \<Longrightarrow> length t < length s" by (rule d)
  show "number_frac s = Some t \<Longrightarrow> length t \<le> length s"
    by (auto simp: number_frac_def dest!: d split: list.splits if_splits)
  show "number_exp s = Some t \<Longrightarrow> length t \<le> length s"
    by (auto simp: number_exp_def dest!: d split: list.splits if_splits)
qed

lemma json_number_shorter: "json_number s = Some (v, t) \<Longrightarrow> length t < length s"
  by (cases s) (auto simp: json_number_def number_end_def split: option.splits if_splits
      dest!: number_parts_shorter intro: order.strict_trans1 order.strict_trans2)

lemma json_scalar_shorter: "json_scalar s = Some (v, t) \<Longrightarrow> length t < length s"
  by (auto simp: json_scalar_def json_word_def split: list.splits if_splits
      dest: json_str_shorter json_number_shorter)


lemma json_ws_shorter: "json_ws s = e # u \<Longrightarrow> length u < length s"
  using json_ws_length [of s] by simp

lemma json_shorter:
  "json_value n d s = Some (v, t) \<Longrightarrow> length t < length s"
  "json_members n d s = Some (ms, t) \<Longrightarrow> length t < length s"
  "json_elements n d s = Some (vs, t) \<Longrightarrow> length t < length s"
proof (induction n d s and n d s and n d s arbitrary: v t and ms t and vs t
    rule: json_value_json_members_json_elements.induct)
  case (2 n d s)
  show ?case
  proof (cases s)
    case (Cons c u)
    consider "c = CHR ''{''" | "c = CHR ''[''" | "json_scalar s = Some (v, t)"
      using "2.prems" Cons by (auto split: if_splits)
    then show ?thesis
    proof cases
      case 1
      then obtain e w where w: "json_ws u = e # w" "0 < d" using "2.prems" Cons by (auto split: if_splits list.splits)
      then have "length t \<le> length (e # w)"
        using "2.prems" Cons 1 "2.IH"(1) [OF Cons 1 _ w(1)] by (auto split: if_splits intro: less_imp_le)
      then show ?thesis using json_ws_length [of u] w Cons by simp
    next
      case 2
      then obtain e w where w: "json_ws u = e # w" "0 < d" using "2.prems" Cons by (auto split: if_splits list.splits)
      then have "length t \<le> length (e # w)"
        using "2.prems" Cons 2 "2.IH"(2) [OF Cons _ 2 _ w(1)] by (auto split: if_splits intro: less_imp_le)
      then show ?thesis using json_ws_length [of u] w Cons by simp
    qed (rule json_scalar_shorter)
  qed (use "2.prems" in simp)
next
  case (4 n d s)
  obtain u k u' c u1 where s: "s = QUOTE # u" "json_str u = Some (k, u')" "json_ws u' = CHR '':'' # u1"
    using "4.prems" by (auto split: if_splits list.splits option.splits)
  obtain v u2 where v: "json_value n d (json_ws u1) = Some (v, u2)"
    using "4.prems" s by (auto split: if_splits list.splits option.splits)
  obtain e u3 where e: "json_ws u2 = e # u3"
    using "4.prems" s v by (cases "json_ws u2") (auto simp: Let_def)
  have "length u2 < length (json_ws u1)" using "4.IH"(1) s v by simp
  moreover have "t = u3 \<or> length t < length (json_ws u3)"
    using "4.prems" s v e "4.IH"(2) by (auto simp: Let_def split: if_splits)
  ultimately show ?case
    using s(1) json_str_shorter [OF s(2)] json_ws_shorter [OF s(3)] json_ws_length [of u1] json_ws_shorter [OF e]
      json_ws_length [of u3] by auto
next
  case (6 n d s)
  obtain v u where v: "json_value n d s = Some (v, u)" using "6.prems" by (auto split: option.splits)
  obtain e u1 where e: "json_ws u = e # u1" using "6.prems" v by (auto split: list.splits)
  have "length u < length s" using "6.IH"(1) v by simp
  moreover have "t = u1 \<or> length t < length (json_ws u1)"
    using "6.prems" v e "6.IH"(2) by (auto split: if_splits)
  ultimately show ?case using json_ws_shorter [OF e] json_ws_length [of u1] by auto
qed simp_all

lemma json_fuel:
  "2 * length s < n \<Longrightarrow> json_value (Suc n) d s = json_value n d s"
  "2 * length s < n \<Longrightarrow> json_members (Suc n) d s = json_members n d s"
  "2 * length s + 1 < n \<Longrightarrow> json_elements (Suc n) d s = json_elements n d s"
proof (induction n arbitrary: d s)
  case (Suc n)
  {
    case 1
    show ?case
    proof (cases s)
      case (Cons c u)
      have "2 * length (e # w) + 1 < n" if "json_ws u = e # w" for e w
        using 1 Cons json_ws_length [of u] that by simp
      then have "json_members (Suc n) (d - 1) (e # w) = json_members n (d - 1) (e # w)"
        "json_elements (Suc n) (d - 1) (e # w) = json_elements n (d - 1) (e # w)" if "json_ws u = e # w" for e w
        using Suc.IH(2,3) [of "e # w" "d - 1"] that by fastforce+
      then show ?thesis using Cons
        by (simp del: json_members.simps json_elements.simps add: json_value.simps(2) split: list.split)
    qed simp
  next
    case 2
    have v: "json_value (Suc n) d (json_ws u1) = json_value n d (json_ws u1)"
      and m: "json_value n d (json_ws u1) = Some (v, u2) \<Longrightarrow> json_ws u2 = e # u3 \<Longrightarrow>
        json_members (Suc n) d (json_ws u3) = json_members n d (json_ws u3)"
      if "s = q # u" "json_str u = Some (k, u')" "json_ws u' = c # u1" for q u k u' c u1 v u2 e u3
    proof -
      have l: "2 * length (json_ws u1) < n"
        using 2 that json_str_shorter [OF that(2)] json_ws_shorter [OF that(3)] json_ws_length [of u1] by simp
      then show "json_value (Suc n) d (json_ws u1) = json_value n d (json_ws u1)" by (rule Suc.IH(1))
      assume a: "json_value n d (json_ws u1) = Some (v, u2)" "json_ws u2 = e # u3"
      have "2 * length (json_ws u3) < n"
        using l json_shorter(1) [OF a(1)] json_ws_shorter [OF a(2)] json_ws_length [of u3] by simp
      then show "json_members (Suc n) d (json_ws u3) = json_members n d (json_ws u3)" by (rule Suc.IH(2))
    qed
    show ?case
      unfolding json_members.simps(2) [of "Suc n" d s] json_members.simps(2) [of n d s]
      by (simp del: json_value.simps json_members.simps add: v m Let_def split: list.split option.split)
  next
    case 3
    have v: "json_value (Suc n) d s = json_value n d s" using Suc.IH(1) [of s d] 3 by simp
    have m: "json_elements (Suc n) d (json_ws u1) = json_elements n d (json_ws u1)"
      if a: "json_value n d s = Some (v, u)" "json_ws u = e # u1" for v u e u1
    proof -
      have "2 * length (json_ws u1) + 1 < n"
        using 3 json_shorter(1) [OF a(1)] json_ws_shorter [OF a(2)] json_ws_length [of u1] by simp
      then show ?thesis by (rule Suc.IH(3))
    qed
    show ?case
      unfolding json_elements.simps(2) [of "Suc n" d s] json_elements.simps(2) [of n d s]
      by (simp del: json_value.simps json_elements.simps add: v m split: list.split option.split)
  }
qed simp_all

lemma json_value_fuel:
  assumes "2 * length s < n" "n \<le> m"
  shows "json_value m d s = json_value n d s"
  using assms(2,1) by (induction m rule: dec_induct) (simp_all del: json_value.simps add: json_fuel(1))


subsection \<open>Reading what an encoder wrote\<close>

lemma json_str_plain: "c \<noteq> QUOTE \<Longrightarrow> c \<noteq> BSLASH \<Longrightarrow> 0x20 \<le> bv c \<Longrightarrow> bv c < 0x80 \<Longrightarrow>
    json_str (c # u) = map_option (apfst ((#) c)) (json_str u)"
  by (simp add: json_str.simps)

lemma json_str_simple: "simple_escape e = Some x \<Longrightarrow>
    json_str (BSLASH # e # u) = map_option (apfst ((#) x)) (json_str u)"
  by (auto simp: json_str.simps(2) [of BSLASH] simple_escape_def bv_def split: if_splits)

lemma json_str_unicode:
  "hex4_loop [a, b, c, d] 0 = Some v \<Longrightarrow> v < 0xD800 \<or> 0xDFFF < v \<Longrightarrow>
    json_str (BSLASH # CHR ''u'' # a # b # c # d # u) = map_option (apfst ((@) (appendRune [] v))) (json_str u)"
  by (simp add: json_str.simps(2) [of BSLASH] unicode_escape_def bv_def) auto

lemma json_str_ascii:
  assumes "bv c < 0x80"
  shows "json_str (json_ascii html c @ u) = map_option (apfst ((#) c)) (json_str u)"
proof (cases "c \<in> {QUOTE, BSLASH, CHR 0x08, CHR 0x0C, LF, CHR 0x0D, CHR 0x09}")
  case True
  then obtain x where "json_ascii html c = [BSLASH, x]" "simple_escape x = Some c"
    by (auto simp: json_ascii_def simple_escape_def)
  then show ?thesis by (simp add: json_str_simple)
next
  case False
  show ?thesis
  proof (cases "bv c < 0x20 \<or> (html \<and> c \<in> {CHR ''<'', CHR ''>'', CHR ''&''})")
    case True
    then have n: "bv c < 64" by (auto simp: bv_def)
    have "json_ascii html c = [BSLASH, CHR ''u'', CHR ''0'', CHR ''0'', hex_digits ! (bv c div 16), hex_digits ! (bv c mod 16)]"
      using True False by (simp add: json_ascii_def)
    moreover have "appendRune [] (bv c) = [c]" using n by (simp add: appendRune_def)
    moreover have "(@) [c] = (#) c" by auto
    ultimately show ?thesis using json_str_unicode [OF hex4_loop_low [OF n], of u] n by simp
  next
    case plain: False
    then have "json_ascii html c = [c]" using False by (simp add: json_ascii_def)
    then show ?thesis using json_str_plain [of c u] False plain assms by simp
  qed
qed

text \<open>A rune of several bytes is taken whole, whatever follows it.\<close>

lemma decode_rune_append:
  assumes "decode_rune (c # cs) = Some (cp, n)"
  shows "decode_rune (take n (c # cs) @ t) = Some (cp, n)"
proof -
  obtain lead where l: "utf8_lead c = Some (n, lead)" "n \<le> length (c # cs)" "list_all is_cont (take (n - 1) cs)"
    "cp = foldl (\<lambda>v k. v * 64 + bv k mod 64) lead (take (n - 1) cs)" "utf8_scalar n cp"
    by (rule decode_rune_SomeD [OF assms(1)])
  obtain m where m: "n = Suc m" using utf8_lead_range [OF l(1)] by (cases n) simp_all
  then have "take m (take m cs @ t) = take m cs" using l(2) by simp
  then show ?thesis using l m by (simp add: decode_rune_def Let_def)
qed

lemma json_str_rune:
  assumes r: "decode_rune (c # cs) = Some (cp, n)" and h: "\<not> bv c < 0x80"
  shows "json_str (take n (c # cs) @ u) = map_option (apfst ((@) (take n (c # cs)))) (json_str u)"
proof -
  obtain lead where l: "utf8_lead c = Some (n, lead)" "n \<le> length (c # cs)"
    by (rule decode_rune_SomeD [OF r])
  obtain m where m: "n = Suc m" using utf8_lead_range [OF l(1)] by (cases n) simp_all
  have "decode_rune (c # (take m cs @ u)) = Some (cp, Suc m)" using decode_rune_append [OF r, of u] m by simp
  moreover have "m \<le> length cs" using l(2) m by simp
  moreover have "c \<noteq> QUOTE" "c \<noteq> BSLASH" "\<not> bv c < 0x20" using h by (auto simp: bv_def)
  ultimately show ?thesis using m h by (simp add: json_str.simps(2) [of c "take m cs @ u"])
qed

lemma json_str_chars: "json_str (json_chars html s @ QUOTE # t) = Some (sanitize s, t)"
proof (induction s rule: sanitize.induct)
  case 1
  then show ?case by (simp add: json_chars.simps json_str.simps)
next
  case (2 c cs)
  show ?case
  proof (cases "bv c < 0x80")
    case True
    then show ?thesis using "2.IH"(1) json_str_ascii [OF True] by (simp add: json_chars.simps(2))
  next
    case high: False
    show ?thesis
    proof (cases "decode_rune (c # cs)")
      case None
      then show ?thesis
        using "2.IH"(2) [OF high None] json_str_unicode [OF hex4_separators(1)] high by (simp add: json_chars.simps(2))
    next
      case (Some p)
      then obtain cp n where p: "decode_rune (c # cs) = Some (cp, n)" by (cases p) simp
      note IH = "2.IH"(3) [OF high p refl]
      show ?thesis
      proof (cases "cp = 0x2028 \<or> cp = 0x2029")
        case True
        have "hex4_loop [CHR ''2'', CHR ''0'', CHR ''2'', hex_digits ! (cp mod 16)] 0 = Some cp"
          using True hex4_separators(2,3) by (elim disjE) (simp_all only:)
        then have "json_str (BSLASH # CHR ''u'' # CHR ''2'' # CHR ''0'' # CHR ''2'' # hex_digits ! (cp mod 16) # u)
            = map_option (apfst ((@) (appendRune [] cp))) (json_str u)" for u
          by (rule json_str_unicode) (use True in auto)
        then show ?thesis using IH high p True decode_separator [OF p True] by (simp add: json_chars.simps(2))
      next
        case False
        have "json_chars html (c # cs) @ QUOTE # t = take n (c # cs) @ (json_chars html (drop (n - 1) cs) @ QUOTE # t)"
          using high p False by (simp add: json_chars.simps(2))
        then show ?thesis using IH json_str_rune [OF p high] high p by simp
      qed
    qed
  qed
qed


text \<open>Integers, as both encoders of the repository spell them.\<close>

lemma decimal_shape:
  obtains d ds where "decimal n = (if sint n < 0 then CHR ''-'' # d # ds else d # ds)"
    "list_all is_digit (d # ds)" "d = CHR ''0'' \<longrightarrow> ds = []" "int (digits_value 0 (d # ds)) = \<bar>sint n\<bar>"
proof (cases "n = 0")
  case True
  then show ?thesis by (intro that [of "CHR ''0''" "[]"]) (simp_all add: decimal_def num_def is_digit_def bv_def)
next
  case False
  define u where "u = (if sint n < 0 then - n else n)"
  have u0: "u \<noteq> 0" using False by (simp add: u_def)
  obtain d ds where ds: "num_loop u [] = d # ds" using num_loop_digits [of u] u0 by (cases "num_loop u []") auto
  have "unat u = nat \<bar>sint n\<bar>"
    using sint_neg_cases [of n] sint_nonneg_cases [of n] by (auto simp: u_def)
  moreover have "digits_value 0 (d # ds) = unat u"
    using num_loop_digits [of u] ds by (simp only: simp_thms)
  ultimately have "int (digits_value 0 (d # ds)) = int (nat \<bar>sint n\<bar>)" by (simp only:)
  then have "int (digits_value 0 (d # ds)) = \<bar>sint n\<bar>" by (simp only: int_nat_eq abs_ge_zero if_True)
  moreover have "decimal n = (if sint n < 0 then CHR ''-'' # d # ds else d # ds)"
    using False ds by (simp add: decimal_def num_def u_def Let_def)
  moreover have "list_all is_digit (d # ds)" "d = CHR ''0'' \<longrightarrow> ds = []"
    using num_loop_digits [of u] u0 ds by (simp_all add: list_all_iff)
  ultimately show ?thesis using that by blast
qed

lemma digit_not_minus: "is_digit d \<Longrightarrow> d \<noteq> CHR ''-''"
  by (auto simp: is_digit_def bv_def)

lemma parse_decimal: "parse_int (decimal n) = Some n"
proof -
  obtain d ds where s: "decimal n = (if sint n < 0 then CHR ''-'' # d # ds else d # ds)"
    "list_all is_digit (d # ds)" "int (digits_value 0 (d # ds)) = \<bar>sint n\<bar>"
    by (rule decimal_shape [of n]) blast
  have b: "- (2 ^ 63) \<le> sint n" "sint n < 2 ^ 63"
    using sint_greater_eq [of n] sint_less [of n] by simp_all
  have d: "d \<noteq> CHR ''-''" using s(2) digit_not_minus by simp
  show ?thesis
  proof (cases "sint n < 0")
    case True
    then have "int (digits_value 0 (d # ds)) = - sint n" using s(3) by simp
    then show ?thesis
      using s(1,2) True b by (simp add: parse_int_def Let_def del: digits_value_simps)
  next
    case False
    then have "int (digits_value 0 (d # ds)) = sint n" using s(3) by simp
    then show ?thesis
      using s(1,2) False b d by (simp add: parse_int_def Let_def del: digits_value_simps)
  qed
qed

lemma dropWhile_digits: "list_all is_digit ds \<Longrightarrow> no_number t \<Longrightarrow> dropWhile is_digit (ds @ t) = t"
  by (cases t) (auto simp: list_all_iff no_number_def dropWhile_append)

lemma number_end_decimal:
  assumes "no_number t"
  shows "number_end (decimal n @ t) = Some t"
proof -
  obtain d ds where s: "decimal n = (if sint n < 0 then CHR ''-'' # d # ds else d # ds)"
    "list_all is_digit (d # ds)" "d = CHR ''0'' \<longrightarrow> ds = []"
    by (rule decimal_shape [of n]) blast
  have "number_int (d # ds @ t) = Some t" using s(2,3) dropWhile_digits [of ds t] assms by (auto simp: number_int_def)
  moreover have "number_frac t = Some t" "number_exp t = Some t"
    using assms by (auto simp: number_frac_def number_exp_def no_number_def split: list.split)
  moreover have "d \<noteq> CHR ''-''" using s(2) digit_not_minus by simp
  ultimately show ?thesis using s(1) by (simp add: number_end_def)
qed

lemma scalar_decimal:
  assumes "no_number t"
  shows "json_scalar (decimal n @ t) = Some (JNumber (decimal n), t)"
proof -
  obtain c s where c: "decimal n = c # s" "c = CHR ''-'' \<or> is_digit c"
    by (rule decimal_shape [of n]) (auto split: if_splits)
  then have "c \<noteq> QUOTE" "c \<noteq> CHR ''t''" "c \<noteq> CHR ''f''" "c \<noteq> CHR ''n''" by (auto simp: is_digit_def bv_def)
  then have "json_scalar (decimal n @ t) = json_number (decimal n @ t)" using c by (simp add: json_scalar_def)
  then show ?thesis using number_end_decimal [OF assms, of n] by (simp add: json_number_def)
qed

subsection \<open>Values among others\<close>

text \<open>
  A text reads as a value wherever it stands, if what follows cannot be more of a number; \<open>d\<close>
  levels are left for it.
\<close>

definition json_reads :: "int \<Rightarrow> string \<Rightarrow> json \<Rightarrow> bool" where
  "json_reads d x v \<longleftrightarrow>
     (\<exists>c u. x = c # u \<and> \<not> is_ws c \<and> c \<notin> {CHR ''}'', CHR '']''}) \<and>
     (\<forall>n t. no_number t \<longrightarrow> 2 * length (x @ t) < n \<longrightarrow> json_value n d (x @ t) = Some (v, t))"

lemma json_readsD: "json_reads d x v \<Longrightarrow> no_number t \<Longrightarrow> 2 * length (x @ t) < n \<Longrightarrow> json_value n d (x @ t) = Some (v, t)"
  by (simp add: json_reads_def)

lemma json_reads_start: "json_reads d x v \<Longrightarrow> json_ws (x @ t) = x @ t"
  by (auto simp: json_reads_def json_ws_def)

lemma json_reads_scalar:
  assumes "x = c # u" "\<not> is_ws c" "c \<notin> {CHR ''{'', CHR ''['', CHR ''}'', CHR '']''}"
    "\<And>t. no_number t \<Longrightarrow> json_scalar (x @ t) = Some (v, t)"
  shows "json_reads d x v"
proof -
  have "json_value n d (x @ t) = Some (v, t)" if "no_number t" "2 * length (x @ t) < n" for n t
    using assms that by (cases n) simp_all
  then show ?thesis using assms by (auto simp: json_reads_def)
qed

lemma reads_string: "json_reads d (json_string html s) (JString (sanitize s))"
  by (rule json_reads_scalar) (auto simp: json_string_def json_scalar_def json_str_chars is_ws_def)

lemma reads_decimal: "json_reads d (decimal n) (JNumber (decimal n))"
proof -
  obtain c s where c: "decimal n = c # s" "c = CHR ''-'' \<or> is_digit c"
    by (rule decimal_shape [of n]) (auto split: if_splits)
  then show ?thesis
    by (intro json_reads_scalar scalar_decimal) (auto simp: is_ws_def is_digit_def bv_def)
qed

lemma reads_bool: "json_reads d (json_bool b) (JBool b)"
  by (rule json_reads_scalar [where c = "if b then CHR ''t'' else CHR ''f''" and u = "tl (json_bool b)"])
    (auto simp: json_bool_def is_ws_def json_scalar_def json_word_def)


lemma json_ws_skip: "list_all is_ws a \<Longrightarrow> json_ws (a @ t) = json_ws t"
  by (simp add: json_ws_def dropWhile_append list_all_iff)

lemma json_ws_stop: "\<not> is_ws c \<Longrightarrow> json_ws (c # t) = c # t"
  by (simp add: json_ws_def)

lemma ws_no_number: "list_all is_ws w \<Longrightarrow> no_number t \<Longrightarrow> no_number (w @ t)"
  by (cases w) (auto intro: is_ws_number)

lemma brackets: "\<not> is_ws (CHR ''}'')" "\<not> is_ws (CHR '']'')"
  by (simp_all add: is_ws_def)

definition member_reads :: "int \<Rightarrow> string \<Rightarrow> string \<times> string \<times> json \<Rightarrow> bool" where
  "member_reads d y m \<longleftrightarrow>
     (case m of (k, x, v) \<Rightarrow> \<exists>a kt b. y = a @ QUOTE # kt @ CHR '':'' # b @ x \<and> list_all is_ws a \<and> list_all is_ws b
        \<and> (\<forall>t. json_str (kt @ t) = Some (k, t)) \<and> json_reads d x v)"

definition element_reads :: "int \<Rightarrow> string \<Rightarrow> json \<Rightarrow> bool" where
  "element_reads d y v \<longleftrightarrow> (\<exists>a x. y = a @ x \<and> list_all is_ws a \<and> json_reads d x v)"

lemma member_step:
  assumes m: "member_reads d y m" and r: "no_number r" "json_ws r = e # u" and n: "2 * length (y @ r) < Suc n"
  shows "json_members (Suc n) d (json_ws (y @ r)) =
     (if e = CHR ''}'' then Some ([m], u)
      else if e = CHR '','' then map_option (apfst ((#) m)) (json_members n d (json_ws u)) else None)"
proof -
  obtain k x v a kt b where y: "m = (k, x, v)" "y = a @ QUOTE # kt @ CHR '':'' # b @ x" "list_all is_ws a"
      "list_all is_ws b" "\<forall>t. json_str (kt @ t) = Some (k, t)" "json_reads d x v"
    using m by (cases m) (auto simp: member_reads_def)
  have q: "\<not> is_ws QUOTE" "\<not> is_ws (CHR '':'')" by (simp_all add: is_ws_def)
  have "json_ws (y @ r) = QUOTE # kt @ CHR '':'' # b @ x @ r"
    using y(2,3) q by (simp add: json_ws_skip json_ws_stop)
  moreover have "json_str (kt @ CHR '':'' # b @ x @ r) = Some (k, CHR '':'' # b @ x @ r)" using y(5) by blast
  moreover have "json_ws (CHR '':'' # b @ x @ r) = CHR '':'' # b @ x @ r" using q by (simp add: json_ws_stop)
  moreover have "json_ws (b @ x @ r) = x @ r" using y(4) json_reads_start [OF y(6)] by (simp add: json_ws_skip)
  moreover have "json_value n d (x @ r) = Some (v, r)" by (rule json_readsD [OF y(6) r(1)]) (use n y(2) in simp)
  ultimately show ?thesis using r(2) y(1) by (simp add: Let_def)
qed

lemma element_step:
  assumes m: "element_reads d y v" and r: "no_number r" "json_ws r = e # u" and n: "2 * length (y @ r) < n"
  shows "json_elements (Suc n) d (json_ws (y @ r)) =
     (if e = CHR '']'' then Some ([v], u)
      else if e = CHR '','' then map_option (apfst ((#) v)) (json_elements n d (json_ws u)) else None)"
proof -
  obtain a x where y: "y = a @ x" "list_all is_ws a" "json_reads d x v" using m by (auto simp: element_reads_def)
  have "json_ws (y @ r) = x @ r" using y json_reads_start [OF y(3)] by (simp add: json_ws_skip)
  moreover have "json_value n d (x @ r) = Some (v, r)" by (rule json_readsD [OF y(3) r(1)]) (use n y(1) in simp)
  ultimately show ?thesis using r(2) by simp
qed

lemma members_read:
  "list_all2 (member_reads d) ys ms \<Longrightarrow> ys \<noteq> [] \<Longrightarrow> list_all is_ws w \<Longrightarrow>
    2 * length (joined ys @ w @ CHR ''}'' # t) < n \<Longrightarrow>
    json_members n d (json_ws (joined ys @ w @ CHR ''}'' # t)) = Some (ms, t)"
proof (induction ys ms arbitrary: n rule: list_all2_induct)
  case (Cons y ys m ms)
  obtain n' where n: "n = Suc n'" using Cons.prems(3) by (cases n) simp_all
  show ?case
  proof (cases ys)
    case Nil
    have "no_number (w @ CHR ''}'' # t)" using Cons.prems(2) by (intro ws_no_number) (auto simp: no_number_def is_digit_def bv_def)
    moreover have "json_ws (w @ CHR ''}'' # t) = CHR ''}'' # t"
      using Cons.prems(2) json_ws_stop [of "CHR ''}''"] by (simp add: json_ws_skip brackets)
    ultimately show ?thesis
      using member_step [OF Cons.hyps(1), of "w @ CHR ''}'' # t" "CHR ''}''" t n'] Cons.prems(3) Cons.hyps(2) Nil n
      by (simp del: json_members.simps)
  next
    case (Cons z zs)
    note ys = this
    let ?u = "joined ys @ w @ CHR ''}'' # t"
    have j: "joined (y # ys) = y @ CHR '','' # joined ys" using ys by simp
    have "json_members n' d (json_ws ?u) = Some (ms, t)"
      by (rule Cons.IH) (use Cons.prems ys j n in simp_all)
    moreover have "no_number (CHR '','' # ?u)" "json_ws (CHR '','' # ?u) = CHR '','' # ?u"
      by (auto simp: no_number_def is_digit_def bv_def json_ws_stop is_ws_def)
    ultimately show ?thesis
      using member_step [OF Cons.hyps(1), of "CHR '','' # ?u" "CHR '',''" ?u n'] Cons.prems(3) j n
      by (simp del: json_members.simps)
  qed
qed simp

lemma elements_read:
  "list_all2 (element_reads d) ys vs \<Longrightarrow> ys \<noteq> [] \<Longrightarrow> list_all is_ws w \<Longrightarrow>
    2 * length (joined ys @ w @ CHR '']'' # t) + 1 < n \<Longrightarrow>
    json_elements n d (json_ws (joined ys @ w @ CHR '']'' # t)) = Some (vs, t)"
proof (induction ys vs arbitrary: n rule: list_all2_induct)
  case (Cons y ys v vs)
  obtain n' where n: "n = Suc n'" using Cons.prems(3) by (cases n) simp_all
  show ?case
  proof (cases ys)
    case Nil
    have "no_number (w @ CHR '']'' # t)" using Cons.prems(2) by (intro ws_no_number) (auto simp: no_number_def is_digit_def bv_def)
    moreover have "json_ws (w @ CHR '']'' # t) = CHR '']'' # t"
      using Cons.prems(2) json_ws_stop [of "CHR '']''"] by (simp add: json_ws_skip brackets)
    ultimately show ?thesis
      using element_step [OF Cons.hyps(1), of "w @ CHR '']'' # t" "CHR '']''" t n'] Cons.prems(3) Cons.hyps(2) Nil n
      by (simp del: json_elements.simps)
  next
    case (Cons z zs)
    note ys = this
    let ?u = "joined ys @ w @ CHR '']'' # t"
    have j: "joined (y # ys) = y @ CHR '','' # joined ys" using ys by simp
    have "json_elements n' d (json_ws ?u) = Some (vs, t)"
      by (rule Cons.IH) (use Cons.prems ys j n in simp_all)
    moreover have "no_number (CHR '','' # ?u)" "json_ws (CHR '','' # ?u) = CHR '','' # ?u"
      by (auto simp: no_number_def is_digit_def bv_def json_ws_stop is_ws_def)
    ultimately show ?thesis
      using element_step [OF Cons.hyps(1), of "CHR '','' # ?u" "CHR '',''" ?u n'] Cons.prems(3) j n
      by (simp del: json_elements.simps)
  qed
qed simp

lemma joined_start: "\<exists>s. joined (y # ys) = y @ s"
  by (cases ys) auto

lemma reads_object:
  assumes ms: "list_all2 (member_reads (d - 1)) ys ms" and d: "0 < d" and w: "list_all is_ws w"
  shows "json_reads d (''{'' @ joined ys @ w @ ''}'') (JObject ms)"
proof -
  have "json_value n d (CHR ''{'' # joined ys @ w @ CHR ''}'' # t) = Some (JObject ms, t)"
    if n: "2 * length (CHR ''{'' # joined ys @ w @ CHR ''}'' # t) < n" for n t
  proof -
    obtain n' where n': "n = Suc n'" using n by (cases n) simp_all
    show ?thesis
    proof (cases ys)
      case Nil
      then show ?thesis using ms d w n' json_ws_stop [OF brackets(1), of t] by (simp add: json_ws_skip)
    next
      case (Cons z zs)
      let ?b = "joined ys @ w @ CHR ''}'' # t"
      obtain m where "member_reads (d - 1) z m" using ms Cons by (auto simp: list_all2_Cons1)
      then obtain a u where a: "z = a @ QUOTE # u" "list_all is_ws a" by (auto simp: member_reads_def split: prod.splits)
      obtain s where "joined ys = z @ s" using Cons joined_start by blast
      then have e: "json_ws ?b = QUOTE # u @ s @ w @ CHR ''}'' # t"
        using a by (simp add: json_ws_skip json_ws_stop is_ws_def)
      moreover have "json_members n' (d - 1) (json_ws ?b) = Some (ms, t)"
        by (rule members_read [OF ms _ w]) (use n n' Cons in simp_all)
      ultimately show ?thesis using d n' by (simp del: json_members.simps)
    qed
  qed
  then show ?thesis by (auto simp: json_reads_def is_ws_def)
qed

lemma reads_list:
  assumes vs: "list_all2 (element_reads (d - 1)) ys vs" and d: "0 < d" and w: "list_all is_ws w"
  shows "json_reads d (''['' @ joined ys @ w @ '']'') (JArray vs)"
proof -
  have "json_value n d (CHR ''['' # joined ys @ w @ CHR '']'' # t) = Some (JArray vs, t)"
    if n: "2 * length (CHR ''['' # joined ys @ w @ CHR '']'' # t) < n" for n t
  proof -
    obtain n' where n': "n = Suc n'" using n by (cases n) simp_all
    show ?thesis
    proof (cases ys)
      case Nil
      then show ?thesis using vs d w n' json_ws_stop [OF brackets(2), of t] by (simp add: json_ws_skip)
    next
      case (Cons z zs)
      let ?b = "joined ys @ w @ CHR '']'' # t"
      obtain v where "element_reads (d - 1) z v" using vs Cons by (auto simp: list_all2_Cons1)
      then obtain a c u where a: "z = a @ c # u" "list_all is_ws a" "\<not> is_ws c" "c \<noteq> CHR '']''"
        by (auto simp: element_reads_def json_reads_def)
      obtain s where "joined ys = z @ s" using Cons joined_start by blast
      then have e: "json_ws ?b = c # u @ s @ w @ CHR '']'' # t"
        using a by (simp add: json_ws_skip json_ws_stop)
      moreover have "json_elements n' (d - 1) (json_ws ?b) = Some (vs, t)"
        by (rule elements_read [OF vs _ w]) (use n n' Cons in simp_all)
      ultimately show ?thesis using d n' a(4) by (simp del: json_elements.simps)
    qed
  qed
  then show ?thesis by (auto simp: json_reads_def is_ws_def)
qed

lemma json_parse_text:
  assumes x: "json_reads maxNestingDepth x v" and w: "list_all is_ws w"
  shows "json_parse (x @ w) = Some v"
proof -
  have "no_number w" using ws_no_number [OF w, of "[]"] by (simp add: no_number_def)
  then have "json_value (2 * length (x @ w) + 1) maxNestingDepth (x @ w) = Some (v, w)"
    by (rule json_readsD [OF x]) simp
  moreover have "json_ws w = []" using w by (simp add: json_ws_def list_all_iff)
  ultimately show ?thesis using json_reads_start [OF x, of w] by (simp add: json_parse_def)
qed

end
