(* ===== verification/Json_Record.thy ===== *)
theory Json_Record
  imports Json_Read
begin

text \<open>
  What \<^verbatim>\<open>DecodeRecord\<close> of \<^verbatim>\<open>go/record.go\<close> makes of the two lines this
  repository writes: one of \<^verbatim>\<open>Record.Encode\<close>, and one of the generated
  \<^verbatim>\<open>Encode\<close>, which the service hands it.
\<close>

declare sanitize.simps(2) [simp del]

subsection \<open>Objects field by field\<close>

text \<open>A field with its text and what the text reads as.\<close>

type_synonym json_member = "string \<times> string \<times> json"

definition fields_text :: "json_member list \<Rightarrow> string list" where
  "fields_text ms = map (\<lambda>(k, x, v). json_field True k x) ms"

definition fields_read :: "json_member list \<Rightarrow> json_member list" where
  "fields_read ms = map (\<lambda>(k, x, v). (sanitize k, x, v)) ms"

lemma fields_simps [simp]:
  "fields_text [] = []" "fields_text ((k, x, v) # ms) = json_field True k x # fields_text ms"
  "fields_text (ms @ ms') = fields_text ms @ fields_text ms'"
  "fields_read [] = []" "fields_read ((k, x, v) # ms) = (sanitize k, x, v) # fields_read ms"
  "fields_read (ms @ ms') = fields_read ms @ fields_read ms'"
  by (simp_all add: fields_text_def fields_read_def)

lemma member_field: "json_reads d x v \<Longrightarrow> member_reads d (json_field True k x) (sanitize k, x, v)"
  unfolding member_reads_def prod.case
  by (rule exI [of _ "[]"], rule exI [of _ "json_chars True k @ [QUOTE]"], rule exI [of _ "[]"])
    (simp add: json_field_def json_string_def json_str_chars)

lemma reads_fields:
  assumes "\<forall>(k, x, v) \<in> set ms. json_reads (d - 1) x v" "0 < d"
  shows "json_reads d (''{'' @ joined (fields_text ms) @ ''}'') (JObject (fields_read ms))"
proof -
  have "list_all2 (member_reads (d - 1)) (fields_text ms) (fields_read ms)"
    using assms(1) by (auto simp: fields_text_def fields_read_def list_all2_map1 list_all2_map2
        list.rel_refl_strong member_field intro!: list_all2_refl split: prod.splits)
  then show ?thesis using reads_object [of d _ _ "[]"] assms(2) by simp
qed

definition string_field :: "(string \<Rightarrow> string) \<Rightarrow> string \<Rightarrow> string \<Rightarrow> json_member list" where
  "string_field f k s = (if s = [] then [] else [(k, f s, JString (sanitize s))])"

lemma string_field_text: "fields_text (string_field (json_string True) k s) = omitempty k s"
  by (simp add: string_field_def omitempty_def)

lemma store_members_append:
  "store_members f (ms @ ms') v = (case store_members f ms v of None \<Rightarrow> None | Some v' \<Rightarrow> store_members f ms' v')"
  by (induction f ms v rule: store_members.induct) (auto split: option.splits)

text \<open>A field that is omitted when empty is as good as stored where it was empty.\<close>

lemma store_string_field:
  assumes "f (sanitize k) (w s) (JString (sanitize s)) v = Some (g (sanitize s))" "g [] = v"
  shows "store_members f (fields_read (string_field w k s) @ ms) v = store_members f ms (g (sanitize s))"
  using assms by (cases "s = []") (simp_all add: string_field_def)

subsection \<open>An attestation\<close>

definition attestation_json :: "(string \<Rightarrow> string) \<Rightarrow> attestation \<Rightarrow> json_member list" where
  "attestation_json f a =
     [(''by'', f (at_by a), JString (sanitize (at_by a))),
      (''verified'', json_bool (at_verified a), JBool (at_verified a)),
      (''hop'', decimal (at_hop a), JNumber (decimal (at_hop a)))] @
     string_field f ''program'' (at_program a) @ string_field f ''host'' (at_host a) @
     string_field f ''user'' (at_user a) @ string_field f ''exe'' (at_exe a) @
     [(''uid'', decimal (at_uid a), JNumber (decimal (at_uid a))),
      (''gid'', decimal (at_gid a), JNumber (decimal (at_gid a))),
      (''pid'', decimal (at_pid a), JNumber (decimal (at_pid a)))] @
     string_field f ''key'' (at_key a) @ string_field f ''mac'' (at_mac a)"

definition read_attestation :: "attestation \<Rightarrow> attestation" where
  "read_attestation a =
     a\<lparr>at_by := sanitize (at_by a), at_program := sanitize (at_program a), at_host := sanitize (at_host a),
       at_user := sanitize (at_user a), at_exe := sanitize (at_exe a), at_key := sanitize (at_key a),
       at_mac := sanitize (at_mac a)\<rparr>"

lemma attestation_json_text: "''{'' @ joined (fields_text (attestation_json (json_string True) a)) @ ''}'' = marshal_attestation a"
  by (simp add: attestation_json_def marshal_attestation_def string_field_text)

lemma attestation_json_reads: "0 < d \<Longrightarrow> json_reads d (marshal_attestation a) (JObject (fields_read (attestation_json (json_string True) a)))"
  unfolding attestation_json_text [symmetric]
  by (rule reads_fields) (auto simp: attestation_json_def string_field_def reads_string reads_decimal reads_bool)

lemma name_is_utf8 [simp]:
  "sanitize ''by'' = ''by''" "sanitize ''verified'' = ''verified''" "sanitize ''hop'' = ''hop''"
  "sanitize ''program'' = ''program''" "sanitize ''host'' = ''host''" "sanitize ''user'' = ''user''"
  "sanitize ''exe'' = ''exe''" "sanitize ''uid'' = ''uid''" "sanitize ''gid'' = ''gid''" "sanitize ''pid'' = ''pid''"
  "sanitize ''key'' = ''key''" "sanitize ''mac'' = ''mac''" "sanitize ''schema'' = ''schema''"
  "sanitize ''time'' = ''time''" "sanitize ''level'' = ''level''" "sanitize ''msg'' = ''msg''"
  "sanitize ''identity'' = ''identity''" "sanitize ''job'' = ''job''" "sanitize ''attrs'' = ''attrs''"
  by (intro sanitize_valid; simp add: validUTF8.simps bv_def)+

lemma attestation_fields_stored [simp]:
  "attestation_member ''by'' raw (JString s) a = Some (a\<lparr>at_by := s\<rparr>)"
  "attestation_member ''verified'' raw (JBool b) a = Some (a\<lparr>at_verified := b\<rparr>)"
  "attestation_member ''hop'' raw (JNumber (decimal n)) a = Some (a\<lparr>at_hop := n\<rparr>)"
  "attestation_member ''program'' raw (JString s) a = Some (a\<lparr>at_program := s\<rparr>)"
  "attestation_member ''host'' raw (JString s) a = Some (a\<lparr>at_host := s\<rparr>)"
  "attestation_member ''user'' raw (JString s) a = Some (a\<lparr>at_user := s\<rparr>)"
  "attestation_member ''exe'' raw (JString s) a = Some (a\<lparr>at_exe := s\<rparr>)"
  "attestation_member ''uid'' raw (JNumber (decimal n)) a = Some (a\<lparr>at_uid := n\<rparr>)"
  "attestation_member ''gid'' raw (JNumber (decimal n)) a = Some (a\<lparr>at_gid := n\<rparr>)"
  "attestation_member ''pid'' raw (JNumber (decimal n)) a = Some (a\<lparr>at_pid := n\<rparr>)"
  "attestation_member ''key'' raw (JString s) a = Some (a\<lparr>at_key := s\<rparr>)"
  "attestation_member ''mac'' raw (JString s) a = Some (a\<lparr>at_mac := s\<rparr>)"
  by (simp_all add: attestation_member_def field_named_def attestation_names_def store_string_def store_bool_def
      store_int_def parse_decimal)

lemma attestation_strings_stored [simp]:
  "at_program a = [] \<Longrightarrow> store_members attestation_member (fields_read (string_field f ''program'' s) @ ms) a =
     store_members attestation_member ms (a\<lparr>at_program := sanitize s\<rparr>)"
  "at_host a = [] \<Longrightarrow> store_members attestation_member (fields_read (string_field f ''host'' s) @ ms) a =
     store_members attestation_member ms (a\<lparr>at_host := sanitize s\<rparr>)"
  "at_user a = [] \<Longrightarrow> store_members attestation_member (fields_read (string_field f ''user'' s) @ ms) a =
     store_members attestation_member ms (a\<lparr>at_user := sanitize s\<rparr>)"
  "at_exe a = [] \<Longrightarrow> store_members attestation_member (fields_read (string_field f ''exe'' s) @ ms) a =
     store_members attestation_member ms (a\<lparr>at_exe := sanitize s\<rparr>)"
  "at_key a = [] \<Longrightarrow> store_members attestation_member (fields_read (string_field f ''key'' s) @ ms) a =
     store_members attestation_member ms (a\<lparr>at_key := sanitize s\<rparr>)"
  "at_mac a = [] \<Longrightarrow> store_members attestation_member (fields_read (string_field f ''mac'' s) @ ms) a =
     store_members attestation_member ms (a\<lparr>at_mac := sanitize s\<rparr>)"
  by (rule store_string_field; simp)+

lemma attestation_mac_stored [simp]:
  "at_mac a = [] \<Longrightarrow> store_members attestation_member (fields_read (string_field f ''mac'' s)) a = Some (a\<lparr>at_mac := sanitize s\<rparr>)"
  using attestation_strings_stored(6) [of a f s "[]"] by simp

lemma attestation_stored_back:
  "store_attestation (JObject (fields_read (attestation_json f a))) no_attestation = Some (read_attestation a)"
  by (simp add: store_attestation_def store_object_def attestation_json_def no_attestation_def read_attestation_def)

subsection \<open>A record\<close>

definition attrs_json :: "(string \<Rightarrow> string) \<Rightarrow> strings \<Rightarrow> json_member list" where
  "attrs_json f m = map (\<lambda>(k, x). (k, f x, JString (sanitize x))) (sorted_map m)"

definition record_json ::
  "(string \<Rightarrow> string) \<Rightarrow> string \<Rightarrow> string \<Rightarrow> string \<Rightarrow> 't log_record \<Rightarrow> json_member list" where
  "record_json f ids ats ts r =
     [(''schema'', decimal (lr_schema r), JNumber (decimal (lr_schema r))),
      (''time'', f ts, JString (sanitize ts)),
      (''level'', decimal (lr_level r), JNumber (decimal (lr_level r))),
      (''msg'', f (lr_msg r), JString (sanitize (lr_msg r)))] @
     (if lr_identity r = [] then []
      else [(''identity'', ids, JArray (map (\<lambda>a. JObject (fields_read (attestation_json f a))) (lr_identity r)))]) @
     string_field f ''job'' (lr_job r) @
     (if lr_attrs r = [] then []
      else [(''attrs'', ats, JObject (fields_read (attrs_json f (lr_attrs r))))])"

text \<open>The record a reader gets, with the instant \<open>t\<close> as it read it.\<close>

definition read_record :: "'t \<Rightarrow> 't log_record \<Rightarrow> 't log_record" where
  "read_record t r =
     \<lparr>lr_schema = lr_schema r, lr_time = t, lr_level = lr_level r, lr_msg = sanitize (lr_msg r),
      lr_identity = map read_attestation (lr_identity r), lr_job = sanitize (lr_job r),
      lr_attrs = read_attrs (lr_attrs r)\<rparr>"

subsection \<open>The line of a provider's record\<close>

definition marshal_identity :: "attestation list \<Rightarrow> string" where
  "marshal_identity as = ''['' @ joined (map marshal_attestation as) @ '']''"

definition marshal_json :: "string \<Rightarrow> 't log_record \<Rightarrow> json_member list" where
  "marshal_json ts r =
     record_json (json_string True) (marshal_identity (lr_identity r)) (marshal_map (lr_attrs r)) ts r"

lemma marshal_json_text: "''{'' @ joined (fields_text (marshal_json ts r)) @ ''}'' = marshal_record ts r"
  by (simp add: marshal_json_def record_json_def marshal_identity_def marshal_record_def string_field_text)

lemma marshal_map_reads:
  assumes "0 < d"
  shows "json_reads d (marshal_map m) (JObject (fields_read (attrs_json (json_string True) m)))"
proof -
  let ?ms = "attrs_json (json_string True) m"
  have "''{'' @ joined (fields_text ?ms) @ ''}'' = marshal_map m"
    by (simp add: attrs_json_def marshal_map_def fields_text_def comp_def case_prod_unfold)
  moreover have "\<forall>(k, x, v) \<in> set ?ms. json_reads (d - 1) x v" by (auto simp: attrs_json_def reads_string)
  ultimately show ?thesis using reads_fields [of ?ms d] assms by simp
qed

lemma reads_identity:
  assumes "1 < d" "list_all2 (element_reads (d - 1)) ys (map (\<lambda>a. JObject (fields_read (attestation_json f a))) as)"
    "list_all is_ws w"
  shows "json_reads d (''['' @ joined ys @ w @ '']'') (JArray (map (\<lambda>a. JObject (fields_read (attestation_json f a))) as))"
  by (rule reads_list [OF assms(2) _ assms(3)]) (use assms in simp)

lemma marshal_identity_reads:
  assumes "1 < d"
  shows "json_reads d (marshal_identity as)
    (JArray (map (\<lambda>a. JObject (fields_read (attestation_json (json_string True) a))) as))"
proof -
  have "element_reads (d - 1) (marshal_attestation a) (JObject (fields_read (attestation_json (json_string True) a)))" for a
    unfolding element_reads_def by (rule exI [of _ "[]"]) (use assms in \<open>simp add: attestation_json_reads\<close>)
  then show ?thesis
    using reads_identity [OF assms, of "map marshal_attestation as" "json_string True" as "[]"]
    by (simp add: marshal_identity_def list_all2_map1 list_all2_map2 list_all2_same)
qed

lemma marshal_reads:
  assumes "2 < d"
  shows "json_reads d (marshal_record ts r) (JObject (fields_read (marshal_json ts r)))"
  unfolding marshal_json_text [symmetric]
  by (rule reads_fields) (use assms in \<open>auto simp: marshal_json_def record_json_def string_field_def reads_string
      reads_decimal marshal_identity_reads marshal_map_reads\<close>)

subsection \<open>Storing a record's fields\<close>

lemma record_fields_stored [simp]:
  "record_member TU ''schema'' raw (JNumber (decimal n)) (r, mem) = Some (r\<lparr>lr_schema := n\<rparr>, mem)"
  "record_member TU ''time'' raw x (r, mem) = map_option (\<lambda>y. (r\<lparr>lr_time := y\<rparr>, mem)) (TU raw (lr_time r))"
  "record_member TU ''level'' raw (JNumber (decimal n)) (r, mem) = Some (r\<lparr>lr_level := n\<rparr>, mem)"
  "record_member TU ''msg'' raw (JString s) (r, mem) = Some (r\<lparr>lr_msg := s\<rparr>, mem)"
  "record_member TU ''job'' raw (JString s) (r, mem) = Some (r\<lparr>lr_job := s\<rparr>, mem)"
  "record_member TU ''identity'' raw x (r, mem) =
     map_option (\<lambda>(y, mem'). (r\<lparr>lr_identity := y\<rparr>, mem')) (store_identity x mem)"
  "record_member TU ''attrs'' raw x (r, mem) = map_option (\<lambda>y. (r\<lparr>lr_attrs := y\<rparr>, mem)) (store_attrs x (lr_attrs r))"
  by (simp_all add: record_member_def field_named_def record_names_def store_string_def store_int_def parse_decimal)

lemma record_job_stored [simp]:
  "lr_job r = [] \<Longrightarrow> store_members (record_member TU) (fields_read (string_field f ''job'' s) @ ms) (r, mem) =
     store_members (record_member TU) ms (r\<lparr>lr_job := sanitize s\<rparr>, mem)"
  by (rule store_string_field [where g = "\<lambda>s. (r\<lparr>lr_job := s\<rparr>, mem)"]) simp_all

lemma record_job_last [simp]:
  "lr_job r = [] \<Longrightarrow> store_members (record_member TU) (fields_read (string_field f ''job'' s)) (r, mem) =
     Some (r\<lparr>lr_job := sanitize s\<rparr>, mem)"
  using record_job_stored [of r TU f s "[]" mem] by simp

lemma attrs_stored: "store_attrs (JObject (fields_read (attrs_json f m))) [] = Some (read_attrs m)"
proof -
  have "store_members attr_member (fields_read (map (\<lambda>(k, x). (k, f x, JString (sanitize x))) xs)) acc =
      Some (fold (\<lambda>(k, x). AList.update (sanitize k) (sanitize x)) xs acc)" for xs :: strings and acc
    by (induction xs arbitrary: acc) (auto simp: attr_member_def store_string_def)
  then show ?thesis by (simp add: store_attrs_def attrs_json_def read_attrs_def)
qed

lemma identity_stored:
  assumes "as \<noteq> []"
  shows "store_identity (JArray (map (\<lambda>a. JObject (fields_read (attestation_json f a))) as)) [] =
     Some (map read_attestation as, map read_attestation as)"
proof -
  have "store_elements (map (\<lambda>a. JObject (fields_read (attestation_json f a))) as) [] = Some (map read_attestation as)"
    by (induction as) (simp_all add: attestation_stored_back)
  then show ?thesis using assms by (simp add: store_identity_def)
qed

lemma record_stored_back:
  assumes "TU (f ts) t0 = Some t"
  shows "\<exists>mem. store_object (record_member TU) (JObject (fields_read (record_json f ids ats ts r))) (empty_record t0, []) =
    Some (read_record t r, mem)"
proof -
  have a: "read_attrs [] = []" by (simp add: read_attrs_def sorted_map_Nil [THEN iffD2])
  show ?thesis
    using assms identity_stored [of "lr_identity r" f] a
    by (cases "lr_attrs r = []"; cases "lr_identity r = []")
      (simp_all add: store_object_def record_json_def empty_record_def read_record_def attrs_stored)
qed

lemma Unmarshal_text:
  assumes x: "json_reads maxNestingDepth x (JObject (fields_read (record_json f ids ats ts r)))"
    and t: "TU (f ts) t0 = Some t" and w: "list_all is_ws w"
  shows "Unmarshal TU t0 E (x @ w) = Inr (read_record t r)"
proof -
  obtain mem where "store_object (record_member TU) (JObject (fields_read (record_json f ids ats ts r))) (empty_record t0, []) =
      Some (read_record t r, mem)"
    using record_stored_back [where TU = TU and f = f and ts = ts and t = t and ?t0.0 = t0, OF t] by blast
  then show ?thesis using json_parse_text [OF x w] by (simp add: Unmarshal_def)
qed

text \<open>The instant is what the module that owns it reads from the text it wrote.\<close>

lemma DecodeRecord_encoded:
  assumes "T (lr_time r) = Inr ts" "TU (json_string True ts) t0 = Some t"
  shows "\<exists>line. Encode_record T r = Inr line \<and>
    DecodeRecord (Unmarshal TU t0 E) line =
      (if lr_schema r = 0 \<or> lr_schema r = SchemaVersion then Inr (read_record t (r\<lparr>lr_schema := SchemaVersion\<rparr>))
       else Inl (''logging: record schema '' @ decimal (lr_schema r) @ '', this build understands '' @ decimal SchemaVersion))"
proof -
  have u: "Unmarshal TU t0 E (marshal_record ts q @ [LF]) = Inr (read_record t q)" for q :: "'a log_record"
    by (rule Unmarshal_text [where f = "json_string True" and ts = ts])
      (rule marshal_reads [unfolded marshal_json_def], use assms in \<open>simp_all add: maxNestingDepth_def is_ws_def\<close>)
  show ?thesis
    using assms(1) u [of "r\<lparr>lr_schema := SchemaVersion\<rparr>"] u [of r]
    by (cases "lr_schema r = 0"; cases "lr_schema r = SchemaVersion")
      (simp_all add: Encode_record_def DecodeRecord_def read_record_def SchemaVersion_def)
qed


subsection \<open>The line of the generated codec\<close>

text \<open>
  The generated writer escapes no byte of 0x80 or more, so what is no UTF-8 becomes U+FFFD
  here: the runes are the same with the escapes of what follows them as without.
\<close>

lemma escByte_ascii: "bv c < 0x80 \<Longrightarrow> escByte [] c = json_ascii False c"
  by (simp add: escByte_def json_ascii_def)

lemma escByte_high:
  assumes "\<not> bv c < 0x80"
  shows "escByte [] c = [c]"
proof -
  have "c \<notin> {QUOTE, BSLASH, CHR 0x08, CHR 0x0C, LF, CHR 0x0D, CHR 0x09}" using assms by (auto simp: bv_def)
  then show ?thesis using assms by (simp add: escByte_def)
qed

lemma escByte_start: "\<exists>u. escByte [] c = c # u \<or> (\<not> is_cont c \<and> escByte [] c = BSLASH # u)"
proof (cases "bv c < 0x80")
  case True
  then have "\<not> is_cont c" using is_cont_high [of c] by auto
  then show ?thesis by (auto simp: escByte_def)
next
  case False
  then show ?thesis by (intro exI [of _ "[]"]) (simp add: escByte_high)
qed

lemma escaped_conts:
  "m \<le> length (escText cs @ QUOTE # t) \<and> list_all is_cont (take m (escText cs @ QUOTE # t)) \<longleftrightarrow>
     m \<le> length cs \<and> list_all is_cont (take m cs)"
  "m \<le> length cs \<Longrightarrow> list_all is_cont (take m cs) \<Longrightarrow> take m (escText cs @ QUOTE # t) = take m cs"
proof (induction cs arbitrary: m)
  case Nil
  have "\<not> is_cont QUOTE" by (simp add: is_cont_def bv_def)
  { case 1 show ?case using \<open>\<not> is_cont QUOTE\<close> by (cases m) auto next case 2 then show ?case by simp }
next
  case (Cons c cs)
  have b: "\<not> is_cont BSLASH" by (simp add: is_cont_def bv_def)
  {
    case 1
    show ?case
    proof (cases m)
      case (Suc k)
      show ?thesis
      proof (cases "is_cont c")
        case True
        then have "escByte [] c = [c]" using is_cont_high by (intro escByte_high) fastforce
        then show ?thesis using Cons.IH(1) [of k] Suc by auto
      next
        case False
        then show ?thesis using escByte_start [of c] b Suc by auto
      qed
    qed simp
  next
    case 2
    show ?case
    proof (cases m)
      case (Suc k)
      then have c: "is_cont c" using 2 by simp
      then have "escByte [] c = [c]" using is_cont_high by (intro escByte_high) fastforce
      then show ?thesis using Cons.IH(2) [of k] 2 Suc by auto
    qed simp
  }
qed

lemma escaped_rune: "decode_rune (c # escText cs @ QUOTE # t) = decode_rune (c # cs)"
proof (cases "utf8_lead c")
  case (Some p)
  obtain n lead where p: "p = (n, lead)" by (cases p)
  then have n: "2 \<le> n" using Some utf8_lead_range by blast
  note e = escaped_conts(1) [of "n - 1" cs t]
  have l: "n \<le> length (c # u) \<longleftrightarrow> n - 1 \<le> length u" for u using n by auto
  show ?thesis
  proof (cases "n - 1 \<le> length cs \<and> list_all is_cont (take (n - 1) cs)")
    case True
    then show ?thesis using Some p e escaped_conts(2) [of "n - 1" cs t] l [of cs] l [of "escText cs @ QUOTE # t"]
      by (simp add: decode_rune_def Let_def)
  next
    case False
    then show ?thesis using Some p e l [of cs] l [of "escText cs @ QUOTE # t"]
      by (auto simp: decode_rune_def Let_def)
  qed
qed (simp add: decode_rune_def)

lemma escText_high: "\<forall>c \<in> set a. 128 \<le> bv c \<Longrightarrow> escText a = a"
  by (induction a) (auto simp: escByte_high)

lemma escText_append: "escText (a @ b) = escText a @ escText b"
  by (simp add: escText_def)

lemma json_str_escText: "json_str (escText s @ QUOTE # t) = Some (sanitize s, t)"
proof (induction s rule: sanitize.induct)
  case 1
  then show ?case by (simp add: json_str.simps)
next
  case (2 c cs)
  show ?case
  proof (cases "bv c < 0x80")
    case True
    then show ?thesis
      using "2.IH"(1) json_str_ascii [OF True, of False "escText cs @ QUOTE # t"]
      by (simp add: escByte_ascii sanitize.simps)
  next
    case high: False
    have c: "c \<noteq> QUOTE" "c \<noteq> BSLASH" "\<not> bv c < 0x20" using high by (auto simp: bv_def)
    show ?thesis
    proof (cases "decode_rune (c # cs)")
      case None
      then show ?thesis
        using "2.IH"(2) [OF high None] high c escaped_rune [of c cs t]
        by (simp add: escByte_high json_str.simps sanitize.simps)
    next
      case (Some p)
      then obtain cp n where p: "decode_rune (c # cs) = Some (cp, n)" by (cases p) simp
      let ?a = "take n (c # cs)"
      have n: "2 \<le> n" using p by (auto elim!: decode_rune_SomeD dest!: utf8_lead_range)
      have "\<forall>x \<in> set ?a. 128 \<le> bv x"
        using p high by (auto elim!: decode_rune_SomeD dest!: utf8_lead_range is_cont_high
            simp: list_all_iff take_Cons' split: if_splits)
      then have "escText ?a = ?a" by (rule escText_high)
      moreover have "c # cs = ?a @ drop (n - 1) cs" using n by (cases n) simp_all
      ultimately have e: "escText (c # cs) = ?a @ escText (drop (n - 1) cs)" using escText_append by metis
      have "json_str (escText (c # cs) @ QUOTE # t) = json_str (?a @ (escText (drop (n - 1) cs) @ QUOTE # t))"
        unfolding e by (simp only: append_assoc)
      then show ?thesis
        using "2.IH"(3) [OF high p refl] json_str_rune [OF p high] high p by (simp add: sanitize.simps)
    qed
  qed
qed

lemma reads_esc: "json_reads d (esc [] s) (JString (sanitize s))"
  by (rule json_reads_scalar) (auto simp: esc_text json_scalar_def json_str_escText is_ws_def)


lemma decimal_num: "num [] n = decimal n"
  by (simp add: decimal_def)

lemma json_bool_put: "put_bool [] b = json_bool b"
  by (simp add: put_bool_def json_bool_def)

lemma pad_ws: "list_all is_ws (LF # pad [] d)"
  by (simp add: pad_def is_ws_def list_all_iff)

lemma texts_optional [simp]: "texts (optional b m) = (if b then [(m_key m, m_text m)] else [])"
  by (simp add: optional_def)

definition line_pairs :: "json_member list \<Rightarrow> (string \<times> string) list" where
  "line_pairs ms = map (\<lambda>(k, x, v). (k, x)) ms"

lemma lines_simps [simp]:
  "line_pairs [] = []" "line_pairs ((k, x, v) # ms) = (k, x) # line_pairs ms" "line_pairs (ms @ ms') = line_pairs ms @ line_pairs ms'"
  by (simp_all add: line_pairs_def)

lemma members_text_joined:
  "ms \<noteq> [] \<Longrightarrow> members_text d (line_pairs ms) = CHR '','' # joined (map (\<lambda>(k, x, v). key_text d k @ x) ms)"
proof (induction ms)
  case (Cons m ms)
  then show ?case by (cases ms; cases m) simp_all
qed simp

lemma member_line:
  assumes "json_reads d' x v"
  shows "member_reads d' (key_text d k @ x) (sanitize k, x, v)"
proof -
  have "key_text d k @ x = (LF # pad [] (d + 1)) @ QUOTE # (escText k @ [QUOTE]) @ CHR '':'' # [SPACE] @ x"
    by (simp add: key_text_def esc_text)
  moreover have "json_str ((escText k @ [QUOTE]) @ t) = Some (sanitize k, t)" for t by (simp add: json_str_escText)
  moreover have "list_all is_ws [SPACE]" by (simp add: is_ws_def)
  ultimately show ?thesis unfolding member_reads_def prod.case using assms pad_ws by blast
qed

lemma reads_lines:
  assumes "\<forall>(k, x, v) \<in> set ms. json_reads (d' - 1) x v" "0 < d'"
  shows "json_reads d' (object_text d (line_pairs ms)) (JObject (fields_read ms))"
proof -
  let ?ys = "map (\<lambda>(k, x, v). key_text d k @ x) ms"
  have "list_all2 (member_reads (d' - 1)) ?ys (fields_read ms)"
    using assms(1) by (auto simp: fields_read_def list_all2_map1 list_all2_map2
        intro!: list.rel_refl_strong member_line split: prod.splits)
  then have "json_reads d' (''{'' @ joined ?ys @ (LF # pad [] d) @ ''}'') (JObject (fields_read ms))"
    by (rule reads_object) (use assms pad_ws in simp_all)
  moreover have "object_text d (line_pairs ms) = ''{'' @ joined ?ys @ (LF # pad [] d) @ ''}''"
    by (cases "ms = []") (simp_all add: object_text_def close_text_def members_text_joined)
  ultimately show ?thesis by simp
qed

definition provider_attestation :: "wire_attestation \<Rightarrow> attestation" where
  "provider_attestation v =
     \<lparr>at_by = wa_by v, at_verified = wa_verified v, at_hop = wa_hop v, at_program = wa_program v,
      at_host = wa_host v, at_user = wa_user v, at_exe = wa_exe v, at_uid = wa_uid v, at_gid = wa_gid v,
      at_pid = wa_pid v, at_key = wa_key v, at_mac = wa_mac v\<rparr>"

text \<open>The provider's record a record of the wire stands for.\<close>

definition provider_record :: "'t \<Rightarrow> wire_record \<Rightarrow> 't log_record" where
  "provider_record t v =
     \<lparr>lr_schema = wr_schema v, lr_time = t, lr_level = wr_level v, lr_msg = wr_msg v,
      lr_identity = map provider_attestation (wr_identity v), lr_job = wr_job v, lr_attrs = wr_attrs v\<rparr>"

lemma attestation_lines: "texts (attestation_members v) = line_pairs (attestation_json (esc []) (provider_attestation v))"
  by (simp add: attestation_members_def attestation_json_def provider_attestation_def string_field_def decimal_num json_bool_put)

lemma attestation_text_reads:
  "0 < d' \<Longrightarrow> json_reads d' (attestation_text d v) (JObject (fields_read (attestation_json (esc []) (provider_attestation v))))"
  unfolding attestation_text_def attestation_lines
  by (rule reads_lines) (auto simp: attestation_json_def string_field_def reads_esc reads_decimal reads_bool)

lemma map_lines: "texts (map_members (sorted_map m)) = line_pairs (attrs_json (esc []) m)"
  by (simp add: texts_def map_members_def line_pairs_def attrs_json_def comp_def case_prod_unfold)

lemma map_text_reads:
  assumes "0 < d'"
  shows "json_reads d' (object_text d (texts (map_members (sorted_map m)))) (JObject (fields_read (attrs_json (esc []) m)))"
  unfolding map_lines by (rule reads_lines) (use assms in \<open>auto simp: attrs_json_def reads_esc\<close>)

lemma items_text_joined: "item_line d @ txt v @ items_text d txt vs = joined (map (\<lambda>v. item_line d @ txt v) (v # vs))"
  by (induction vs arbitrary: v) simp_all

lemma list_text_reads:
  assumes "1 < d'"
  shows "json_reads d' (list_text d (attestation_text n) vs)
    (JArray (map (\<lambda>a. JObject (fields_read (attestation_json (esc []) a))) (map provider_attestation vs)))"
proof -
  let ?ys = "map (\<lambda>v. item_line d @ attestation_text n v) vs" and ?w = "if vs = [] then [] else LF # pad [] d"
  have "element_reads (d' - 1) (item_line d @ attestation_text n v)
      (JObject (fields_read (attestation_json (esc []) (provider_attestation v))))" for v
    unfolding element_reads_def
    by (rule exI [of _ "item_line d"], rule exI [of _ "attestation_text n v"])
      (use pad_ws [of "d + 1"] attestation_text_reads [of "d' - 1" n v] assms in \<open>simp add: item_line_def\<close>)
  then have "list_all2 (element_reads (d' - 1)) ?ys
      (map (\<lambda>a. JObject (fields_read (attestation_json (esc []) a))) (map provider_attestation vs))"
    by (simp add: list_all2_map1 list_all2_map2 list_all2_same)
  then have "json_reads d' (''['' @ joined ?ys @ ?w @ '']'')
      (JArray (map (\<lambda>a. JObject (fields_read (attestation_json (esc []) a))) (map provider_attestation vs)))"
    by (rule reads_identity [OF assms]) (use pad_ws in simp)
  moreover have "list_text d (attestation_text n) vs = ''['' @ joined ?ys @ ?w @ '']''"
  proof (cases vs)
    case (Cons v vs')
    then show ?thesis using items_text_joined [of d "attestation_text n" v vs'] by (simp add: list_text_def close_text_def)
  qed (simp add: list_text_def)
  ultimately show ?thesis by simp
qed

lemma record_lines:
  "texts (record_members d v) =
     line_pairs (record_json (esc []) (list_text (d + 1) (attestation_text (d + 2)) (wr_identity v))
       (object_text (d + 1) (texts (map_members (sorted_map (wr_attrs v))))) (normalizedTimestamp (wr_time v)) (provider_record t v))"
  by (simp add: record_members_def record_json_def provider_record_def string_field_def decimal_num)

lemma DecodeRecord_wire:
  assumes v: "Encode v = Inr line" and t: "TU (esc [] (normalizedTimestamp (wr_time v))) t0 = Some t"
  shows "DecodeRecord (Unmarshal TU t0 E) line = Inr (read_record t (provider_record t v))"
proof -
  have w: "writable v" using v Encode_text [of v] Encode_fails [of v] by (cases "writable v") auto
  then have l: "line = record_text 0 v @ [LF]" using v Encode_text [of v] by simp
  have "json_reads maxNestingDepth (record_text 0 v) (JObject (fields_read
      (record_json (esc []) (list_text 1 (attestation_text 2) (wr_identity v))
        (object_text 1 (texts (map_members (sorted_map (wr_attrs v))))) (normalizedTimestamp (wr_time v)) (provider_record t v))))"
    unfolding record_text_def record_lines [of 0 v t] add_0
    by (rule reads_lines)
      (auto simp: record_json_def string_field_def reads_esc reads_decimal maxNestingDepth_def map_text_reads
        list_text_reads provider_record_def simp del: map_map)
  then have "Unmarshal TU t0 E (record_text 0 v @ [LF]) = Inr (read_record t (provider_record t v))"
    by (rule Unmarshal_text [where f = "esc []"]) (use t in \<open>simp_all add: is_ws_def\<close>)
  then show ?thesis using w l by (simp add: DecodeRecord_def read_record_def provider_record_def writable_def SchemaVersion_def)
qed

end
