(* ===== verification/Service_Sink.thy ===== *)
theory Service_Sink
  imports Service Sinks File_Sink
begin

text \<open>
  \<^verbatim>\<open>go/service.go\<close> and the discovery part of \<^verbatim>\<open>go/sink.go\<close>: the sink that
  forwards records over a local socket with a fallback, the line reader and the connection loop of
  the receiving server, and the sink a program's environment selects.  What the operating system
  does is an argument of each operation.
\<close>

subsection \<open>The forwarding sink\<close>

text \<open>
  \<open>ss_links\<close> holds what went through each connection dialled so far and whether it is open;
  \<open>ss_conn\<close> is the connection in use, an index into it.
\<close>

record service_sink =
  ss_addr :: string
  ss_conn :: "nat option"
  ss_timeout :: i64
  ss_links :: "(string \<times> bool) list"

text \<open>
  The network during one call: the outcome of dialling, what a write puts through before it ends, both
  within the time given, and the outcome of closing.
\<close>

record network =
  nw_dial :: "string \<Rightarrow> i64 \<Rightarrow> string option"
  nw_write :: "i64 \<Rightarrow> string \<Rightarrow> nat \<times> string option"
  nw_close :: "string option"

definition two_seconds :: i64 where "two_seconds = 2000000000"

definition NewServiceSink :: "string \<Rightarrow> service_sink" where
  "NewServiceSink addr = \<lparr>ss_addr = addr, ss_conn = None, ss_timeout = two_seconds, ss_links = []\<rparr>"

definition timeout :: "service_sink \<Rightarrow> i64" where
  "timeout s = (if sint (ss_timeout s) \<le> 0 then two_seconds else ss_timeout s)"

definition hang_up :: "nat \<Rightarrow> service_sink \<Rightarrow> service_sink" where
  "hang_up c s = s\<lparr>ss_links := (ss_links s)[c := (fst (ss_links s ! c), False)], ss_conn := None\<rparr>"

definition send_on :: "network \<Rightarrow> string \<Rightarrow> nat \<Rightarrow> service_sink \<Rightarrow> service_sink \<times> string option" where
  "send_on nw b c s =
     (case nw_write nw (timeout s) b of
        (n, err) \<Rightarrow>
          (let s1 = s\<lparr>ss_links := (ss_links s)[c := (fst (ss_links s ! c) @ take n b, snd (ss_links s ! c))]\<rparr>
           in if err \<noteq> None then (hang_up c s1, err) else (s1, None)))"

definition send :: "network \<Rightarrow> string \<Rightarrow> service_sink \<Rightarrow> service_sink \<times> string option" where
  "send nw b s =
     (case ss_conn s of
        Some c \<Rightarrow> send_on nw b c s
      | None \<Rightarrow>
          (case nw_dial nw (ss_addr s) (timeout s) of
             Some e \<Rightarrow> (s, Some e)
           | None \<Rightarrow>
               (let c = length (ss_links s) in
                send_on nw b c (s\<lparr>ss_conn := Some c, ss_links := ss_links s @ [([], True)]\<rparr>))))"

text \<open>The fallback is any sink; a nil one is \<^const>\<open>DiscardSink\<close>, as the constructor makes it.\<close>

definition ServiceSink_Write ::
  "('t \<Rightarrow> wire_error + string) \<Rightarrow> network \<Rightarrow> ('t log_record, 'w) sink \<Rightarrow> ('t log_record, service_sink \<times> 'w) sink" where
  "ServiceSink_Write T nw fallback r sw =
     (case Encode_record T r of
        Inl e \<Rightarrow> (sw, Some (EncodeError e))
      | Inr b \<Rightarrow>
          (case send nw b (fst sw) of
             (s1, None) \<Rightarrow> ((s1, snd sw), None)
           | (s1, Some _) \<Rightarrow> (case fallback r (snd sw) of (w', err) \<Rightarrow> ((s1, w'), err))))"

definition ServiceSink_Close :: "network \<Rightarrow> service_sink \<Rightarrow> service_sink \<times> sink_error option" where
  "ServiceSink_Close nw s =
     (case ss_conn s of
        None \<Rightarrow> (s, None)
      | Some c \<Rightarrow> (hang_up c s, map_option SystemError (nw_close nw)))"

definition ServiceSink_Separation :: "unit \<Rightarrow> separation" where
  "ServiceSink_Separation _ = SeparationPeer"

subsection \<open>Reading lines\<close>

text \<open>
  \<^verbatim>\<open>ReadBytes\<close> up to the line feed or to the end of the stream; the argument is what the
  connection still delivers.
\<close>

definition next_line :: "string \<Rightarrow> (string \<times> string) option" where
  "next_line stream =
     (let line = takeWhile (\<lambda>c. c \<noteq> LF) stream;
          after = drop (length line) stream;
          whole = (case after of [] \<Rightarrow> line | c # _ \<Rightarrow> line @ [c])
      in if whole = [] then None else Some (whole, drop (length whole) stream))"

lemma next_line_shorter: "next_line stream = Some (line, stream') \<Longrightarrow> length stream' < length stream"
  by (auto simp: next_line_def Let_def split: list.splits if_splits dest: arg_cong [where f = length])

text \<open>
  The connection loop: every line that decodes goes, stamped, to the sink the peer has; a line that
  does not is skipped.
\<close>

function handle_lines ::
  "(string \<Rightarrow> string + 't log_record) \<Rightarrow> ('t log_record \<Rightarrow> 'w \<Rightarrow> 'w) \<Rightarrow> string \<Rightarrow> 'w \<Rightarrow> 'w" where
  "handle_lines U put stream w =
     (case next_line stream of
        None \<Rightarrow> w
      | Some (line, stream') \<Rightarrow>
          (case DecodeRecord U line of
             Inl _ \<Rightarrow> handle_lines U put stream' w
           | Inr r \<Rightarrow> handle_lines U put stream' (put r w)))"
  by pat_completeness auto
termination
  by (relation "measure (\<lambda>(U, put, stream, w). length stream)") (auto dest: next_line_shorter)

declare handle_lines.simps [simp del]

definition handle ::
  "('t \<Rightarrow> wire_error + string) \<Rightarrow> (string \<Rightarrow> string \<Rightarrow> string) \<Rightarrow> (string \<Rightarrow> string + 't log_record) \<Rightarrow> server
    \<Rightarrow> (attestation \<Rightarrow> ('t log_record, 'w) sink) \<Rightarrow> attestation \<Rightarrow> string option \<Rightarrow> string \<Rightarrow> 'w \<Rightarrow> 'w" where
  "handle T H U sv out peer perr stream w =
     handle_lines U (\<lambda>r w. fst (out peer (Accept T H sv r peer perr) w)) stream w"

subsection \<open>Streams as lines\<close>

function stream_lines :: "string \<Rightarrow> string list" where
  "stream_lines stream = (case next_line stream of None \<Rightarrow> [] | Some (line, stream') \<Rightarrow> line # stream_lines stream')"
  by pat_completeness auto
termination
  by (relation "measure length") (auto dest: next_line_shorter)

declare stream_lines.simps [simp del]

lemma next_line_whole: "one_line l \<Longrightarrow> next_line (l @ t) = Some (l, t)"
proof -
  assume l: "one_line l"
  then obtain b where b: "l = b @ [LF]" "LF \<notin> set b" by (auto simp: one_line_def) (metis append_butlast_last_id)
  then have "takeWhile (\<lambda>c. c \<noteq> LF) (b @ LF # t) = b" by (subst takeWhile_append2) auto
  then have "takeWhile (\<lambda>c. c \<noteq> LF) (l @ t) = b" using b(1) by simp
  then show ?thesis using b(1) by (simp add: next_line_def Let_def)
qed

lemma next_line_tail: "LF \<notin> set t \<Longrightarrow> t \<noteq> [] \<Longrightarrow> next_line t = Some (t, [])"
proof -
  assume t: "LF \<notin> set t" "t \<noteq> []"
  then have w: "takeWhile (\<lambda>c. c \<noteq> LF) t = t" by (auto simp: takeWhile_eq_all_conv)
  show ?thesis unfolding next_line_def w using t(2) by simp
qed

lemma stream_lines_Nil [simp]: "stream_lines [] = []"
  by (simp add: stream_lines.simps next_line_def)

lemma stream_lines_whole [simp]: "one_line l \<Longrightarrow> stream_lines (l @ t) = l # stream_lines t"
  by (simp add: stream_lines.simps [of "l @ t"] next_line_whole)

lemma stream_lines_all: "list_all one_line ls \<Longrightarrow> stream_lines (concat ls @ t) = ls @ stream_lines t"
  by (induction ls) simp_all

lemma stream_lines_tail: "LF \<notin> set t \<Longrightarrow> stream_lines t = (if t = [] then [] else [t])"
  by (cases "t = []") (simp_all add: stream_lines.simps [of t] next_line_tail)

lemma handle_lines_fold:
  "handle_lines U put stream w =
    fold (\<lambda>l w. case DecodeRecord U l of Inl _ \<Rightarrow> w | Inr r \<Rightarrow> put r w) (stream_lines stream) w"
proof (induction U put stream w rule: handle_lines.induct)
  case (1 U put stream w)
  show ?case
  proof (cases "next_line stream")
    case (Some p)
    then obtain line t where p: "next_line stream = Some (line, t)" by (cases p) simp
    have l: "stream_lines stream = line # stream_lines t" by (simp add: stream_lines.simps [of stream] p)
    show ?thesis
    proof (cases "DecodeRecord U line")
      case (Inl e)
      then show ?thesis using "1.IH"(1) [OF p refl Inl] l by (simp add: handle_lines.simps [of U put stream] p)
    next
      case (Inr r)
      then show ?thesis using "1.IH"(2) [OF p refl Inr] l by (simp add: handle_lines.simps [of U put stream] p)
    qed
  qed (simp add: handle_lines.simps [of U put stream] stream_lines.simps [of stream])
qed

text \<open>Lines that arrived with their line feed.\<close>

definition arrived :: "string \<Rightarrow> string list" where
  "arrived t = filter (\<lambda>l. last l = LF) (stream_lines t)"

definition delivered :: "service_sink \<Rightarrow> string list" where
  "delivered s = concat (map (\<lambda>l. arrived (fst l)) (ss_links s))"

text \<open>What a write of \<^verbatim>\<open>net.Conn\<close> promises: it is whole unless it fails.\<close>

definition keeps_io :: "network \<Rightarrow> bool" where
  "keeps_io nw \<longleftrightarrow> (\<forall>t b. fst (nw_write nw t b) \<le> length b \<and> (snd (nw_write nw t b) = None \<longrightarrow> fst (nw_write nw t b) = length b))"

definition tidy :: "service_sink \<Rightarrow> bool" where
  "tidy s \<longleftrightarrow> (case ss_conn s of None \<Rightarrow> True
     | Some c \<Rightarrow> ss_links s \<noteq> [] \<and> c = length (ss_links s) - 1
         \<and> (\<exists>ls. list_all one_line ls \<and> fst (last (ss_links s)) = concat ls))"

lemma arrived_lines: "list_all one_line ls \<Longrightarrow> LF \<notin> set t \<Longrightarrow> arrived (concat ls @ t) = ls"
proof -
  assume a: "list_all one_line ls" "LF \<notin> set t"
  have "filter (\<lambda>l. last l = LF) (stream_lines t) = []"
  proof (cases "t = []")
    case False
    then have "last t \<noteq> LF" using a(2) last_in_set [of t] by metis
    then show ?thesis using a(2) by (simp add: stream_lines_tail)
  qed simp
  moreover have "filter (\<lambda>l. last l = LF) ls = ls"
    using a(1) by (auto simp: list_all_iff one_line_def filter_id_conv)
  ultimately show ?thesis using a(1) by (simp add: arrived_def stream_lines_all)
qed

lemma one_line_prefix: "one_line b \<Longrightarrow> n < length b \<Longrightarrow> LF \<notin> set (take n b)"
proof -
  assume b: "one_line b" "n < length b"
  then have "take n b = take n (butlast b)" by (simp add: take_butlast)
  then show ?thesis using b(1) by (auto simp: one_line_def dest: in_set_takeD)
qed

lemma send_on_delivers:
  assumes "tidy s" "ss_conn s = Some c" "one_line b" "keeps_io nw" "send_on nw b c s = (s', e)"
  shows "tidy s' \<and> (e = None \<longrightarrow> delivered s' = delivered s @ [b] \<and> ss_conn s' = Some c) \<and>
    (e \<noteq> None \<longrightarrow> ss_conn s' = None \<and> (delivered s' = delivered s \<or> delivered s' = delivered s @ [b]))"
proof -
  obtain xs t k ls where l: "ss_links s = xs @ [(t, k)]" "c = length xs" and ls: "list_all one_line ls" "t = concat ls"
    using assms(1,2) by (cases "ss_links s" rule: rev_cases) (auto simp: tidy_def)
  obtain n err where w: "nw_write nw (timeout s) b = (n, err)" by fastforce
  have n: "n \<le> length b" "err = None \<longrightarrow> n = length b" using assms(4) w unfolding keeps_io_def by (metis fst_conv snd_conv)+
  have d: "delivered s = concat (map (\<lambda>l. arrived (fst l)) xs) @ ls"
    using arrived_lines [OF ls(1), of "[]"] ls(2) by (simp add: delivered_def l)
  have whole: "arrived (t @ b) = ls @ [b]"
    using arrived_lines [of "ls @ [b]" "[]"] ls assms(3) by simp
  have part: "arrived (t @ take n b) = ls" if "n < length b"
    using arrived_lines [OF ls(1) one_line_prefix [OF assms(3) that]] ls(2) by simp
  have s': "s' = (if err \<noteq> None then hang_up c (s\<lparr>ss_links := xs @ [(t @ take n b, k)]\<rparr>) else s\<lparr>ss_links := xs @ [(t @ take n b, k)]\<rparr>)" "e = err"
    using assms(5) w l by (auto simp: send_on_def nth_append Let_def split: if_splits)
  show ?thesis
  proof (cases err)
    case None
    then have "s' = s\<lparr>ss_links := xs @ [(t @ b, k)]\<rparr>" using s' n by simp
    moreover have "list_all one_line (ls @ [b])" "t @ b = concat (ls @ [b])" using ls assms(3) by simp_all
    then have "\<exists>ls. list_all one_line ls \<and> t @ b = concat ls" by blast
    ultimately show ?thesis using None s'(2) whole d l assms(2) by (simp add: tidy_def delivered_def)
  next
    case (Some x)
    then have "s' = s\<lparr>ss_links := xs @ [(t @ take n b, False)], ss_conn := None\<rparr>"
      using s' l(2) by (simp add: hang_up_def)
    moreover have "arrived (t @ take n b) = ls \<or> arrived (t @ take n b) = ls @ [b]"
      using whole part n(1) by (cases "n < length b") simp_all
    ultimately show ?thesis using Some s'(2) d by (auto simp: tidy_def delivered_def)
  qed
qed

lemma send_delivers:
  assumes "tidy s" "one_line b" "keeps_io nw" "send nw b s = (s', e)"
  shows "tidy s' \<and> (e = None \<longrightarrow> delivered s' = delivered s @ [b] \<and> ss_conn s' \<noteq> None) \<and>
    (e \<noteq> None \<longrightarrow> ss_conn s' = None \<and> (delivered s' = delivered s \<or> delivered s' = delivered s @ [b]))"
proof (cases "ss_conn s")
  case (Some c)
  then have "send_on nw b c s = (s', e)" using assms(4) by (simp add: send_def)
  then show ?thesis using send_on_delivers [OF assms(1) Some assms(2,3)] by auto
next
  case None
  show ?thesis
  proof (cases "nw_dial nw (ss_addr s) (timeout s)")
    case (Some x)
    then have "s' = s" "e = Some x" using None assms(4) by (simp_all add: send_def)
    then show ?thesis using None assms(1) by simp
  next
    case no: None
    let ?c = "length (ss_links s)"
    let ?s = "s\<lparr>ss_conn := Some ?c, ss_links := ss_links s @ [([], True)]\<rparr>"
    have "tidy ?s" by (auto simp: tidy_def intro: exI [of _ "[]"])
    moreover have "delivered ?s = delivered s" by (simp add: delivered_def arrived_def)
    moreover have "send_on nw b ?c ?s = (s', e)" using None no assms(4) by (simp add: send_def Let_def)
    ultimately show ?thesis using send_on_delivers [of ?s ?c b nw s' e] assms(2,3) by auto
  qed
qed

subsection \<open>Writing many records\<close>

text \<open>Each record with the network as it was during its write; the errors returned.\<close>

fun forward ::
  "('t \<Rightarrow> wire_error + string) \<Rightarrow> ('t log_record, 'w) sink \<Rightarrow> (network \<times> 't log_record) list \<Rightarrow> service_sink \<times> 'w
    \<Rightarrow> service_sink \<times> 'w" where
  "forward T fallback [] sw = sw"
| "forward T fallback ((nw, r) # xs) sw = forward T fallback xs (fst (ServiceSink_Write T nw fallback r sw))"

text \<open>The records handed to the fallback, and the lines of those that were sent.\<close>

fun sent :: "('t \<Rightarrow> wire_error + string) \<Rightarrow> (network \<times> 't log_record) list \<Rightarrow> service_sink \<Rightarrow> string list" where
  "sent T [] s = []"
| "sent T ((nw, r) # xs) s =
     (case Encode_record T r of Inl _ \<Rightarrow> sent T xs s
      | Inr b \<Rightarrow> (case send nw b s of (s', e) \<Rightarrow> (if e = None then [b] else []) @ sent T xs s'))"

fun fell_back :: "('t \<Rightarrow> wire_error + string) \<Rightarrow> (network \<times> 't log_record) list \<Rightarrow> service_sink \<Rightarrow> 't log_record list" where
  "fell_back T [] s = []"
| "fell_back T ((nw, r) # xs) s =
     (case Encode_record T r of Inl _ \<Rightarrow> fell_back T xs s
      | Inr b \<Rightarrow> (case send nw b s of (s', e) \<Rightarrow> (if e = None then [] else [r]) @ fell_back T xs s'))"

definition lines_tried :: "('t \<Rightarrow> wire_error + string) \<Rightarrow> (network \<times> 't log_record) list \<Rightarrow> string list" where
  "lines_tried T xs = concat (map (\<lambda>(nw, r). case Encode_record T r of Inl _ \<Rightarrow> [] | Inr b \<Rightarrow> [b]) xs)"

lemma forward_delivers:
  assumes "tidy s" "\<forall>x \<in> set xs. keeps_io (fst x)"
  shows "\<exists>s' d. forward T fallback xs (s, w) = (s', write_all fallback (fell_back T xs s) w) \<and> tidy s'
    \<and> delivered s' = delivered s @ d \<and> subseq (sent T xs s) d \<and> subseq d (lines_tried T xs)
    \<and> length (sent T xs s) + length (fell_back T xs s) = length (lines_tried T xs)"
  using assms
proof (induction xs arbitrary: s w)
  case (Cons x xs)
  obtain nw r where x: "x = (nw, r)" by (cases x)
  show ?case
  proof (cases "Encode_record T r")
    case (Inl e)
    then show ?thesis using Cons.IH [OF Cons.prems(1), of w] Cons.prems(2) x
      by (simp add: ServiceSink_Write_def lines_tried_def)
  next
    case (Inr b)
    obtain s1 e where s: "send nw b s = (s1, e)" by fastforce
    have k: "keeps_io nw" using Cons.prems(2) x by simp
    have d: "tidy s1" "e = None \<longrightarrow> delivered s1 = delivered s @ [b]"
      "e \<noteq> None \<longrightarrow> delivered s1 = delivered s \<or> delivered s1 = delivered s @ [b]"
      using send_delivers [OF Cons.prems(1) Encode_record_one_line [OF Inr] k s] by blast+
    let ?w = "if e = None then w else fst (fallback r w)"
    have f: "fst (ServiceSink_Write T nw fallback r (s, w)) = (s1, ?w)"
      using Inr s by (simp add: ServiceSink_Write_def split: option.splits prod.splits)
    from Cons.IH [OF d(1), of ?w] Cons.prems(2) obtain s' t where i:
      "forward T fallback xs (s1, ?w) = (s', write_all fallback (fell_back T xs s1) ?w)" "tidy s'"
      "delivered s' = delivered s1 @ t" "subseq (sent T xs s1) t" "subseq t (lines_tried T xs)"
      "length (sent T xs s1) + length (fell_back T xs s1) = length (lines_tried T xs)" by auto
    have tr: "lines_tried T (x # xs) = b # lines_tried T xs" using x Inr by (simp add: lines_tried_def)
    obtain c where c: "delivered s1 = delivered s @ c" "c = [b] \<or> c = [] \<and> e \<noteq> None" using d by fastforce
    have "subseq (sent T (x # xs) s) (c @ t)" "subseq (c @ t) (b # lines_tried T xs)"
      using i(4,5) c(2) x Inr s by (auto intro: list_emb_append2)
    moreover have "delivered s' = delivered s @ c @ t" using i(3) c(1) by simp
    moreover have "forward T fallback (x # xs) (s, w) = (s', write_all fallback (fell_back T (x # xs) s) w)"
      using x f i(1) Inr s by simp
    moreover have "length (sent T (x # xs) s) + length (fell_back T (x # xs) s) = length (lines_tried T (x # xs))"
      using tr i(6) x Inr s by simp
    ultimately show ?thesis using i(2) tr by auto
  qed
qed (simp add: lines_tried_def)

subsection \<open>Properties of forwarding\<close>

text \<open>
  C33: No record is lost between socket and fallback.  Whatever the network does during each write,
  every record that has an encoding was either sent, its whole line on the connection of the time, or handed
  to the fallback, once and in order; the lines that arrive at the service are in the order written,
  each at most once, and hold all those that were sent.
\<close>

theorem forwarded_or_fallen_back:
  assumes "\<forall>x \<in> set xs. keeps_io (fst x)"
  shows "\<exists>s'. forward T fallback xs (NewServiceSink addr, w) = (s', write_all fallback (fell_back T xs (NewServiceSink addr)) w)
    \<and> subseq (sent T xs (NewServiceSink addr)) (delivered s') \<and> subseq (delivered s') (lines_tried T xs)
    \<and> length (sent T xs (NewServiceSink addr)) + length (fell_back T xs (NewServiceSink addr)) = length (lines_tried T xs)"
proof -
  have "tidy (NewServiceSink addr)" "delivered (NewServiceSink addr) = []"
    by (simp_all add: tidy_def NewServiceSink_def delivered_def)
  then show ?thesis using forward_delivers [OF _ assms, of "NewServiceSink addr" T fallback w] by auto
qed

definition decoded :: "(string \<Rightarrow> string + 't log_record) \<Rightarrow> string list \<Rightarrow> 't log_record list" where
  "decoded U ls = concat (map (\<lambda>l. case DecodeRecord U l of Inl _ \<Rightarrow> [] | Inr r \<Rightarrow> [r]) ls)"

lemma fold_decoded:
  "fold (\<lambda>l w. case DecodeRecord U l of Inl _ \<Rightarrow> w | Inr r \<Rightarrow> fst (f (g r) w)) ls w = write_all f (map g (decoded U ls)) w"
  by (induction ls arbitrary: w) (simp_all add: decoded_def split: sum.splits)

text \<open>
  C34: A connection's stream is its lines, the last one possibly cut off: each that decodes is written
  once, in order, stamped with what the kernel said of this peer, to the sink chosen for that peer; a
  malformed line drops nothing but itself.
\<close>

theorem connection_writes_every_line:
  assumes "list_all one_line ls" "LF \<notin> set t"
  shows "handle T H U sv out peer perr (concat ls @ t) w =
    write_all (out peer) (map (\<lambda>r. Accept T H sv r peer perr) (decoded U (ls @ (if t = [] then [] else [t])))) w"
  unfolding handle_def handle_lines_fold stream_lines_all [OF assms(1)] stream_lines_tail [OF assms(2)]
  by (rule fold_decoded)

subsection \<open>Discovery\<close>

text \<open>
  The file system as \<^verbatim>\<open>OpenFileSink\<close> meets it: making the parent directory, creating
  the file exclusively, and opening the one that exists, which has the content given.
\<close>

datatype create_result = Created | Exists | Create_error string

record file_system =
  fsys_mkdir :: "string \<Rightarrow> string option"
  fsys_create :: "string \<Rightarrow> create_result"
  fsys_open :: "string \<Rightarrow> string + string"

definition OpenFileSink_path :: "file_system \<Rightarrow> string \<Rightarrow> string + file_sink" where
  "OpenFileSink_path fsys path =
     (case fsys_mkdir fsys path of
        Some e \<Rightarrow> Inl e
      | None \<Rightarrow>
          (case fsys_create fsys path of
             Created \<Rightarrow> Inr (OpenFileSink [])
           | Create_error e \<Rightarrow> Inl e
           | Exists \<Rightarrow> (case fsys_open fsys path of Inl e \<Rightarrow> Inl e | Inr content \<Rightarrow> Inr (OpenFileSink content))))"

text \<open>A sink as the environment selects it; a forwarding sink has its fallback below it.\<close>

datatype chosen = Discards | Files file_sink | Forwards service_sink chosen

definition EnvSink :: string where "EnvSink = ''ABSTRACTION_LOG''"

definition EnvService :: string where "EnvService = ''ABSTRACTION_LOG_SERVICE''"

text \<open>The environment answers \<open>''''\<close> for a variable that is not set; the second component is what went to stderr.\<close>

definition FromEnv :: "(string \<Rightarrow> string) \<Rightarrow> file_system \<Rightarrow> chosen \<times> string option" where
  "FromEnv env fsys =
     (let path = env EnvSink in
      if path = [] then (Discards, None)
      else case OpenFileSink_path fsys path of
             Inl e \<Rightarrow> (Discards, Some (''logging: '' @ EnvSink @ ''='' @ path @ '' could not be opened ('' @ e @ ''); logging is disabled'' @ [LF]))
           | Inr s \<Rightarrow> (Files s, None))"

definition LegacyAuto :: "(string \<Rightarrow> string) \<Rightarrow> file_system \<Rightarrow> chosen \<times> string option" where
  "LegacyAuto env fsys =
     (case FromEnv env fsys of (below, said) \<Rightarrow>
        (if env EnvService \<noteq> [] then (Forwards (NewServiceSink (env EnvService)) below, said) else (below, said)))"

text \<open>Writing to whatever was chosen.\<close>

fun chosen_write ::
  "('t \<Rightarrow> wire_error + string) \<Rightarrow> network \<Rightarrow> (string \<Rightarrow> nat \<times> string option) \<Rightarrow> ('t log_record, chosen) sink" where
  "chosen_write T nw W r Discards = DiscardSink r Discards"
| "chosen_write T nw W r (Files s) = (case FileSink_Write T W r s of (s', e) \<Rightarrow> (Files s', e))"
| "chosen_write T nw W r (Forwards s below) =
     (case ServiceSink_Write T nw (\<lambda>r' _. chosen_write T nw W r' below) r (s, below) of ((s', below'), e) \<Rightarrow> (Forwards s' below', e))"

fun chosen_separation :: "32 word option \<Rightarrow> chosen \<Rightarrow> separation" where
  "chosen_separation perm Discards = SeparationOf None"
| "chosen_separation perm (Files s) = SeparationOf (Some (\<lambda>_. FileSink_Separation perm))"
| "chosen_separation perm (Forwards s below) = SeparationOf (Some ServiceSink_Separation)"

text \<open>
  A program whose environment names both a service and a file that opens keeps its record: after
  the write it is a line of the service's connection, or a line at the end of the file, or the file
  sink's own refusal is what the program gets.
\<close>

theorem configured_record_is_kept:
  assumes env: "env EnvService \<noteq> []" "env EnvSink \<noteq> []" "OpenFileSink_path fsys (env EnvSink) = Inr f"
    and io: "keeps_io nw" and enc: "Encode_record T r = Inr b"
  shows "\<exists>s' f' e. chosen_write T nw (\<lambda>b. (length b, None)) r (fst (LegacyAuto env fsys)) = (Forwards s' (Files f'), e) \<and>
    (case e of
       None \<Rightarrow> delivered s' = [b] \<and> f' = f
         \<or> (\<exists>line. file_line T (fs_max f) r = Inr line \<and> fs_content f' = fs_content f @ line)
     | Some x \<Rightarrow> file_line T (fs_max f) r = Inl x \<and> fs_content f' = fs_content f)"
proof -
  let ?s = "NewServiceSink (env EnvService)" and ?W = "\<lambda>b :: string. (length b, None)"
  have c: "fst (LegacyAuto env fsys) = Forwards ?s (Files f)" using env by (simp add: LegacyAuto_def FromEnv_def)
  obtain s' e where s: "send nw b ?s = (s', e)" by fastforce
  have "tidy ?s" "delivered ?s = []" by (simp_all add: tidy_def NewServiceSink_def delivered_def)
  then have d: "e = None \<longrightarrow> delivered s' = [b]"
    using send_delivers [OF _ Encode_record_one_line [OF enc] io s] by auto
  obtain content where f: "f = OpenFileSink content"
    using env(3) by (auto simp: OpenFileSink_path_def split: option.splits create_result.splits sum.splits)
  obtain f' e' where w: "FileSink_Write T ?W r f = (f', e')" by fastforce
  have fw: "case file_line T (fs_max f) r of Inl x \<Rightarrow> e' = Some x \<and> fs_content f' = fs_content f
      | Inr line \<Rightarrow> e' = None \<and> fs_content f' = fs_content f @ line"
    using w by (auto simp: f FileSink_Write_def OpenFileSink_def Let_def split: sum.splits if_splits option.splits)
  show ?thesis
  proof (cases e)
    case None
    then have "chosen_write T nw ?W r (Forwards ?s (Files f)) = (Forwards s' (Files f), None)"
      using enc s by (simp add: ServiceSink_Write_def)
    then show ?thesis using None d c by auto
  next
    case (Some x)
    then have "chosen_write T nw ?W r (Forwards ?s (Files f)) = (Forwards s' (Files f'), e')"
      using enc s w by (simp add: ServiceSink_Write_def)
    then show ?thesis using fw c by (auto split: sum.splits)
  qed
qed

subsection \<open>Witnesses\<close>

text \<open>A network that writes whole lines, and one whose third byte is the last to get through.\<close>

definition good_network :: network where
  "good_network = \<lparr>nw_dial = (\<lambda>_ _. None), nw_write = (\<lambda>_ b. (length b, None)), nw_close = None\<rparr>"

definition broken_network :: network where
  "broken_network = \<lparr>nw_dial = (\<lambda>_ _. None), nw_write = (\<lambda>_ b. (min 3 (length b), Some ''broken pipe'')), nw_close = None\<rparr>"

lemma sample_networks: "keeps_io good_network" "keeps_io broken_network"
  by (simp_all add: keeps_io_def good_network_def broken_network_def)

theorem forwarded_or_fallen_back_witness:
  "\<exists>s'. forward Inr (\<lambda>r w. (w @ [r], None)) [(good_network, sample_event), (broken_network, sample_event)]
      (NewServiceSink ''/run/log'', []) = (s', [sample_event]) \<and> subseq (delivered s')
        (lines_tried Inr [(good_network, sample_event), (broken_network, sample_event)])"
proof -
  let ?xs = "[(good_network, sample_event), (broken_network, sample_event)]"
  have "fell_back Inr ?xs (NewServiceSink ''/run/log'') = [sample_event]" by code_simp
  moreover have "\<forall>x \<in> set ?xs. keeps_io (fst x)" using sample_networks by simp
  ultimately show ?thesis
    using forwarded_or_fallen_back [of ?xs Inr "\<lambda>r w. (w @ [r], None)" "''/run/log''" "[]"] by auto
qed

text \<open>Three lines, the second malformed, the last cut off.\<close>

definition sample_reads :: "string \<Rightarrow> string + string log_record" where
  "sample_reads line = (if line = ''a'' @ [LF] then Inr sample_event else Inl ''malformed'')"

definition stream_peer :: attestation where
  "stream_peer = Unclaimed\<lparr>at_by := ''peercred'', at_verified := True\<rparr>"

theorem connection_writes_every_line_witness:
  "handle Inr (\<lambda>k b. []) sample_reads \<lparr>sv_keyid = [], sv_key = None\<rparr> (\<lambda>_ r w. (w @ [length (lr_identity r)], None))
     stream_peer None (concat [''a'' @ [LF], ''b'' @ [LF], ''a'' @ [LF]] @ ''a'') [] = [2, 2]"
proof -
  have d: "decoded sample_reads ([''a'' @ [LF], ''b'' @ [LF], ''a'' @ [LF]] @ (if ''a'' = [] then [] else [''a'']))
      = [sample_event, sample_event]"
    by code_simp
  have a: "length (lr_identity (Accept Inr (\<lambda>k b. []) \<lparr>sv_keyid = [], sv_key = None\<rparr> sample_event stream_peer None)) = 2"
    by code_simp
  have l: "list_all one_line [''a'' @ [LF], ''b'' @ [LF], ''a'' @ [LF]]" "LF \<notin> set ''a''" by code_simp+
  show ?thesis unfolding connection_writes_every_line [OF l] d by (simp add: a)
qed

text \<open>A service that does not answer, and a file that exists.\<close>

definition sample_files :: file_system where
  "sample_files = \<lparr>fsys_mkdir = (\<lambda>_. None), fsys_create = (\<lambda>_. Exists), fsys_open = (\<lambda>_. Inr (''x'' @ [LF]))\<rparr>"

theorem configured_record_is_kept_witness:
  "\<exists>s' f'. chosen_write Inr broken_network (\<lambda>b. (length b, None)) sample_event (fst (LegacyAuto (\<lambda>_. ''/v'') sample_files))
      = (Forwards s' (Files f'), None)"
proof -
  let ?f = "OpenFileSink (''x'' @ [LF])"
  have op: "OpenFileSink_path sample_files ''/v'' = Inr ?f" by (simp add: OpenFileSink_path_def sample_files_def)
  obtain b where b: "Encode_record Inr sample_event = Inr b" using Encode_record_Inr [of Inr sample_event] by auto
  have l: "\<not> isl (file_line Inr (fs_max ?f) sample_event)" by code_simp
  from configured_record_is_kept [where env = "\<lambda>_. ''/v''", OF _ _ op sample_networks(2) b] obtain s' f' e where c:
    "chosen_write Inr broken_network (\<lambda>b. (length b, None)) sample_event (fst (LegacyAuto (\<lambda>_. ''/v'') sample_files))
      = (Forwards s' (Files f'), e)" "case e of None \<Rightarrow> True | Some x \<Rightarrow> isl (file_line Inr (fs_max ?f) sample_event)"
    by (fastforce split: option.splits)
  have "e = None" using c(2) l by (cases e) simp_all
  then show ?thesis using c(1) by blast
qed

end
