(* ===== verification/Log_Call.thy ===== *)
theory Log_Call
  imports Client_Sink Json_Record Service_Sink
begin

text \<open>
  The layers together, with the standard library's decoder in place: one call of the program's
  logger until the machine service's provider is given the record, one way (\<^verbatim>\<open>slog.go\<close>,
  \<^verbatim>\<open>client_handler.go\<close>, \<^verbatim>\<open>rec.go\<close>, \<^verbatim>\<open>service/service.go\<close>), and records on a
  connection until the receiving server's sink is (\<^verbatim>\<open>service.go\<close>).
\<close>

subsection \<open>Through the machine service\<close>

lemma sanitize_sanitize [simp]: "sanitize (sanitize s) = sanitize s"
  by (rule sanitize_valid [OF validUTF8_sanitize])

lemma read_provider_attestation: "read_attestation (provider_attestation (wire_attestation_of a)) = read_attestation a"
  by (simp add: read_attestation_def provider_attestation_def wire_attestation_of_def)

lemma fold_update_distinct:
  "distinct (map fst (m @ m')) \<Longrightarrow> fold (\<lambda>(k, x). AList.update k x) m' m = m @ m'"
proof (induction m' arbitrary: m)
  case (Cons e m')
  obtain k x where e: "e = (k, x)" by (cases e)
  have "AList.update k x m = m @ [(k, x)]" using Cons.prems e by (induction m) auto
  then show ?case using Cons.IH [of "m @ [(k, x)]"] Cons.prems e by simp
qed simp

text \<open>Attributes that are UTF-8 read as they are, in the writer's order.\<close>

lemma read_attrs_clean:
  assumes "utf8_map m" "distinct (map fst m)"
  shows "read_attrs m = sorted_map m"
proof -
  have "(case e of (k, x) \<Rightarrow> AList.update (sanitize k) (sanitize x)) = (case e of (k, x) \<Rightarrow> AList.update k x)"
    if "e \<in> set (sorted_map m)" for e
    using that utf8_sorted_map [OF assms(1)] by (auto simp: utf8_map_def list_all_iff sanitize_valid)
  then have "read_attrs m = fold (\<lambda>(k, x). AList.update k x) (sorted_map m) []"
    unfolding read_attrs_def by (intro fold_cong) auto
  also have "\<dots> = sorted_map m"
    using fold_update_distinct [of "[]" "sorted_map m"] assms(2)
    by (simp add: sorted_map_keys sortedKeys_distinct)
  finally show ?thesis .
qed

text \<open>What the service decodes is the record the program's handler made.\<close>

definition as_stored :: "'t \<Rightarrow> 't log_record \<Rightarrow> 't log_record" where
  "as_stored t r =
     \<lparr>lr_schema = SchemaVersion, lr_time = t, lr_level = lr_level r, lr_msg = sanitize (lr_msg r),
      lr_identity = map read_attestation (lr_identity r), lr_job = sanitize (lr_job r),
      lr_attrs = sorted_map (read_attrs (lr_attrs r))\<rparr>"

lemma stored_as_record:
  assumes "lr_schema r = SchemaVersion"
  shows "read_record t (provider_record t (canonical (wire_of ts r))) = as_stored t r"
proof -
  let ?m = "sorted_map (read_attrs (lr_attrs r))"
  have "utf8_map ?m" by (rule utf8_sorted_map) (rule read_attrs_facts)
  moreover have "distinct (map fst ?m)" by (simp add: sorted_map_keys sortedKeys_distinct read_attrs_facts)
  ultimately have "read_attrs ?m = ?m"
    using read_attrs_clean sorted_map_sorted by metis
  then show ?thesis using assms
    by (simp add: read_record_def provider_record_def canonical_def wire_of_def as_stored_def SchemaVersion_def
        read_provider_attestation comp_def)
qed

definition the_peer :: "receiver \<Rightarrow> string \<Rightarrow> user_fact \<Rightarrow> i64 \<Rightarrow> bool" where
  "the_peer rv path who pid \<longleftrightarrow>
     (\<exists>facts. rc_peer rv 0 = Inr facts \<and> pf_path facts = Inr path \<and> pf_user facts = Inr who \<and> pf_process facts = Inr pid)"

lemma handled_is_stored:
  assumes schema: "lr_schema r = SchemaVersion" and ts: "stamp_ok ts"
    and tu: "TU (esc [] (normalizedTimestamp ts)) t0 = Some t" and peer: "the_peer rv path who caller"
  shows "receiver_Write T H (Unmarshal TU t0 E) os rv out st (canonical (wire_of ts r)) =
    (case out_write out (Accept T H \<lparr>sv_keyid = [], sv_key = None\<rparr> (as_stored t r) (observed_peer os path who caller) None) st of
       (st', err) \<Rightarrow> (st', sink_call err))"
proof -
  let ?v = "canonical (wire_of ts r)"
  have clean: "writable (wire_of ts r)" using wire_of_clean [of ts r] ts schema by (simp add: SchemaVersion_def)
  obtain line where line: "Encode ?v = Inr line"
    using Encode_text [of ?v] unfolding if_P [OF writable_canonical [OF clean]] by blast
  have "normalizedTimestamp (wr_time ?v) = normalizedTimestamp ts"
    unfolding canonical_fields by (simp only: wire_of_def wire_record.simps)
  then have "TU (esc [] (normalizedTimestamp (wr_time ?v))) t0 = Some t" using tu by (simp only:)
  then have "DecodeRecord (Unmarshal TU t0 E) line = Inr (as_stored t r)"
    using DecodeRecord_wire [OF line, of TU t0 t E] stored_as_record [OF schema, of t ts] by (simp only:)
  then show ?thesis using line peer by (auto simp: receiver_Write_def the_peer_def Let_def)
qed

text \<open>
  A one-way submission to the service.  The frame transport of the identity module answers whether the
  frame arrives and is admitted there, and what the client is told of the submission, which is no
  answer of the service: after a time-out the one does not follow from the other.  Beside the
  provider's world stands what the service's operator was told.
\<close>

definition one_way ::
  "(string \<Rightarrow> bool \<times> wire_error option) \<Rightarrow> bool \<Rightarrow> (nat \<times> 'w \<Rightarrow> string \<Rightarrow> (nat \<times> 'w) \<times> served)
    \<Rightarrow> (nat \<times> 'w) \<times> wire_error list \<Rightarrow> string \<Rightarrow> ((nat \<times> 'w) \<times> wire_error list) \<times> unit call" where
  "one_way ipc closing serve st request =
     ((if fst (ipc request) then (case serve (fst st) request of (w', x) \<Rightarrow> (w', snd st @ reported closing x)) else st),
      (case snd (ipc request) of None \<Rightarrow> Done () | Some e \<Rightarrow> Fails e))"

text \<open>The frame in which a client writes a record.\<close>

definition write_frame :: "wire_record \<Rightarrow> string" where
  "write_frame v = encOAServiceFrame []
     \<lparr>sf_version = 1, sf_service = sink_service, sf_method = ''Write'', sf_arguments = sink_args_text 1 \<lparr>sa_record = v\<rparr>\<rparr> 0"

lemma write_frame_payload:
  assumes "utf8_record v" "writable v" "map_record v"
  shows "servicePayload (write_frame v) = Inr
    \<lparr>sf_version = 1, sf_service = sink_service, sf_method = ''Write'', sf_arguments = sink_args_text 1 \<lparr>sa_record = v\<rparr>\<rparr>"
  using servicePayload_text [of "\<lparr>sf_version = 1, sf_service = sink_service, sf_method = ''Write'',
      sf_arguments = sink_args_text 1 \<lparr>sa_record = v\<rparr>\<rparr>" 4] skips_sink_args [of "\<lparr>sa_record = v\<rparr>" 1] assms
  by (simp add: write_frame_def)

lemma client_sends:
  assumes "utf8_record v" "writable v" "map_record v"
  shows "SinkClient_Write transport s v = recovered (transport s (write_frame v))"
  using write_frame_payload [OF assms] encOASinkWriteArguments_text [of "\<lparr>sa_record = v\<rparr>" "[]" 1] assms
  by (simp add: SinkClient_Write_def Let_def write_frame_def)

lemma service_receives:
  assumes "utf8_record v" "writable v" "map_record v"
  shows "serve_frame T H U os reply_to rv out st (write_frame v) =
    (case receiver_Write T H U os rv out st (canonical v) of
       (st', Done x) \<Rightarrow> (st', Served None None)
     | (st', Fails e) \<Rightarrow> (st', Served None (Some e))
     | (st', Panics e) \<Rightarrow> (st', Crashed e))"
proof -
  have "SinkDispatcher_WriteFrame (receiver_Write T H U os rv out) st (write_frame v) =
      receiver_Write T H U os rv out st (canonical v)"
    using write_frame_payload [OF assms] sink_arguments_back [OF assms]
    by (simp add: SinkDispatcher_WriteFrame_def)
  then show ?thesis using write_frame_payload [OF assms] by (simp add: serve_frame_def ServiceName_def)
qed

text \<open>
  C2: A call of a program's logger whose handler writes to the machine service sends one frame, and
  returns what its transport says of the submission and nothing the service or its provider answers.
  If the frame arrives, the provider is given exactly one record: the handler's message, level, job and
  attributes as UTF-8, the writer's claim as the first hop and as the second what the platform said of
  the calling process, whatever codec, envelope and decoder lie between; and an error of the provider
  is told to the service's operator.  If it does not arrive, nothing changes there.  The instant's
  text has to be a timestamp the codec can spell, and to be read again.
\<close>

theorem logged_record_reaches_provider:
  assumes ts: "T (lr_time (handled host pid At zero now h r)) = Inr ts" "stamp_ok ts"
    and tu: "TU (esc [] (normalizedTimestamp ts)) t0 = Some t"
    and sink: "hd_sink h = With_context (clientSink_WriteContext T
        (one_way ipc closing (serve_frame T H (Unmarshal TU t0 E) os reply_to rv out)))"
    and peer: "the_peer rv path who caller"
    and request: "request = write_frame (wire_of ts (handled host pid At zero now h r))"
  shows "Handle host pid At zero now h None r (st, told) =
    ((if fst (ipc request) then
        (case out_write out
            (Accept T H \<lparr>sv_keyid = [], sv_key = None\<rparr> (as_stored t (handled host pid At zero now h r))
              (observed_peer os path who caller) None) st of
           (st', err) \<Rightarrow> (st', told @ (case sink_call err of Fails e \<Rightarrow> (if closing then [] else [e]) | _ \<Rightarrow> [])))
      else (st, told)),
     (case snd (ipc request) of None \<Rightarrow> Done () | Some e \<Rightarrow> Fails e))"
proof -
  let ?r = "handled host pid At zero now h r"
  let ?w = "wire_of ts ?r" and ?serve = "serve_frame T H (Unmarshal TU t0 E) os reply_to rv out"
  have schema: "lr_schema ?r = SchemaVersion" by (simp add: handled_def Let_def)
  have clean: "utf8_record ?w" "writable ?w" "map_record ?w"
    using wire_of_clean [of ts ?r] ts(2) schema by (simp_all add: SchemaVersion_def)
  have op: "receiver_Write T H (Unmarshal TU t0 E) os rv out st (canonical ?w) =
      (case out_write out (Accept T H \<lparr>sv_keyid = [], sv_key = None\<rparr> (as_stored t ?r) (observed_peer os path who caller) None) st of
         (st', err) \<Rightarrow> (st', sink_call err))"
    by (rule handled_is_stored [where TU = TU and ts = ts and t = t and rv = rv, OF schema ts(2) tu peer])
  obtain line where line: "Encode_record T ?r = Inr line" using ts(1) schema by (simp add: Encode_record_def Let_def SchemaVersion_def)
  have "Decode line = Inr ?w" using json_line_read [OF line ts] schema by (simp add: SchemaVersion_def)
  then have h: "Handle host pid At zero now h None r (st, told) = recovered (one_way ipc closing ?serve (st, told) request)"
    using sink line client_sends [OF clean] request
    by (simp add: Handle_def Let_def clientSink_WriteContext_def Client_WriteContext_def)
  have "recovered (one_way ipc closing ?serve (st, told) request) = one_way ipc closing ?serve (st, told) request"
    by (simp add: one_way_def split: option.split)
  then show ?thesis
    using h op service_receives [OF clean, of T H "Unmarshal TU t0 E" os reply_to rv out st] request
    by (auto simp: one_way_def reported_def split: prod.split call.split option.split)
qed


subsection \<open>Over a connection\<close>

text \<open>
  C3: Records of this schema (or of none) that a program encodes and sends down a connection are what
  the receiving server's sink is given, if it can read the text of their instants: each once, in order, with the same schema, level, job, message, attributes and chain (as
  UTF-8), and stamped with what the kernel said of the peer.
\<close>

theorem sent_records_arrive:
  assumes sent: "list_all2 (\<lambda>r l. Encode_record T r = Inr l) rs ls"
    and ok: "\<forall>r \<in> set rs. (lr_schema r = 0 \<or> lr_schema r = SchemaVersion)
      \<and> (\<exists>ts. T (lr_time r) = Inr ts \<and> TU (json_string True ts) t0 = Some (instant r))"
  shows "handle T H (Unmarshal TU t0 E) sv out peer perr (concat ls) w =
    write_all (out peer)
      (map (\<lambda>r. Accept T H sv (read_record (instant r) (r\<lparr>lr_schema := SchemaVersion\<rparr>)) peer perr) rs) w"
proof -
  have l: "list_all one_line ls"
    using sent by (induction rs ls rule: list_all2_induct) (auto intro: Encode_record_one_line)
  have "DecodeRecord (Unmarshal TU t0 E) l = Inr (read_record (instant r) (r\<lparr>lr_schema := SchemaVersion\<rparr>))"
    if "r \<in> set rs" "Encode_record T r = Inr l" for r l
    using bspec [OF ok that(1)] that(2) DecodeRecord_encoded [of T r _ TU t0 "instant r" E] by fastforce
  then have "list_all2 (\<lambda>r l. DecodeRecord (Unmarshal TU t0 E) l
      = Inr (read_record (instant r) (r\<lparr>lr_schema := SchemaVersion\<rparr>))) rs ls"
    using sent by (auto elim!: list.rel_mono_strong)
  then have "decoded (Unmarshal TU t0 E) ls = map (\<lambda>r. read_record (instant r) (r\<lparr>lr_schema := SchemaVersion\<rparr>)) rs"
    by (induction rs ls rule: list_all2_induct) (simp_all add: decoded_def)
  then show ?thesis
    using stream_lines_all [OF l, of "[]"]
      fold_decoded [where U = "Unmarshal TU t0 E" and f = "out peer" and g = "\<lambda>r. Accept T H sv r peer perr" and ls = ls and w = w]
    by (simp add: handle_def handle_lines_fold comp_def)
qed


subsection \<open>Witnesses\<close>

definition seen :: "string log_record \<Rightarrow> string log_record list \<Rightarrow> string log_record list \<times> sink_error option" where
  "seen r w = (w @ [r], None)"

text \<open>A provider whose disk is full: the program's call succeeds, and the operator is told.\<close>

definition full_disk :: "(string, nat \<times> string list) provider" where
  "full_disk = \<lparr>out_write = (\<lambda>r (k, w). ((k, w @ [lr_msg r]), Some (SystemError ''disk full''))), out_read = None, out_observe = None\<rparr>"

definition to_service :: "(wire_error option, string, (nat \<times> string list) \<times> wire_error list, unit call) handler" where
  "to_service = NewClientHandler Inr (one_way (\<lambda>b. (True, None)) False (serve_frame Inr (\<lambda>k b. b)
     (Unmarshal (\<lambda>raw t. Some raw) [] (\<lambda>l. ''bad'')) ''linux'' (\<lambda>b. None) (anns_call ''1000'') full_disk)) None"

definition hello :: "string slog_record" where
  "hello = \<lparr>sr_time = [], sr_level = 4, sr_message = ''hello'', sr_attrs = [Scalar ''k'' ''v'']\<rparr>"

theorem logged_record_reaches_provider_witness:
  "Handle ''h'' 7 (\<lambda>t. t) (\<lambda>t. t = []) ''2026-05-01T10:00:00Z'' to_service None hello ((0, []), []) =
    (((0, [''hello'']), [HandlerError ''disk full'']), Done ())"
proof -
  let ?r = "handled ''h'' 7 (\<lambda>t. t) (\<lambda>t. t = []) ''2026-05-01T10:00:00Z'' to_service hello"
  have ts: "stamp_ok ''2026-05-01T10:00:00Z''" by code_simp
  have t: "Inr (lr_time ?r) = Inr ''2026-05-01T10:00:00Z''" by (simp add: handled_def hello_def Let_def)
  have sink: "hd_sink to_service = With_context (clientSink_WriteContext Inr (one_way (\<lambda>b. (True, None)) False (serve_frame Inr (\<lambda>k b. b)
      (Unmarshal (\<lambda>raw t. Some raw) [] (\<lambda>l. ''bad'')) ''linux'' (\<lambda>b. None) (anns_call ''1000'') full_disk)))"
    by (simp add: to_service_def NewClientHandler_def NewHandler_def)
  have peer: "the_peer (anns_call ''1000'') ''/usr/bin/app'' \<lparr>uf_kind = ''posix'', uf_sid = [], uf_uid = 1000, uf_gid = 1000\<rparr> 42"
    by (simp add: the_peer_def anns_call_def ann_def)
  have "validUTF8 ''hello''" by code_simp
  then have "sanitize ''hello'' = ''hello''" by (rule sanitize_valid)
  then have "lr_msg (Accept Inr (\<lambda>k b. b) \<lparr>sv_keyid = [], sv_key = None\<rparr> (as_stored x ?r) p None) = ''hello''" for x p
    using Accept_service [of Inr "\<lambda>k b. b" "as_stored x ?r" p, unfolded Let_def]
    by (simp add: as_stored_def handled_def hello_def Let_def del: sanitize.simps)
  then show ?thesis
    using logged_record_reaches_provider [where TU = "\<lambda>raw t. Some raw" and ?t0.0 = "[]" and T = Inr, OF t ts refl sink peer refl,
        of "(0, [])" "[]"]
    by (simp add: full_disk_def sink_call_def)
qed

theorem sent_records_arrive_witness:
  "\<exists>l. Encode_record Inr submitted = Inr l \<and>
    handle Inr (\<lambda>k b. b) (Unmarshal (\<lambda>raw t. Some (tl (butlast raw))) [] (\<lambda>l. ''bad'')) \<lparr>sv_keyid = [], sv_key = None\<rparr>
        (\<lambda>peer. seen) no_attestation None (concat [l]) [] =
      write_all seen (map (\<lambda>r. Accept Inr (\<lambda>k b. b) \<lparr>sv_keyid = [], sv_key = None\<rparr>
        (read_record (tl (butlast (json_string True (lr_time r)))) (r\<lparr>lr_schema := SchemaVersion\<rparr>)) no_attestation None) [submitted]) []"
proof -
  obtain l where "Encode_record Inr submitted = Inr l" by (simp add: Encode_record_def submitted_def)
  moreover from this have "list_all2 (\<lambda>r l. Encode_record Inr r = Inr l) [submitted] [l]" by simp
  note sent_records_arrive [OF this, where TU = "\<lambda>raw t. Some (tl (butlast raw))" and ?t0.0 = "[]" and E = "\<lambda>l. ''bad''"
      and instant = "\<lambda>r. tl (butlast (json_string True (lr_time r)))" and H = "\<lambda>k b. b"
      and sv = "\<lparr>sv_keyid = [], sv_key = None\<rparr>" and out = "\<lambda>peer. seen" and peer = no_attestation and perr = None and w = "[]"]
  ultimately show ?thesis by (simp add: submitted_def SchemaVersion_def)
qed

end
