(* ===== verification/Replay.thy ===== *)
theory Replay
  imports Log_Call
begin

text \<open>
  The bench driver \<^verbatim>\<open>go/cmd/replay/main.go\<close>, its operations on records: what a writer, a
  forger, a receiving service and the wire do to one record, and what an assessor then says of it.
  A world is what the driver keeps between two lines of a script.
\<close>

subsection \<open>The world\<close>

text \<open>
  \<open>st_file\<close> is the path of the file a sink has, itself or below it.  \<open>rp_files\<close> holds the files by path, \<open>rp_env\<close> the two environment variables, \<open>rp_listening\<close> the
  addresses somebody accepts on, \<open>rp_served\<close> how many records each benched service handed over.
\<close>

record sink_state =
  st_sink :: chosen
  st_file :: string
  st_served :: "nat option"

record 't replay =
  rp_records :: "(string \<times> 't log_record) list"
  rp_anchors :: "(string \<times> attestation) list"
  rp_sinks :: "(string \<times> sink_state) list"
  rp_env :: strings
  rp_files :: strings
  rp_listening :: "string list"
  rp_server :: "string option"
  rp_served :: "i64 list"
  rp_current :: "nat option"
  rp_n :: nat

text \<open>
  What the machine and other modules answer: the instant's text and its reading, the keyed hash, the
  text of a decoding error, host name and process, the working directory (a clean path), the
  network given who listens, whether an address can be listened on, what an append puts into a file,
  whether the next record a service was sent arrives within five seconds (by service and by how many
  came before), the permission bits of a path, and how many bytes the runtime gives one slice.
\<close>

record 't bench =
  bn_T :: "'t \<Rightarrow> wire_error + string"
  bn_TU :: "string \<Rightarrow> 't \<Rightarrow> 't option"
  bn_zero :: 't
  bn_H :: "string \<Rightarrow> string \<Rightarrow> string"
  bn_E :: "string \<Rightarrow> string"
  bn_epoch :: 't
  bn_host :: string
  bn_pid :: i64
  bn_work :: string
  bn_network :: "string list \<Rightarrow> network"
  bn_listens :: "string \<Rightarrow> bool"
  bn_append :: "string \<Rightarrow> nat \<times> string option"
  bn_arrives :: "nat \<Rightarrow> i64 \<Rightarrow> bool"
  bn_perm :: "string \<Rightarrow> 32 word option"
  bn_room :: nat

definition operatorKey :: string where "operatorKey = ''operator-installed-relay-key''"

definition bench_policy :: policy where
  "bench_policy = \<lparr>po_relay = Some (\<lambda>a. at_exe a = ''/usr/bin/relay''), po_keys = [''k1'' \<mapsto> operatorKey]\<rparr>"

text \<open>What one line of a script answers; the driver may also end in a run-time panic.\<close>

datatype step_result = Says string | Panicked

type_synonym 't operation = "'t replay \<Rightarrow> step_result \<times> 't replay"

subsection \<open>Arguments\<close>

definition arg :: "string list \<Rightarrow> nat \<Rightarrow> string" where
  "arg f i = (if i < length f then f ! i else [])"

definition has_flag :: "string list \<Rightarrow> string \<Rightarrow> bool" where
  "has_flag f flag \<longleftrightarrow> flag \<in> set (drop 1 f)"

definition Atoi :: "string \<Rightarrow> i64 option" where
  "Atoi s =
     (let neg = (take 1 s = ''-''); ds = (if neg \<or> take 1 s = ''+'' then drop 1 s else s);
          n = (if neg then - int (digits_value 0 ds) else int (digits_value 0 ds))
      in if list_all is_digit ds \<and> ds \<noteq> [] \<and> - (2 ^ 63) \<le> n \<and> n < 2 ^ 63 then Some (word_of_int n) else None)"

definition Join :: "string \<Rightarrow> string \<Rightarrow> string" where
  "Join dir name = dir @ ''/'' @ name"

definition joined_by :: "string \<Rightarrow> string list \<Rightarrow> string" where
  "joined_by sep xs = (case xs of [] \<Rightarrow> [] | y # ys \<Rightarrow> y @ concat (map (\<lambda>x. sep @ x) ys))"

text \<open>
  \<^verbatim>\<open>strings.Repeat\<close> panics on a negative count, on a result longer than an \<^verbatim>\<open>int\<close> can say, and on one
  longer than the runtime makes a slice; \<open>room\<close> is that length.
\<close>

definition Repeat :: "nat \<Rightarrow> string \<Rightarrow> i64 \<Rightarrow> string option" where
  "Repeat room s n =
     (if sint n = 0 then Some []
      else if sint n = 1 then Some s
      else if sint n < 0 \<or> int (length s) * sint n \<ge> 2 ^ 63 \<or> int (length s) * sint n > int room then None
      else Some (concat (replicate (nat (sint n)) s)))"

subsection \<open>A writer's record\<close>

definition record_of :: "'t replay \<Rightarrow> string \<Rightarrow> 't log_record option" where
  "record_of p name = map_of (rp_records p) name"

definition anchor_of :: "'t replay \<Rightarrow> string \<Rightarrow> attestation option" where
  "anchor_of p name = map_of (rp_anchors p) name"

definition put_record :: "string \<Rightarrow> 't log_record \<Rightarrow> 't replay \<Rightarrow> 't replay" where
  "put_record name r p = p\<lparr>rp_records := AList.update name r (rp_records p)\<rparr>"

definition drop_anchor :: "string \<Rightarrow> 't replay \<Rightarrow> 't replay" where
  "drop_anchor name p = p\<lparr>rp_anchors := AList.delete name (rp_anchors p)\<rparr>"

definition hello_record :: "'t bench \<Rightarrow> i64 \<Rightarrow> 't log_record" where
  "hello_record b l =
     \<lparr>lr_schema = SchemaVersion, lr_time = bn_epoch b, lr_level = l, lr_msg = ''hello'',
      lr_identity = [Claim (bn_host b) (bn_pid b) ''replay''], lr_job = [], lr_attrs = []\<rparr>"

definition op_level_of :: "string list \<Rightarrow> 't operation" where
  "op_level_of f p =
     (case Atoi (arg f 1) of
        None \<Rightarrow> (Says ''invalid'', p)
      | Some n \<Rightarrow> (Says (''ok name='' @ Level_String n), p))"

definition op_record :: "'t bench \<Rightarrow> string list \<Rightarrow> 't operation" where
  "op_record b f p =
     (case Atoi (arg f 2) of
        None \<Rightarrow> (Says ''invalid'', p)
      | Some n \<Rightarrow>
          (if arg f 1 = [] \<or> (arg f 3 \<noteq> [] \<and> arg f 3 \<noteq> ''bare'') \<or> length f > 4 then (Says ''invalid'', p)
           else
             let r = hello_record b n; r = (if arg f 3 = ''bare'' then r\<lparr>lr_identity := []\<rparr> else r)
             in (Says (''ok schema='' @ decimal (lr_schema r)), drop_anchor (arg f 1) (put_record (arg f 1) r p))))"

definition op_attr :: "string list \<Rightarrow> 't operation" where
  "op_attr f p =
     (case record_of p (arg f 1) of
        None \<Rightarrow> (Says ''invalid'', p)
      | Some r \<Rightarrow>
          (if arg f 3 = [] then (Says ''invalid'', p)
           else (Says ''ok'', put_record (arg f 1) (r\<lparr>lr_attrs := AList.update (arg f 2) (arg f 3) (lr_attrs r)\<rparr>) p)))"

text \<open>The attribute goes through the handler, whose sink only keeps the record it is given.\<close>

definition viaHandler :: "'t bench \<Rightarrow> 't log_record \<Rightarrow> string \<Rightarrow> string \<Rightarrow> string \<Rightarrow> step_result \<times> 't log_record" where
  "viaHandler b r name key val =
     (let h = WithGroup name (NewHandler (Plain (\<lambda>x got. (x, None :: sink_error option))) None);
          rec = \<lparr>sr_time = bn_epoch b, sr_level = LevelInfo, sr_message = ''x'', sr_attrs = [Scalar key val]\<rparr>
      in case Handle (bn_host b) (bn_pid b) (\<lambda>t. t) (\<lambda>t. False) (bn_epoch b) h () rec (empty_record (bn_zero b)) of
           (got, Some e) \<Rightarrow> (Says ''invalid'', r)
         | (got, None) \<Rightarrow> (Says ''ok'', r\<lparr>lr_attrs := fold (\<lambda>(k, v). AList.update k v) (lr_attrs got) (lr_attrs r)\<rparr>))"

definition op_group :: "'t bench \<Rightarrow> string list \<Rightarrow> 't operation" where
  "op_group b f p =
     (case record_of p (arg f 1) of
        None \<Rightarrow> (Says ''invalid'', p)
      | Some r \<Rightarrow>
          (if arg f 4 = [] then (Says ''invalid'', p)
           else case viaHandler b r (arg f 2) (arg f 3) (arg f 4) of (x, r') \<Rightarrow> (x, put_record (arg f 1) r' p)))"

definition op_msg :: "'t bench \<Rightarrow> string list \<Rightarrow> 't operation" where
  "op_msg b f p =
     (case record_of p (arg f 1) of
        None \<Rightarrow> (Says ''invalid'', p)
      | Some r \<Rightarrow>
          (case Atoi (arg f 2) of
             None \<Rightarrow> (Says ''invalid'', p)
           | Some n \<Rightarrow>
               (case Repeat (bn_room b) (if has_flag f ''wide'' then [CHR 0xC3, CHR 0xA9] else ''x'') n of
                  None \<Rightarrow> (Panicked, p)
                | Some s \<Rightarrow> (Says ''ok'', put_record (arg f 1) (r\<lparr>lr_msg := s\<rparr>) p))))"

definition op_job_of :: "'t bench \<Rightarrow> string list \<Rightarrow> 't operation" where
  "op_job_of b f p =
     (case record_of p (arg f 1) of
        None \<Rightarrow> (Says ''invalid'', p)
      | Some r \<Rightarrow>
          (case Atoi (arg f 2) of
             None \<Rightarrow> (Says ''invalid'', p)
           | Some n \<Rightarrow>
               (case Repeat (bn_room b) ''x'' n of
                  None \<Rightarrow> (Panicked, p)
                | Some s \<Rightarrow> (Says ''ok'', put_record (arg f 1) (r\<lparr>lr_job := s\<rparr>) p))))"

definition op_read :: "string list \<Rightarrow> 't operation" where
  "op_read f p =
     (case record_of p (arg f 1) of
        None \<Rightarrow> (Says ''invalid'', p)
      | Some r \<Rightarrow>
          (case map_of (lr_attrs r) (arg f 2) of
             None \<Rightarrow> (Says ''no-answer absent'', p)
           | Some v \<Rightarrow> (Says (''ok type=string value='' @ v), p)))"

definition op_keys :: "string list \<Rightarrow> 't operation" where
  "op_keys f p =
     (case record_of p (arg f 1) of
        None \<Rightarrow> (Says ''invalid'', p)
      | Some r \<Rightarrow>
          (if lr_attrs r = [] then (Says ''ok -'', p)
           else (Says (''ok '' @ joined_by '','' (sortedKeys (lr_attrs r))), p)))"


subsection \<open>The line a record becomes\<close>

text \<open>The three fields \<^verbatim>\<open>shape\<close> reads back from a line.\<close>

record wire_shape =
  ws_schema :: i64
  ws_level :: i64
  ws_time :: string

definition shape_member :: "string \<Rightarrow> string \<Rightarrow> json \<Rightarrow> wire_shape \<Rightarrow> wire_shape option" where
  "shape_member k raw x v =
     (case field_named [''schema'', ''level'', ''time''] k of
        None \<Rightarrow> Some v
      | Some n \<Rightarrow>
          (if n = ''schema'' then map_option (\<lambda>y. v\<lparr>ws_schema := y\<rparr>) (store_int x (ws_schema v))
           else if n = ''level'' then map_option (\<lambda>y. v\<lparr>ws_level := y\<rparr>) (store_int x (ws_level v))
           else map_option (\<lambda>y. v\<lparr>ws_time := y\<rparr>) (store_string x (ws_time v))))"

definition read_shape :: "string \<Rightarrow> wire_shape option" where
  "read_shape line =
     (case json_parse line of
        None \<Rightarrow> None
      | Some x \<Rightarrow> store_object shape_member x \<lparr>ws_schema = 0, ws_level = 0, ws_time = []\<rparr>)"

definition TrimSuffix :: "string \<Rightarrow> string" where
  "TrimSuffix line = (if line \<noteq> [] \<and> last line = LF then butlast line else line)"

text \<open>The digits after the last point of the time, and what follows them.\<close>

definition fraction_zone :: "string \<Rightarrow> nat \<times> string" where
  "fraction_zone t =
     (if CHR ''.'' \<in> set t then
        (let after = rev (takeWhile (\<lambda>c. c \<noteq> CHR ''.'') (rev t));
             frac = length (takeWhile is_digit after)
         in (frac, if frac < length after then drop frac after else ''-''))
      else (0, ''-''))"

definition shape :: "'t bench \<Rightarrow> 't log_record \<Rightarrow> string" where
  "shape b r =
     (case Encode_record (bn_T b) r of
        Inl e \<Rightarrow> ''invalid''
      | Inr line \<Rightarrow>
          (let ending = (if line \<noteq> [] \<and> last line = LF then ''lf'' else ''none'');
               lines = length (filter (\<lambda>c. c = LF) line)
           in case read_shape (TrimSuffix line) of
                None \<Rightarrow> ''invalid''
              | Some w \<Rightarrow>
                  (let (frac, zone) = fraction_zone (ws_time w)
                   in ''ok schema='' @ decimal (ws_schema w) @ '' level='' @ decimal (ws_level w) @ '' frac='' @ Itoa frac
                      @ '' zone='' @ zone @ '' lines='' @ Itoa lines @ '' end='' @ ending)))"

definition op_encode :: "'t bench \<Rightarrow> string list \<Rightarrow> 't operation" where
  "op_encode b f p =
     (case record_of p (arg f 1) of
        None \<Rightarrow> (Says ''invalid'', p)
      | Some r \<Rightarrow> (Says (shape b r), p))"

definition decode_text :: "i64 \<Rightarrow> string" where
  "decode_text n =
     ''{'' @ joined [json_field True ''schema'' (decimal n), json_field True ''time'' (json_string True ''1970-01-01T00:00:00.000000Z''),
       json_field True ''level'' ''0'', json_field True ''msg'' (json_string True ''x'')] @ ''}''"

definition bench_decode :: "'t bench \<Rightarrow> string \<Rightarrow> string + 't log_record" where
  "bench_decode b = DecodeRecord (Unmarshal (bn_TU b) (bn_zero b) (bn_E b))"

definition op_decode :: "'t bench \<Rightarrow> string list \<Rightarrow> 't operation" where
  "op_decode b f p =
     (case Atoi (arg f 1) of
        None \<Rightarrow> (Says ''invalid'', p)
      | Some n \<Rightarrow>
          (case bench_decode b (decode_text n) of
             Inl e \<Rightarrow> (Says (''refused schema='' @ decimal n), p)
           | Inr r \<Rightarrow> (Says ''ok'', p)))"

subsection \<open>On its way\<close>

definition first_claim :: "'t log_record \<Rightarrow> attestation" where
  "first_claim r = (case Identity_Claimed (lr_identity r) of None \<Rightarrow> no_attestation | Some a \<Rightarrow> a)"

definition forged :: "'t bench \<Rightarrow> string \<Rightarrow> bool \<Rightarrow> 't log_record \<Rightarrow> 't log_record" where
  "forged b mech bind r =
     (let hop = length (lr_identity r);
          stamp = \<lparr>at_by = mech, at_verified = True, at_hop = of_nat hop, at_program = [], at_host = at_host (first_claim r),
            at_user = ''root'', at_exe = ''/sbin/init'', at_uid = 0, at_gid = 0, at_pid = 1, at_key = [], at_mac = []\<rparr>;
          r1 = r\<lparr>lr_identity := lr_identity r @ [stamp]\<rparr>
      in if bind then fst (Bind (bn_T b) (bn_H b) r1 hop ''k1'' ''a key the forger made up'') else r1)"

definition op_forge :: "'t bench \<Rightarrow> string list \<Rightarrow> 't operation" where
  "op_forge b f p =
     (case record_of p (arg f 1) of
        None \<Rightarrow> (Says ''invalid'', p)
      | Some r \<Rightarrow>
          (if arg f 2 = [] then (Says ''invalid'', p)
           else (Says ''ok'', put_record (arg f 1) (forged b (arg f 2) (has_flag f ''bind'') r) p)))"

text \<open>
  The record as the service sink hands it to its fallback, encoded and decoded again; the sink's
  own connection is closed when the operation ends.
\<close>

definition send_record :: "'t bench \<Rightarrow> 't replay \<Rightarrow> 't log_record \<Rightarrow> string + 't log_record" where
  "send_record b p r =
     (let s = NewServiceSink (Join (bn_work b) ''nobody-listens.sock'')
      in case ServiceSink_Write (bn_T b) (bn_network b (rp_listening p)) (\<lambda>x handed. (x, None)) r (s, empty_record (bn_zero b)) of
           (_, Some e) \<Rightarrow> Inl ''refused''
         | ((_, handed), None) \<Rightarrow>
             (case Encode_record (bn_T b) handed of
                Inl e \<Rightarrow> Inl ''invalid''
              | Inr line \<Rightarrow>
                  (case bench_decode b (TrimSuffix line) of
                     Inl e \<Rightarrow> Inl ''refused''
                   | Inr back_again \<Rightarrow> Inr back_again)))"

definition op_send :: "'t bench \<Rightarrow> string list \<Rightarrow> 't operation" where
  "op_send b f p =
     (case record_of p (arg f 1) of
        None \<Rightarrow> (Says ''invalid'', p)
      | Some r \<Rightarrow>
          (case send_record b p r of
             Inl e \<Rightarrow> (Says e, p)
           | Inr r' \<Rightarrow> (Says ''ok'', drop_anchor (arg f 1) (put_record (arg f 1) r' p))))"

definition bench_server :: "bool \<Rightarrow> server" where
  "bench_server bind = (if bind then \<lparr>sv_keyid = ''k1'', sv_key = Some operatorKey\<rparr> else \<lparr>sv_keyid = [], sv_key = None\<rparr>)"

definition benched_peer :: "string \<Rightarrow> bool \<Rightarrow> bool \<Rightarrow> 't log_record \<Rightarrow> attestation" where
  "benched_peer mech contradicts relayed r =
     (let claim = first_claim r; hop = length (lr_identity r);
          peer = \<lparr>at_by = mech, at_verified = True, at_hop = 0, at_program = [], at_host = at_host claim, at_user = ''w'',
            at_exe = ''/usr/bin/w'', at_uid = 1000, at_gid = 1000, at_pid = at_pid claim, at_key = [], at_mac = []\<rparr>;
          peer = (if hop > 1 then peer\<lparr>at_exe := ''/usr/bin/forwarder'', at_pid := at_pid claim + of_nat hop\<rparr> else peer);
          peer = (if relayed then peer\<lparr>at_exe := ''/usr/bin/relay'', at_uid := 0\<rparr> else peer)
      in if contradicts then peer\<lparr>at_host := ''elsewhere'', at_pid := at_pid claim + 1\<rparr> else peer)"

definition nothing_answered :: string where
  "nothing_answered = ''benched: the platform'' @ [CHR 0x27] @ ''s attester answered nothing''"

definition op_attest :: "'t bench \<Rightarrow> string list \<Rightarrow> 't operation" where
  "op_attest b f p =
     (case record_of p (arg f 1) of
        None \<Rightarrow> (Says ''invalid'', p)
      | Some r \<Rightarrow>
          (if arg f 2 = [] then (Says ''invalid'', p)
           else
             let sv = bench_server (has_flag f ''bind'') in
             if arg f 2 = ''none'' then
               (Says ''ok'', drop_anchor (arg f 1) (put_record (arg f 1)
                  (Accept (bn_T b) (bn_H b) sv r no_attestation (Some nothing_answered)) p))
             else
               let r' = Accept (bn_T b) (bn_H b) sv r
                     (benched_peer (arg f 2) (has_flag f ''contradicts'') (has_flag f ''relay'') r) None;
                   p' = put_record (arg f 1) r' p
               in if lr_identity r' = [] then (Panicked, p')
                  else (Says ''ok'', p'\<lparr>rp_anchors := AList.update (arg f 1) (last (lr_identity r')) (rp_anchors p')\<rparr>)))"

subsection \<open>What an assessor says\<close>

definition assessed :: "'t bench \<Rightarrow> 't replay \<Rightarrow> string \<Rightarrow> 't log_record \<Rightarrow> provenance" where
  "assessed b p name r = Assess (bn_T b) (bn_H b) r (anchor_of p name) bench_policy"

definition hop_text :: "attestation \<Rightarrow> standing \<Rightarrow> string" where
  "hop_text a s = decimal (at_hop a) @ '':'' @ at_by a @ '':'' @ Standing_String s"

definition op_chain :: "'t bench \<Rightarrow> string list \<Rightarrow> 't operation" where
  "op_chain b f p =
     (case record_of p (arg f 1) of
        None \<Rightarrow> (Says ''invalid'', p)
      | Some r \<Rightarrow>
          (let pv = assessed b p (arg f 1) r
           in if pv_chain pv = [] then (Says ''ok -'', p)
              else (Says (''ok '' @ joined_by '' '' (map2 hop_text (pv_chain pv) (pv_standing pv))), p)))"

definition op_uid :: "string list \<Rightarrow> 't operation" where
  "op_uid f p =
     (case (record_of p (arg f 1), Atoi (arg f 2)) of
        (Some r, Some k) \<Rightarrow>
          (if sint k < 0 \<or> sint k \<ge> int (length (lr_identity r)) then (Says ''invalid'', p)
           else (Says (''ok uid='' @ decimal (at_uid (lr_identity r ! nat (sint k)))), p))
      | _ \<Rightarrow> (Says ''invalid'', p))"

definition op_author_or_relay :: "'t bench \<Rightarrow> string list \<Rightarrow> 't operation" where
  "op_author_or_relay b f p =
     (case record_of p (arg f 1) of
        None \<Rightarrow> (Says ''invalid'', p)
      | Some r \<Rightarrow>
          (let pv = assessed b p (arg f 1) r
           in case (if arg f 0 = ''relay'' then Relay pv else Author pv) of
                None \<Rightarrow> (Says ''no-answer unattributed'', p)
              | Some a \<Rightarrow> (Says (''ok by='' @ at_by a @ '' hop='' @ decimal (at_hop a)), p)))"

definition op_disputed :: "'t bench \<Rightarrow> string list \<Rightarrow> 't operation" where
  "op_disputed b f p =
     (case record_of p (arg f 1) of
        None \<Rightarrow> (Says ''invalid'', p)
      | Some r \<Rightarrow>
          (if Disputed (assessed b p (arg f 1) r) then (Says ''ok disputed=yes'', p) else (Says ''ok disputed=no'', p)))"

end
