(* ===== verification/Replay_Sinks.thy ===== *)
theory Replay_Sinks
  imports Replay
begin

text \<open>
  The rest of the bench driver \<^verbatim>\<open>go/cmd/replay/main.go\<close>: machines, the sinks their
  environment selects, writing to them and reading back what they hold, and the scripts.
\<close>

subsection \<open>Machines\<close>

fun split_on :: "char \<Rightarrow> string \<Rightarrow> string list" where
  "split_on c [] = [[]]"
| "split_on c (x # xs) =
     (if x = c then [] # split_on c xs
      else case split_on c xs of [] \<Rightarrow> [[x]] | y # ys \<Rightarrow> (x # y) # ys)"

definition stopServer :: "'t replay \<Rightarrow> 't replay" where
  "stopServer p =
     (case rp_server p of
        None \<Rightarrow> p
      | Some addr \<Rightarrow> p\<lparr>rp_listening := removeAll addr (rp_listening p), rp_server := None\<rparr>)"

definition setenv :: "string \<Rightarrow> string \<Rightarrow> 't replay \<Rightarrow> 't replay" where
  "setenv k v p = p\<lparr>rp_env := AList.update k v (rp_env p)\<rparr>"

definition unsetenv :: "string \<Rightarrow> 't replay \<Rightarrow> 't replay" where
  "unsetenv k p = p\<lparr>rp_env := AList.delete k (rp_env p)\<rparr>"

definition machine_part :: "'t bench \<Rightarrow> string \<Rightarrow> 't replay \<Rightarrow> 't replay option" where
  "machine_part b part p =
     (let n = Itoa (rp_n p); inside = Join (bn_work b) in
      if part = ''none'' then Some p
      else if part = ''file'' then Some (setenv EnvSink (inside (''m'' @ n @ ''.jsonl'')) p)
      else if part = ''unwritable'' then
        (let blocker = inside (''blocker'' @ n)
         in Some (setenv EnvSink (Join blocker ''x.jsonl'') (p\<lparr>rp_files := AList.update blocker [] (rp_files p)\<rparr>)))
      else if part = ''service'' then
        (let addr = inside (''s'' @ n @ ''.sock'') in
         if \<not> bn_listens b addr then None
         else Some (setenv EnvService addr
           (p\<lparr>rp_listening := addr # rp_listening p, rp_server := Some addr,
              rp_current := Some (length (rp_served p)), rp_served := rp_served p @ [0]\<rparr>)))
      else if part = ''deaf'' then Some (setenv EnvService (inside (''deaf'' @ n @ ''.sock'')) p)
      else None)"

text \<open>A part that is refused leaves what the parts before it did.\<close>

fun machine_parts :: "'t bench \<Rightarrow> string list \<Rightarrow> 't operation" where
  "machine_parts b [] p = (Says ''ok'', p)"
| "machine_parts b (part # parts) p =
     (case machine_part b part p of None \<Rightarrow> (Says ''invalid'', p) | Some p' \<Rightarrow> machine_parts b parts p')"

definition machine :: "'t bench \<Rightarrow> string \<Rightarrow> 't operation" where
  "machine b what p =
     (let p1 = unsetenv EnvService (unsetenv EnvSink (stopServer p))
      in machine_parts b (split_on (CHR ''+'') what) (p1\<lparr>rp_n := rp_n p1 + 1\<rparr>))"

subsection \<open>Sinks of the environment\<close>

definition getenv :: "'t replay \<Rightarrow> string \<Rightarrow> string" where
  "getenv p k = (case map_of (rp_env p) k of None \<Rightarrow> [] | Some v \<Rightarrow> v)"

text \<open>Directories can be made anywhere but below a file.\<close>

definition bench_files :: "strings \<Rightarrow> file_system" where
  "bench_files files =
     \<lparr>fsys_mkdir = (\<lambda>path. if list_ex (\<lambda>(q, c). take (length q + 1) path = Join q []) files then Some ''not a directory'' else None),
      fsys_create = (\<lambda>path. case map_of files path of None \<Rightarrow> Created | Some c \<Rightarrow> Exists),
      fsys_open = (\<lambda>path. case map_of files path of None \<Rightarrow> Inl ''no such file'' | Some c \<Rightarrow> Inr c)\<rparr>"

text \<open>\<open>None\<close> is the text handler on the standard error stream.\<close>

definition LegacyDefault ::
  "('t \<Rightarrow> wire_error + string) \<Rightarrow> network \<Rightarrow> (string \<Rightarrow> nat \<times> string option) \<Rightarrow> string \<Rightarrow> (string \<Rightarrow> string) \<Rightarrow> file_system
    \<Rightarrow> ((unit, 't, chosen, sink_error option) handler \<times> chosen) option" where
  "LegacyDefault T nw W program env fsys =
     (case LegacyAuto env fsys of
        (Discards, said) \<Rightarrow> None
      | (s, said) \<Rightarrow> Some (NewHandler (Plain (chosen_write T nw W)) (Some (no_options\<lparr>op_program := program\<rparr>)), s))"

definition tier :: "chosen \<Rightarrow> string" where
  "tier s = (case s of Forwards x below \<Rightarrow> ''service'' | Files f \<Rightarrow> ''file'' | Discards \<Rightarrow> ''discard'')"

text \<open>The files after the environment's sink was opened: a file that was not there is.\<close>

fun has_file :: "chosen \<Rightarrow> bool" where
  "has_file Discards = False"
| "has_file (Files f) = True"
| "has_file (Forwards s below) = has_file below"

definition opened :: "chosen \<Rightarrow> 't replay \<Rightarrow> 't replay" where
  "opened s p =
     (if has_file s \<and> map_of (rp_files p) (getenv p EnvSink) = None
      then p\<lparr>rp_files := AList.update (getenv p EnvSink) [] (rp_files p)\<rparr> else p)"

definition sink_of :: "'t replay \<Rightarrow> string \<Rightarrow> sink_state option" where
  "sink_of p name = map_of (rp_sinks p) name"

definition put_sink :: "string \<Rightarrow> sink_state \<Rightarrow> 't replay \<Rightarrow> 't replay" where
  "put_sink name st p = p\<lparr>rp_sinks := AList.update name st (rp_sinks p)\<rparr>"

definition op_auto :: "'t bench \<Rightarrow> string list \<Rightarrow> 't operation" where
  "op_auto b f p =
     (if arg f 1 = [] then (Says ''invalid'', p)
      else
        let s = fst (LegacyAuto (getenv p) (bench_files (rp_files p)));
            st = \<lparr>st_sink = s, st_file = (if has_file s then getenv p EnvSink else []),
                  st_served = (case s of Forwards x below \<Rightarrow> rp_current p | _ \<Rightarrow> None)\<rparr>
        in (Says (''ok tier='' @ tier s), put_sink (arg f 1) st (opened s p)))"

definition op_default :: "'t bench \<Rightarrow> string list \<Rightarrow> 't operation" where
  "op_default b f p =
     (case LegacyDefault (bn_T b) (bn_network b (rp_listening p)) (bn_append b) ''replay'' (getenv p) (bench_files (rp_files p)) of
        None \<Rightarrow> (Says ''ok out=stderr'', p)
      | Some (h, s) \<Rightarrow> (Says ''ok out=sink'', opened s p))"

definition op_separation :: "'t bench \<Rightarrow> string list \<Rightarrow> 't operation" where
  "op_separation b f p =
     (case sink_of p (arg f 1) of
        None \<Rightarrow> (Says ''invalid'', p)
      | Some st \<Rightarrow> (Says (''ok sep='' @ Separation_String (chosen_separation (bn_perm b (st_file st)) (st_sink st))), p))"

definition op_cap :: "string list \<Rightarrow> 't operation" where
  "op_cap f p =
     (case (sink_of p (arg f 1), Atoi (arg f 2)) of
        (Some st, Some n) \<Rightarrow>
          (case st_sink st of
             Files s \<Rightarrow> (Says ''ok'', put_sink (arg f 1) (st\<lparr>st_sink := Files (s\<lparr>fs_max := n\<rparr>)\<rparr>) p)
           | _ \<Rightarrow> (Says ''invalid'', p))
      | _ \<Rightarrow> (Says ''invalid'', p))"

subsection \<open>Writing and what is held\<close>

text \<open>A file may be the file of several sinks: its bytes are the world's.\<close>

fun with_content :: "string \<Rightarrow> chosen \<Rightarrow> chosen" where
  "with_content c Discards = Discards"
| "with_content c (Files s) = Files (s\<lparr>fs_content := c\<rparr>)"
| "with_content c (Forwards s below) = Forwards s (with_content c below)"

fun content_of :: "chosen \<Rightarrow> string" where
  "content_of Discards = []"
| "content_of (Files s) = fs_content s"
| "content_of (Forwards s below) = content_of below"

definition file_at :: "'t replay \<Rightarrow> string \<Rightarrow> string" where
  "file_at p path = (case map_of (rp_files p) path of None \<Rightarrow> [] | Some c \<Rightarrow> c)"

definition store_sink :: "string \<Rightarrow> sink_state \<Rightarrow> chosen \<Rightarrow> 't replay \<Rightarrow> 't replay" where
  "store_sink name st s p =
     put_sink name (st\<lparr>st_sink := s\<rparr>)
       (if has_file s then p\<lparr>rp_files := AList.update (st_file st) (content_of s) (rp_files p)\<rparr> else p)"

text \<open>The fallback counts the records it is given before it passes them on.\<close>

definition counting_Write :: "('t log_record, chosen) sink \<Rightarrow> ('t log_record, nat \<times> chosen) sink" where
  "counting_Write inner r nb = (case inner r (snd nb) of (w, e) \<Rightarrow> ((fst nb + 1, w), e))"

definition write_sink :: "'t bench \<Rightarrow> string \<Rightarrow> sink_state \<Rightarrow> 't log_record \<Rightarrow> 't operation" where
  "write_sink b name st r p =
     (let nw = bn_network b (rp_listening p);
          inner = chosen_write (bn_T b) nw (bn_append b) in
      case with_content (file_at p (st_file st)) (st_sink st) of
        Forwards s below \<Rightarrow>
          (case ServiceSink_Write (bn_T b) nw (counting_Write inner) r (s, (0, below)) of
             ((s', (n, below')), err) \<Rightarrow>
               (let p' = store_sink name st (Forwards s' below') p in
                if err \<noteq> None then (Says ''refused'', p')
                else if n > 0 then (Says (''ok where='' @ tier below'), p')
                else case st_served st of
                       None \<Rightarrow> (Says ''ok where=discard'', p')
                     | Some i \<Rightarrow>
                         (if bn_arrives b i (rp_served p' ! i)
                          then (Says ''ok where=service'', p'\<lparr>rp_served := (rp_served p')[i := rp_served p' ! i + 1]\<rparr>)
                          else (Says ''refused'', p'))))
      | s \<Rightarrow>
          (case inner r s of
             (s', err) \<Rightarrow>
               (let p' = store_sink name st s' p in
                if err \<noteq> None then (Says ''refused'', p')
                else (Says (case s' of Files x \<Rightarrow> ''ok where=file'' | _ \<Rightarrow> ''ok where=discard''), p'))))"

definition op_write :: "'t bench \<Rightarrow> string list \<Rightarrow> 't operation" where
  "op_write b f p =
     (case sink_of p (arg f 1) of
        None \<Rightarrow> (Says ''invalid'', p)
      | Some st \<Rightarrow>
          (if arg f 2 \<noteq> [] then
             (case record_of p (arg f 2) of
                None \<Rightarrow> (Says ''invalid'', p)
              | Some r \<Rightarrow> write_sink b (arg f 1) st r p)
           else write_sink b (arg f 1) st (hello_record b 0) p))"

fun contains_text :: "string \<Rightarrow> string \<Rightarrow> bool" where
  "contains_text x [] = (x = [])"
| "contains_text x (c # s) = (take (length x) (c # s) = x \<or> contains_text x s)"

text \<open>A rune U+FFFD, written as such or in place of a byte that is none.\<close>

function has_replacement :: "string \<Rightarrow> bool" where
  "has_replacement [] = False"
| "has_replacement (c # cs) =
     (if bv c < 0x80 then has_replacement cs
      else case decode_rune (c # cs) of
             None \<Rightarrow> True
           | Some (cp, n) \<Rightarrow> cp = 0xFFFD \<or> has_replacement (drop (n - 1) cs))"
  by pat_completeness auto
termination
  by (relation "measure length") auto

definition truncation_mark :: string where
  "truncation_mark = json_field True ''logging.truncated'' (json_string True ''true'')"

definition torn :: "'t bench \<Rightarrow> string \<Rightarrow> bool" where
  "torn b line \<longleftrightarrow>
     \<not> validUTF8 line \<or> (case bench_decode b line of Inl e \<Rightarrow> False | Inr r \<Rightarrow> has_replacement (lr_msg r))"

definition held_text :: "nat \<Rightarrow> nat \<Rightarrow> nat \<Rightarrow> nat \<Rightarrow> string" where
  "held_text lines over marks tears =
     ''ok lines='' @ Itoa lines @ '' over='' @ Itoa over @ '' marked='' @ Itoa marks @ '' torn='' @ Itoa tears"

definition op_held :: "'t bench \<Rightarrow> string list \<Rightarrow> 't operation" where
  "op_held b f p =
     (case sink_of p (arg f 1) of
        None \<Rightarrow> (Says ''invalid'', p)
      | Some st \<Rightarrow>
          (case st_sink st of
             Files s \<Rightarrow>
               (case map_of (rp_files p) (st_file st) of
                  None \<Rightarrow> (Says (held_text 0 0 0 0), p)
                | Some content \<Rightarrow>
                    (let lines = filter (\<lambda>l. l \<noteq> []) (split_on LF (TrimSuffix content))
                     in (Says (held_text (length lines) (length (filter (\<lambda>l. int (length l) + 1 > sint (fs_max s)) lines))
                          (length (filter (contains_text truncation_mark) lines)) (length (filter (torn b) lines))), p)))
           | _ \<Rightarrow>
               (let n = (case st_served st of None \<Rightarrow> 0 | Some i \<Rightarrow> rp_served p ! i)
                in (Says (''ok lines='' @ decimal n @ '' over=0 marked=0 torn=0''), p))))"

subsection \<open>Scripts\<close>

definition apply_op :: "'t bench \<Rightarrow> string list \<Rightarrow> 't operation" where
  "apply_op b f p =
     (if f = [] then (Panicked, p)
      else let op = f ! 0 in
        if op = ''level'' then op_level_of f p
        else if op = ''record'' then op_record b f p
        else if op = ''attr'' then op_attr f p
        else if op = ''group'' then op_group b f p
        else if op = ''msg'' then op_msg b f p
        else if op = ''job'' then op_job_of b f p
        else if op = ''read'' then op_read f p
        else if op = ''keys'' then op_keys f p
        else if op = ''encode'' then op_encode b f p
        else if op = ''decode'' then op_decode b f p
        else if op = ''machine'' then machine b (arg f 1) p
        else if op = ''auto'' then op_auto b f p
        else if op = ''default'' then op_default b f p
        else if op = ''separation'' then op_separation b f p
        else if op = ''cap'' then op_cap f p
        else if op = ''write'' then op_write b f p
        else if op = ''held'' then op_held b f p
        else if op = ''forge'' then op_forge b f p
        else if op = ''send'' then op_send b f p
        else if op = ''attest'' then op_attest b f p
        else if op = ''chain'' then op_chain b f p
        else if op = ''uid'' then op_uid f p
        else if op = ''author'' \<or> op = ''relay'' then op_author_or_relay b f p
        else if op = ''disputed'' then op_disputed b f p
        else (Says ''unknown-op'', p))"


text \<open>
  \<^verbatim>\<open>strings.Fields\<close>: the runs of bytes between runes that are white space; a byte that is
  no UTF-8 is none.
\<close>

definition is_space_rune :: "nat \<Rightarrow> bool" where
  "is_space_rune cp \<longleftrightarrow>
     cp \<in> {0x09, 0x0A, 0x0B, 0x0C, 0x0D, 0x20, 0x85, 0xA0, 0x1680, 0x2028, 0x2029, 0x202F, 0x205F, 0x3000}
     \<or> (0x2000 \<le> cp \<and> cp \<le> 0x200A)"

function runes :: "string \<Rightarrow> (string \<times> bool) list" where
  "runes [] = []"
| "runes (c # cs) =
     (if bv c < 0x80 then ([c], is_space_rune (bv c)) # runes cs
      else case decode_rune (c # cs) of
             None \<Rightarrow> ([c], False) # runes cs
           | Some (cp, n) \<Rightarrow> (take n (c # cs), is_space_rune cp) # runes (drop (n - 1) cs))"
  by pat_completeness auto
termination
  by (relation "measure length") auto

fun fields_of_runes :: "string \<Rightarrow> (string \<times> bool) list \<Rightarrow> string list" where
  "fields_of_runes word [] = (if word = [] then [] else [word])"
| "fields_of_runes word ((x, space) # xs) =
     (if space then (if word = [] then fields_of_runes [] xs else word # fields_of_runes [] xs)
      else fields_of_runes (word @ x) xs)"

definition Fields :: "string \<Rightarrow> string list" where
  "Fields s = fields_of_runes [] (runes s)"

definition TrimRight :: "string \<Rightarrow> string" where
  "TrimRight s = rev (dropWhile (\<lambda>c. c = SPACE \<or> c = CHR 0x09 \<or> c = CHR 0x0D) (rev s))"

definition two_digits :: "nat \<Rightarrow> string" where
  "two_digits n = (if n < 10 then CHR ''0'' # Itoa n else Itoa n)"

text \<open>The lines of a script one after the other; a panic ends the transcript.\<close>

fun run_lines :: "'t bench \<Rightarrow> nat \<Rightarrow> string list \<Rightarrow> 't replay \<Rightarrow> string list" where
  "run_lines b step [] p = []"
| "run_lines b step (line # lines) p =
     (let line = TrimRight line in
      if line = [] \<or> hd line = CHR ''#'' then run_lines b step lines p
      else case apply_op b (Fields line) p of
             (Panicked, p') \<Rightarrow> []
           | (Says x, p') \<Rightarrow>
               (two_digits (step + 1) @ '' '' @ line @ '' -> '' @ x @ [LF]) # run_lines b (step + 1) lines p')"

definition start :: "strings \<Rightarrow> strings \<Rightarrow> 't replay" where
  "start env files =
     \<lparr>rp_records = [], rp_anchors = [], rp_sinks = [], rp_env = env, rp_files = files, rp_listening = [],
      rp_server = None, rp_served = [], rp_current = None, rp_n = 0\<rparr>"

definition transcript :: "'t bench \<Rightarrow> strings \<Rightarrow> strings \<Rightarrow> string \<Rightarrow> string" where
  "transcript b env files script = concat (run_lines b 0 (split_on LF script) (start env files))"

end
