(* ===== verification/Replay_Worlds.thy ===== *)
theory Replay_Worlds
  imports Replay_Sinks
begin

text \<open>
  What every script keeps of the bench driver's world (\<^verbatim>\<open>go/cmd/replay/main.go\<close>), and what
  its transcripts can say: files hold whole lines, no held line is torn, every command is answered.
\<close>

declare sanitize.simps(2) [simp del] has_replacement.simps(2) [simp del] validUTF8.simps(2) [simp del] validUTF8.simps(1) [simp]

subsection \<open>Lines are UTF-8\<close>

lemma validUTF8_step:
  assumes "validUTF8 (c # cs)" "\<not> bv c < 0x80"
  obtains cp n where "decode_rune (c # cs) = Some (cp, n)" "2 \<le> n" "validUTF8 (drop (n - 1) cs)"
proof -
  obtain n lead where l: "utf8_lead c = Some (n, lead)"
    using assms by (auto simp: validUTF8.simps(2) split: option.splits)
  have "2 \<le> n" using utf8_lead_range [OF l] by simp
  then show ?thesis using that assms l
    by (auto simp: validUTF8.simps(2) decode_rune_def Let_def split: if_splits)
qed

lemma rune_split: "2 \<le> n \<Longrightarrow> take n (c # cs) @ drop (n - 1) cs = c # cs"
  by (cases n) simp_all

lemma validUTF8_append [intro]: "validUTF8 a \<Longrightarrow> validUTF8 b \<Longrightarrow> validUTF8 (a @ b)"
proof (induction a rule: sanitize.induct)
  case (2 c cs)
  show ?case
  proof (cases "bv c < 0x80")
    case True
    then show ?thesis using 2 by (simp add: validUTF8.simps(2))
  next
    case False
    then obtain cp n where n: "decode_rune (c # cs) = Some (cp, n)" "2 \<le> n" "validUTF8 (drop (n - 1) cs)"
      by (rule validUTF8_step [OF "2.prems"(1)])
    then have "validUTF8 (drop (n - 1) cs @ b)" using "2.IH" False "2.prems"(2) by simp
    then have "validUTF8 (take n (c # cs) @ (drop (n - 1) cs @ b))" by (rule validUTF8_rune [OF n(1)])
    then show ?thesis using rune_split [OF n(2), of c cs] by (simp only: append_assoc [symmetric])
  qed
qed simp

lemma validUTF8_Cons: "bv c < 0x80 \<Longrightarrow> validUTF8 cs \<Longrightarrow> validUTF8 (c # cs)"
  by (simp add: validUTF8.simps(2))

lemma hex_digit_ascii: "n < 16 \<Longrightarrow> bv (hex_digits ! n) < 0x80"
proof -
  have "list_all (\<lambda>n. bv (hex_digits ! n) < 0x80) [0..<16]" by code_simp
  then show "n < 16 \<Longrightarrow> bv (hex_digits ! n) < 0x80" by (simp add: list_all_iff)
qed

lemma json_ascii_utf8: "bv c < 0x80 \<Longrightarrow> validUTF8 (json_ascii html c)"
proof -
  assume c: "bv c < 0x80"
  have "bv c div 16 < 16" "bv c mod 16 < 16" using bv_less_256 [of c] by linarith+
  then have "bv (hex_digits ! (bv c div 16)) < 0x80" "bv (hex_digits ! (bv c mod 16)) < 0x80"
    by (simp_all add: hex_digit_ascii)
  then have "validUTF8 [BSLASH, CHR ''u'', CHR ''0'', CHR ''0'', hex_digits ! (bv c div 16), hex_digits ! (bv c mod 16)]"
    by (intro validUTF8_Cons) (simp_all add: bv_def validUTF8.simps)
  moreover have "validUTF8 [BSLASH, x]" if "bv x < 0x80" for x
    using that by (intro validUTF8_Cons) (simp_all add: bv_def validUTF8.simps)
  moreover have "validUTF8 [c]" using c by (intro validUTF8_Cons) (simp_all add: validUTF8.simps)
  moreover have "bv (CHR ''b'') < 0x80" "bv (CHR ''f'') < 0x80" "bv (CHR ''n'') < 0x80" "bv (CHR ''r'') < 0x80"
    "bv (CHR ''t'') < 0x80" by code_simp+
  ultimately show ?thesis using c by (simp add: json_ascii_def)
qed

lemma json_chars_utf8: "validUTF8 (json_chars html s)"
proof (induction html s rule: json_chars.induct)
  case (2 html c cs)
  have u: "validUTF8 ([BSLASH] @ ''ufffd'')" by code_simp
  have d: "validUTF8 ([BSLASH] @ ''u202'' @ [hex_digits ! (k mod 16)])" for k
  proof -
    have "validUTF8 ([BSLASH] @ ''u202'')" by code_simp
    moreover have "validUTF8 [hex_digits ! (k mod 16)]"
      by (rule validUTF8_Cons) (simp_all add: hex_digit_ascii validUTF8.simps)
    ultimately have "validUTF8 (([BSLASH] @ ''u202'') @ [hex_digits ! (k mod 16)])" by (rule validUTF8_append)
    then show ?thesis by simp
  qed
  show ?case
  proof (cases "bv c < 0x80")
    case True
    then show ?thesis using 2(1) json_ascii_utf8 by (auto simp: json_chars.simps)
  next
    case False
    show ?thesis
    proof (cases "decode_rune (c # cs)")
      case None
      then have "json_chars html (c # cs) = ([BSLASH] @ ''ufffd'') @ json_chars html cs"
        using False by (simp add: json_chars.simps)
      moreover have "validUTF8 (json_chars html cs)" using 2(2) False None by simp
      ultimately show ?thesis using u by (simp only: validUTF8_append)
    next
      case (Some p)
      then obtain cp n where p: "decode_rune (c # cs) = Some (cp, n)" by (cases p) simp
      show ?thesis
      proof (cases "cp = 0x2028 \<or> cp = 0x2029")
        case True
        then have "json_chars html (c # cs) =
            ([BSLASH] @ ''u202'' @ [hex_digits ! (cp mod 16)]) @ json_chars html (drop (n - 1) cs)"
          using False p by (simp add: json_chars.simps)
        moreover have "validUTF8 (json_chars html (drop (n - 1) cs))" using 2(3) False p True by simp
        ultimately show ?thesis using d by (simp only: validUTF8_append)
      next
        case other: False
        then have "json_chars html (c # cs) = take n (c # cs) @ json_chars html (drop (n - 1) cs)"
          using False p by (simp add: json_chars.simps)
        moreover have "validUTF8 (json_chars html (drop (n - 1) cs))" using 2(4) False p other by simp
        ultimately show ?thesis using validUTF8_rune [OF p] by simp
      qed
    qed
  qed
qed (simp add: json_chars.simps validUTF8.simps)


lemma validUTF8_text [simp]: "bv c < 0x80 \<Longrightarrow> validUTF8 (c # s) \<longleftrightarrow> validUTF8 s"
  by (simp add: validUTF8.simps(2))

lemma ascii_bytes [simp]:
  "bv QUOTE < 0x80" "bv (CHR '':'') < 0x80" "bv (CHR '','') < 0x80" "bv (CHR ''{'') < 0x80" "bv (CHR ''}'') < 0x80"
  "bv (CHR ''['') < 0x80" "bv (CHR '']'') < 0x80" "bv (CHR ''-'') < 0x80"
  by code_simp+

lemma json_string_utf8 [intro]: "validUTF8 (json_string html s)"
  unfolding json_string_def by (auto intro: json_chars_utf8 simp: validUTF8.simps(1))

lemma joined_utf8 [intro]: "\<forall>x \<in> set xs. validUTF8 x \<Longrightarrow> validUTF8 (joined xs)"
  by (induction xs rule: joined.induct) (auto simp: validUTF8.simps(1))

lemma field_utf8 [intro]: "validUTF8 x \<Longrightarrow> validUTF8 (json_field html k x)"
  unfolding json_field_def by auto

lemma bool_utf8 [intro]: "validUTF8 (json_bool b)"
proof -
  have "validUTF8 ''true''" "validUTF8 ''false''" by code_simp+
  then show ?thesis by (simp add: json_bool_def)
qed

lemma decimal_utf8 [intro]: "validUTF8 (decimal n)"
proof -
  have "bv c < 0x80" if "is_digit c" for c using that by (auto simp: is_digit_def bv_def)
  then have "validUTF8 (num_loop u [])" for u
    using num_loop_digits [of u] by (auto simp: list_all_iff intro!: validUTF8_ascii)
  moreover have "validUTF8 ''0''" by code_simp
  ultimately show ?thesis by (simp add: decimal_def num_def Let_def)
qed

lemma omitempty_utf8: "x \<in> set (omitempty k s) \<Longrightarrow> validUTF8 x"
  by (auto simp: omitempty_def split: if_splits)

lemma braces_utf8: "validUTF8 x \<Longrightarrow> validUTF8 (''{'' @ x @ ''}'')" "validUTF8 x \<Longrightarrow> validUTF8 (''['' @ x @ '']'')"
  by (auto simp: validUTF8.simps(1))

lemma marshal_attestation_utf8 [intro]: "validUTF8 (marshal_attestation a)"
  unfolding marshal_attestation_def by (rule braces_utf8, rule joined_utf8) (auto dest: omitempty_utf8)

lemma marshal_record_utf8: "validUTF8 (marshal_record ts r)"
proof -
  have "validUTF8 (marshal_map m)" for m
    unfolding marshal_map_def by (rule braces_utf8, rule joined_utf8) auto
  moreover have "validUTF8 (''['' @ joined (map marshal_attestation as) @ '']'')" for as
    by (rule braces_utf8, rule joined_utf8) auto
  ultimately show ?thesis
    unfolding marshal_record_def by (intro braces_utf8 joined_utf8) (auto dest: omitempty_utf8)
qed

subsection \<open>No replacement character\<close>

definition clean :: "string \<Rightarrow> bool" where
  "clean s \<longleftrightarrow> validUTF8 s \<and> \<not> has_replacement s"

lemma decode_rune_prefix:
  assumes "decode_rune (c # cs) = Some (cp, n)"
  shows "decode_rune (c # cs @ t) = Some (cp, n)"
proof -
  have "2 \<le> n" using assms by (auto elim!: decode_rune_SomeD dest!: utf8_lead_range)
  then have e: "take n (c # cs) @ (drop (n - 1) cs @ t) = c # cs @ t"
    by (simp only: append_assoc [symmetric] rune_split) simp
  show ?thesis using decode_rune_append [OF assms, of "drop (n - 1) cs @ t"] unfolding e .
qed

lemma has_replacement_text [simp]: "bv c < 0x80 \<Longrightarrow> has_replacement (c # cs) = has_replacement cs"
  by (subst has_replacement.simps(2)) simp

lemma has_replacement_rune:
  "\<not> bv c < 0x80 \<Longrightarrow> decode_rune (c # cs) = Some (cp, n) \<Longrightarrow>
    has_replacement (c # cs) \<longleftrightarrow> cp = 0xFFFD \<or> has_replacement (drop (n - 1) cs)"
  by (subst has_replacement.simps(2)) simp

text \<open>Cutting a text between two characters adds none.\<close>

lemma replacement_append: "validUTF8 s \<Longrightarrow> has_replacement s \<Longrightarrow> has_replacement (s @ t)"
proof (induction s rule: sanitize.induct)
  case (2 c cs)
  show ?case
  proof (cases "bv c < 0x80")
    case True
    then show ?thesis using 2 by simp
  next
    case False
    then obtain cp n where n: "decode_rune (c # cs) = Some (cp, n)" "2 \<le> n" "validUTF8 (drop (n - 1) cs)"
      by (rule validUTF8_step [OF "2.prems"(1)])
    have len: "n - 1 \<le> length cs" using n(1) by (auto elim!: decode_rune_SomeD)
    have "has_replacement (drop (n - 1) cs @ t)" if "cp \<noteq> 0xFFFD"
      using "2.IH"(3) [OF False n(1) refl n(3)] "2.prems"(2) has_replacement_rune [OF False n(1)] that by simp
    moreover have "drop (n - 1) (cs @ t) = drop (n - 1) cs @ t" using len by simp
    ultimately show ?thesis using has_replacement_rune [OF False decode_rune_prefix [OF n(1), of t]] by auto
  qed
qed simp

lemma clean_prefix: "clean s \<Longrightarrow> prefix x s \<Longrightarrow> validUTF8 x \<Longrightarrow> clean x"
  using replacement_append [of x] by (auto simp: clean_def prefix_def)

lemma clean_sanitize: "clean s \<Longrightarrow> clean (sanitize s)"
  by (simp add: clean_def sanitize_valid)

lemma clean_repeated: "clean (concat (replicate n ''x''))" "clean (concat (replicate n [CHR 0xC3, CHR 0xA9]))"
proof -
  have e: "decode_rune ([CHR 0xC3, CHR 0xA9] @ t) = Some (0xE9, 2)" for t
  proof -
    have "bv (CHR 0xC3) = 195" "bv (CHR 0xA9) = 169" by code_simp+
    then have "decode_rune [CHR 0xC3, CHR 0xA9] = Some (0xE9, 2)"
      by (simp add: decode_rune_def utf8_lead_def is_cont_def utf8_scalar_def utf8_lowest_def)
    from decode_rune_prefix [OF this, of t] show ?thesis by simp
  qed
  have h: "\<not> bv (CHR 0xC3) < 0x80" "bv (CHR ''x'') < 0x80" by code_simp+
  show "clean (concat (replicate n ''x''))"
    by (induction n) (simp_all add: clean_def validUTF8.simps(1) h)
  have v: "validUTF8 [CHR 0xC3, CHR 0xA9]" using validUTF8_rune [of "CHR 0xC3" "[CHR 0xA9]" "0xE9" 2 "[]"] e [of "[]"] by simp
  show "clean (concat (replicate n [CHR 0xC3, CHR 0xA9]))"
  proof (induction n)
    case (Suc n)
    let ?t = "concat (replicate n [CHR 0xC3, CHR 0xA9])"
    have "validUTF8 ([CHR 0xC3, CHR 0xA9] @ ?t)" using Suc v by (intro validUTF8_append) (simp_all add: clean_def)
    moreover have "\<not> has_replacement (CHR 0xC3 # CHR 0xA9 # ?t)"
      using has_replacement_rune [OF h(1), of "CHR 0xA9 # ?t" "0xE9" 2] e [of ?t] Suc by (simp add: clean_def)
    ultimately show ?case by (simp add: clean_def)
  qed (simp add: clean_def validUTF8.simps(1))
qed

lemma clean_hello: "clean ''hello''"
  by (simp add: clean_def validUTF8.simps(1) bv_def)


subsection \<open>Files hold whole lines\<close>

text \<open>
  What the world outside is asked for: every instant reads back from its own text, and an append
  writes all its bytes or, failing, none.
\<close>

definition readable :: "'t bench \<Rightarrow> bool" where
  "readable b \<longleftrightarrow> (\<forall>t ts. bn_T b t = Inr ts \<longrightarrow> (\<exists>t'. bn_TU b (json_string True ts) (bn_zero b) = Some t'))"

definition whole_appends :: "'t bench \<Rightarrow> bool" where
  "whole_appends b \<longleftrightarrow> (\<forall>l. bn_append b l = (length l, None) \<or> (\<exists>e. bn_append b l = (0, Some e)))"

definition good_line :: "'t bench \<Rightarrow> string \<Rightarrow> bool" where
  "good_line b l \<longleftrightarrow> LF \<notin> set l \<and> \<not> torn b l"

definition whole :: "'t bench \<Rightarrow> string \<Rightarrow> bool" where
  "whole b content \<longleftrightarrow> (\<exists>ls. content = concat (map (\<lambda>l. l @ [LF]) ls) \<and> list_all (good_line b) ls)"

lemma whole_Nil [simp]: "whole b []"
  unfolding whole_def by (rule exI [of _ "[]"]) simp

lemma whole_append: "whole b c \<Longrightarrow> good_line b l \<Longrightarrow> whole b (c @ l @ [LF])"
  unfolding whole_def by (elim exE) (rule_tac x = "ls @ [l]" in exI, simp)

text \<open>A line decoded again, without its line feed.\<close>

lemma encoded_back:
  fixes b :: "'t bench"
  assumes b: "readable b" and e: "Encode_record (bn_T b) x = Inr line"
  obtains ts t and q :: "'t log_record" where "bn_T b (lr_time x) = Inr ts" "line = marshal_record ts q @ [LF]"
    "q = x\<lparr>lr_schema := (if lr_schema x = 0 then SchemaVersion else lr_schema x)\<rparr>"
    "bn_TU b (json_string True ts) (bn_zero b) = Some t"
    "bench_decode b (marshal_record ts q) = (if lr_schema q = SchemaVersion then Inr (read_record t q)
      else Inl (''logging: record schema '' @ decimal (lr_schema q) @ '', this build understands '' @ decimal SchemaVersion))"
proof -
  obtain ts where ts: "bn_T b (lr_time x) = Inr ts"
    using e by (auto simp: Encode_record_def Let_def split: sum.splits if_splits)
  let ?q = "x\<lparr>lr_schema := (if lr_schema x = 0 then SchemaVersion else lr_schema x)\<rparr>"
  have l: "line = marshal_record ts ?q @ [LF]"
    using e ts by (cases "lr_schema x = 0") (simp_all add: Encode_record_def Let_def)
  obtain t where t: "bn_TU b (json_string True ts) (bn_zero b) = Some t" using b ts by (auto simp: readable_def)
  have "Unmarshal (bn_TU b) (bn_zero b) (bn_E b) (marshal_record ts ?q @ []) = Inr (read_record t ?q)"
    by (rule Unmarshal_text [where f = "json_string True" and ts = ts])
      (rule marshal_reads [unfolded marshal_json_def], use t in \<open>simp_all add: maxNestingDepth_def\<close>)
  then have "bench_decode b (marshal_record ts ?q) = (if lr_schema ?q = SchemaVersion then Inr (read_record t ?q)
      else Inl (''logging: record schema '' @ decimal (lr_schema ?q) @ '', this build understands '' @ decimal SchemaVersion))"
    by (simp add: bench_decode_def DecodeRecord_def read_record_def)
  then show ?thesis using that ts l t by blast
qed

lemma encoded_good:
  assumes b: "readable b" and e: "Encode_record (bn_T b) x = Inr line" and m: "clean (lr_msg x)"
  shows "\<exists>l. line = l @ [LF] \<and> good_line b l"
proof (rule encoded_back [OF b e])
  fix ts t q assume q: "line = marshal_record ts q @ [LF]"
    "q = x\<lparr>lr_schema := (if lr_schema x = 0 then SchemaVersion else lr_schema x)\<rparr>"
    "bench_decode b (marshal_record ts q) = (if lr_schema q = SchemaVersion then Inr (read_record t q)
      else Inl (''logging: record schema '' @ decimal (lr_schema q) @ '', this build understands '' @ decimal SchemaVersion))"
  have "lr_msg q = lr_msg x" using q(2) by simp
  then have "\<not> torn b (marshal_record ts q)"
    using clean_sanitize [OF m] q(3) marshal_record_utf8 [of ts q]
    by (auto simp: torn_def read_record_def clean_def split: if_splits)
  then show ?thesis using q(1) by (auto simp: good_line_def)
qed

lemma file_line_good:
  assumes b: "readable b" and e: "file_line (bn_T b) m r = Inr line" and c: "clean (lr_msg r)"
  shows "\<exists>l. line = l @ [LF] \<and> good_line b l"
proof (rule file_line_source [OF e])
  fix x assume x: "Encode_record (bn_T b) x = Inr line" "prefix (lr_msg x) (lr_msg r)"
    "validUTF8 (lr_msg r) \<longrightarrow> validUTF8 (lr_msg x)"
  then have "clean (lr_msg x)" using c clean_prefix by (auto simp: clean_def)
  then show ?thesis by (rule encoded_good [OF b x(1)])
qed

lemma FileSink_whole:
  assumes b: "readable b" "whole_appends b" and c: "clean (lr_msg r)" and w: "whole b (fs_content s)"
  shows "whole b (fs_content (fst (FileSink_Write (bn_T b) (bn_append b) r s)))"
proof (cases "file_line (bn_T b) (fs_max s) r")
  case (Inr line)
  obtain l where l: "line = l @ [LF]" "good_line b l" using file_line_good [OF b(1) Inr c] by blast
  obtain n err where a: "(if fs_open s then bn_append b line else (0, Some ''file already closed'')) = (n, err)" by fastforce
  have "bn_append b line = (length line, None) \<or> (\<exists>e. bn_append b line = (0, Some e))"
    using b(2) by (simp add: whole_appends_def)
  then have "n = length line \<or> n = 0" using a by (auto split: if_splits)
  then have "whole b (fs_content s @ take n line)" using whole_append [OF w l(2)] w l(1) by auto
  then show ?thesis using Inr a w
    by (simp add: FileSink_Write_def Let_def close_channel_def make_channel_def split: option.splits)
qed (use w in \<open>simp add: FileSink_Write_def\<close>)

lemma chosen_whole:
  assumes b: "readable b" "whole_appends b" and c: "clean (lr_msg r)"
  shows "whole b (content_of s) \<Longrightarrow> whole b (content_of (fst (chosen_write (bn_T b) nw (bn_append b) r s)))"
proof (induction s)
  case (Files s)
  then show ?case using FileSink_whole [OF b c, of s] by (simp add: split_beta)
next
  case (Forwards s below)
  then show ?case by (auto simp: ServiceSink_Write_def split: sum.splits prod.splits option.splits)
qed (simp add: DiscardSink_def)

lemma has_file_written: "has_file (fst (chosen_write T nw W r s)) = has_file s"
  by (induction s) (auto simp: ServiceSink_Write_def DiscardSink_def split: sum.splits prod.splits option.splits)

subsection \<open>What is held\<close>

lemma split_on_Nil [simp]: "split_on c s \<noteq> []"
  by (induction s) (auto split: list.splits)

lemma split_line: "c \<notin> set l \<Longrightarrow> split_on c (l @ c # t) = l # split_on c t" "c \<notin> set l \<Longrightarrow> split_on c l = [l]"
  by (induction l) auto

lemma split_lines: "\<forall>l \<in> set ls. c \<notin> set l \<Longrightarrow> split_on c (concat (map (\<lambda>l. l @ [c]) ls) @ l') = ls @ split_on c l'"
  by (induction ls) (auto simp: split_line)

lemma held_lines:
  assumes "list_all (good_line b) ls" "content = concat (map (\<lambda>l. l @ [LF]) ls)"
  shows "filter (\<lambda>l. l \<noteq> []) (split_on LF (TrimSuffix content)) = filter (\<lambda>l. l \<noteq> []) ls"
proof (cases ls rule: rev_cases)
  case (snoc xs l)
  then have "TrimSuffix content = concat (map (\<lambda>l. l @ [LF]) xs) @ l"
    using assms(2) by (simp add: TrimSuffix_def butlast_append)
  moreover have "\<forall>l \<in> set ls. LF \<notin> set l" using assms(1) by (auto simp: list_all_iff good_line_def)
  ultimately show ?thesis using snoc by (simp add: split_lines split_line)
qed (use assms in \<open>simp add: TrimSuffix_def\<close>)

lemma whole_never_torn:
  assumes "whole b content"
  shows "filter (torn b) (filter (\<lambda>l. l \<noteq> []) (split_on LF (TrimSuffix content))) = []"
proof -
  obtain ls where ls: "content = concat (map (\<lambda>l. l @ [LF]) ls)" "list_all (good_line b) ls"
    using assms by (auto simp: whole_def)
  show ?thesis unfolding held_lines [OF ls(2,1)] using ls(2)
    by (auto simp: filter_empty_conv list_all_iff good_line_def)
qed


subsection \<open>The world every script keeps\<close>

inductive visits :: "'t bench \<Rightarrow> 't replay \<Rightarrow> 't replay \<Rightarrow> bool" for b p0 where
  here: "visits b p0 p0"
| more: "visits b p0 p \<Longrightarrow> apply_op b f p = (Says x, p') \<Longrightarrow> visits b p0 p'"

text \<open>
  Messages are UTF-8 with no replacement character, records are of this schema, files hold whole lines, what a sink or the
  machine refers to exists, and nobody listens where \<^verbatim>\<open>send\<close> dials.
\<close>

definition sound :: "'t log_record \<Rightarrow> bool" where
  "sound r \<longleftrightarrow> clean (lr_msg r) \<and> lr_schema r = SchemaVersion"

lemma sound_simps [simp]:
  "sound (r\<lparr>lr_attrs := a\<rparr>) = sound r" "sound (r\<lparr>lr_identity := c\<rparr>) = sound r" "sound (r\<lparr>lr_job := j\<rparr>) = sound r"
  "sound (hello_record b l)"
  by (simp_all add: sound_def hello_record_def clean_hello)

lemma sound_msg: "sound r \<Longrightarrow> clean s \<Longrightarrow> sound (r\<lparr>lr_msg := s\<rparr>)"
  by (simp add: sound_def)

definition kept :: "'t bench \<Rightarrow> 't replay \<Rightarrow> bool" where
  "kept b p \<longleftrightarrow>
     (\<forall>name r. record_of p name = Some r \<longrightarrow> sound r)
     \<and> (\<forall>path c. map_of (rp_files p) path = Some c \<longrightarrow> whole b c)
     \<and> (\<forall>name st i. sink_of p name = Some st \<longrightarrow> st_served st = Some i \<longrightarrow> i < length (rp_served p))
     \<and> (\<forall>i. rp_current p = Some i \<longrightarrow> i < length (rp_served p))
     \<and> Join (bn_work b) ''nobody-listens.sock'' \<notin> set (rp_listening p)"

lemma kept_file_at: "kept b p \<Longrightarrow> whole b (file_at p path)"
  by (auto simp: kept_def file_at_def split: option.splits)

lemma kept_record: "kept b p \<Longrightarrow> record_of p name = Some r \<Longrightarrow> sound r"
  by (auto simp: kept_def)

lemma kept_put_record [intro]: "kept b p \<Longrightarrow> sound r \<Longrightarrow> kept b (put_record name r p)"
  by (simp add: kept_def put_record_def record_of_def sink_of_def update_conv')

lemma kept_anchors [simp]: "kept b (p\<lparr>rp_anchors := a\<rparr>) = kept b p" "kept b (drop_anchor name p) = kept b p"
  by (simp_all add: kept_def record_of_def sink_of_def drop_anchor_def)

lemma kept_env [simp]: "kept b (setenv k v p) = kept b p" "kept b (unsetenv k p) = kept b p" "kept b (p\<lparr>rp_n := n\<rparr>) = kept b p"
  by (simp_all add: kept_def record_of_def sink_of_def setenv_def unsetenv_def)

lemma kept_file [intro]: "kept b p \<Longrightarrow> whole b c \<Longrightarrow> kept b (p\<lparr>rp_files := AList.update path c (rp_files p)\<rparr>)"
  by (simp add: kept_def record_of_def sink_of_def update_conv')

lemma kept_put_sink [intro]:
  "kept b p \<Longrightarrow> (\<And>i. st_served st = Some i \<Longrightarrow> i < length (rp_served p)) \<Longrightarrow> kept b (put_sink name st p)"
  by (simp add: kept_def record_of_def sink_of_def put_sink_def update_conv')

lemma kept_count: "kept b p \<Longrightarrow> kept b (p\<lparr>rp_served := (rp_served p)[i := n]\<rparr>)"
  by (simp add: kept_def record_of_def sink_of_def)

lemma Bind_sound [simp]: "sound (fst (Bind T H r k i key)) = sound r"
  by (simp add: Bind_def Let_def split: sum.splits)

lemma Accept_sound [simp]: "sound (Accept T H sv r peer err) = sound r"
  by (simp add: Accept_def Let_def sound_def [of "r\<lparr>lr_identity := c, lr_attrs := a\<rparr>" for c a] sound_def [of r] split: option.splits)

lemma viaHandler_sound: "viaHandler b r g k v = (x, r') \<Longrightarrow> sound r' = sound r"
  by (auto simp: viaHandler_def Let_def split: prod.splits option.splits)

lemma Repeat_clean:
  "Repeat room ''x'' n = Some s \<Longrightarrow> clean s" "Repeat room [CHR 0xC3, CHR 0xA9] n = Some s \<Longrightarrow> clean s"
  using clean_repeated clean_repeated [of 0] clean_repeated [of 1] by (auto simp: Repeat_def split: if_splits)

lemma op_record_kept: "kept b p \<Longrightarrow> kept b (snd (op_record b f p))"
  by (auto simp: op_record_def Let_def split: option.splits)

lemma op_attr_kept: "kept b p \<Longrightarrow> kept b (snd (op_attr f p))"
  by (auto simp: op_attr_def kept_record split: option.splits)

lemma op_group_kept: "kept b p \<Longrightarrow> kept b (snd (op_group b f p))"
  by (auto simp: op_group_def kept_record viaHandler_sound split: option.splits prod.splits)

lemma op_msg_kept: "kept b p \<Longrightarrow> kept b (snd (op_msg b f p))"
  by (cases "has_flag f ''wide''")
    (auto simp: op_msg_def intro!: kept_put_record sound_msg elim: Repeat_clean kept_record split: option.splits)

lemma op_job_kept: "kept b p \<Longrightarrow> kept b (snd (op_job_of b f p))"
  by (auto simp: op_job_of_def kept_record split: option.splits)

lemma op_forge_kept: "kept b p \<Longrightarrow> kept b (snd (op_forge b f p))"
  by (auto simp: op_forge_def forged_def Let_def kept_record split: option.splits)

lemma op_attest_kept: "kept b p \<Longrightarrow> kept b (snd (op_attest b f p))"
  by (auto simp: op_attest_def Let_def kept_record split: option.splits)

lemma send_record_sound:
  assumes b: "readable b" and c: "sound r" and s: "send_record b p r = Inr r'"
  shows "sound r'"
proof -
  obtain sw handed where w: "ServiceSink_Write (bn_T b) (bn_network b (rp_listening p)) (\<lambda>x handed. (x, None)) r
      (NewServiceSink (Join (bn_work b) ''nobody-listens.sock''), empty_record (bn_zero b)) = ((sw, handed), None)"
    using s by (auto simp: send_record_def Let_def split: prod.splits option.splits)
  then have h: "clean (lr_msg handed)"
    using c by (auto simp: ServiceSink_Write_def empty_record_def clean_def sound_def split: sum.splits prod.splits option.splits)
  obtain line where l: "Encode_record (bn_T b) handed = Inr line" "bench_decode b (TrimSuffix line) = Inr r'"
    using s w by (auto simp: send_record_def Let_def split: sum.splits)
  show ?thesis
    by (rule encoded_back [OF b l(1)])
      (use l(2) clean_sanitize [OF h] in \<open>auto simp: TrimSuffix_def read_record_def sound_def split: if_splits\<close>)
qed

lemma op_send_kept: "readable b \<Longrightarrow> kept b p \<Longrightarrow> kept b (snd (op_send b f p))"
  by (auto simp: op_send_def kept_record dest: send_record_sound [rotated 2] split: option.splits sum.splits)


lemma chosen_parts: "content_of (with_content c s) = (if has_file s then c else [])" "has_file (with_content c s) = has_file s"
  by (induction s) simp_all

lemma has_file_content: "\<not> has_file s \<Longrightarrow> content_of s = []"
  by (induction s) simp_all

lemma kept_store:
  assumes "kept b p" "sink_of p name = Some st" "whole b (content_of s)"
  shows "kept b (store_sink name st s p)" "length (rp_served (store_sink name st s p)) = length (rp_served p)"
proof -
  have i: "st_served st = Some i \<Longrightarrow> i < length (rp_served p)" for i using assms(1,2) by (auto simp: kept_def)
  then show "kept b (store_sink name st s p)" using assms(1,3)
    by (auto simp: store_sink_def intro!: kept_put_sink kept_file)
  show "length (rp_served (store_sink name st s p)) = length (rp_served p)" by (simp add: store_sink_def put_sink_def)
qed

lemma write_sink_kept:
  assumes b: "readable b" "whole_appends b" and k: "kept b p" and s: "sink_of p name = Some st" and r: "sound r"
  shows "kept b (snd (write_sink b name st r p))"
proof -
  let ?nw = "bn_network b (rp_listening p)" and ?s = "with_content (file_at p (st_file st)) (st_sink st)"
  let ?inner = "chosen_write (bn_T b) ?nw (bn_append b)"
  have c: "clean (lr_msg r)" using r by (simp add: sound_def)
  have w: "whole b (content_of ?s)" using kept_file_at [OF k] by (simp add: chosen_parts)
  show ?thesis
  proof (cases ?s)
    case (Forwards sv below)
    obtain s' n below' err where o1: "ServiceSink_Write (bn_T b) ?nw (counting_Write ?inner) r (sv, (0, below)) = ((s', (n, below')), err)"
      by (metis prod.exhaust)
    have "whole b (content_of below)" using w Forwards by simp
    then have "whole b (content_of below')" using o1 chosen_whole [OF b c, of below ?nw]
      by (auto simp: ServiceSink_Write_def counting_Write_def split: sum.splits prod.splits option.splits)
    then have "kept b (store_sink name st (Forwards s' below') p)" using kept_store(1) [OF k s] by simp
    then show ?thesis using Forwards o1
      by (auto simp: write_sink_def Let_def intro: kept_count split: option.split)
  next
    case (Files x)
    then show ?thesis using kept_store(1) [OF k s chosen_whole [OF b c w]]
      by (auto simp: write_sink_def Let_def split: prod.splits)
  next
    case Discards
    then show ?thesis using kept_store(1) [OF k s chosen_whole [OF b c w]]
      by (auto simp: write_sink_def Let_def split: prod.splits)
  qed
qed

lemma op_write_kept: "readable b \<Longrightarrow> whole_appends b \<Longrightarrow> kept b p \<Longrightarrow> kept b (snd (op_write b f p))"
  by (auto simp: op_write_def intro!: write_sink_kept dest: kept_record split: option.splits)

lemma op_cap_kept: "kept b p \<Longrightarrow> kept b (snd (op_cap f p))"
  by (auto simp: op_cap_def kept_def record_of_def sink_of_def put_sink_def update_conv' split: option.splits chosen.splits)

lemma opened_kept [intro]: "kept b p \<Longrightarrow> kept b (opened s p)"
  by (auto simp: opened_def)

lemma op_auto_kept: "kept b p \<Longrightarrow> kept b (snd (op_auto b f p))"
proof -
  assume k: "kept b p"
  moreover have "rp_served (opened s p) = rp_served p" for s by (simp add: opened_def)
  moreover have "rp_current p = Some i \<Longrightarrow> i < length (rp_served p)" for i using k by (simp add: kept_def)
  ultimately show ?thesis by (auto simp: op_auto_def Let_def intro!: kept_put_sink split: chosen.splits)
qed

lemma op_default_kept: "kept b p \<Longrightarrow> kept b (snd (op_default b f p))"
  by (auto simp: op_default_def split: option.splits)

lemma stopServer_kept: "kept b p \<Longrightarrow> kept b (stopServer p)"
  by (auto simp: stopServer_def kept_def record_of_def sink_of_def split: option.splits)

lemma machine_part_kept: "kept b p \<Longrightarrow> machine_part b part p = Some p' \<Longrightarrow> kept b p'"
proof -
  assume k: "kept b p" and m: "machine_part b part p = Some p'"
  let ?addr = "Join (bn_work b) (''s'' @ Itoa (rp_n p) @ ''.sock'')"
  have "Join (bn_work b) ''nobody-listens.sock'' \<noteq> ?addr" by (simp add: Join_def)
  then have "kept b (p\<lparr>rp_listening := ?addr # rp_listening p, rp_server := Some ?addr,
      rp_current := Some (length (rp_served p)), rp_served := rp_served p @ [0]\<rparr>)"
    using k by (auto simp: kept_def record_of_def sink_of_def less_Suc_eq)
  moreover have "kept b (p\<lparr>rp_files := AList.update path [] (rp_files p)\<rparr>)" for path using k by auto
  ultimately show ?thesis using m k by (auto simp: machine_part_def Let_def split: if_splits)
qed

lemma machine_kept: "kept b p \<Longrightarrow> kept b (snd (machine b what p))"
proof -
  have "kept b p \<Longrightarrow> kept b (snd (machine_parts b parts p))" for parts p
    by (induction parts arbitrary: p) (auto dest: machine_part_kept split: option.splits)
  then show "kept b p \<Longrightarrow> ?thesis" by (simp add: machine_def Let_def stopServer_kept)
qed

lemma looks_only:
  "snd (op_level_of f p) = p" "snd (op_read f p) = p" "snd (op_keys f p) = p" "snd (op_encode b f p) = p"
  "snd (op_decode b f p) = p" "snd (op_separation b f p) = p" "snd (op_held b f p) = p" "snd (op_chain b f p) = p"
  "snd (op_uid f p) = p" "snd (op_author_or_relay b f p) = p" "snd (op_disputed b f p) = p"
  by (simp_all add: op_level_of_def op_read_def op_keys_def op_encode_def op_decode_def op_separation_def op_held_def
      op_chain_def op_uid_def op_author_or_relay_def op_disputed_def Let_def split: option.split chosen.split sum.split)

lemmas kept_ops = op_record_kept op_attr_kept op_group_kept op_msg_kept op_job_kept op_forge_kept op_attest_kept
  op_send_kept op_write_kept op_cap_kept op_auto_kept op_default_kept machine_kept

lemma apply_kept: "readable b \<Longrightarrow> whole_appends b \<Longrightarrow> kept b p \<Longrightarrow> kept b (snd (apply_op b f p))"
  unfolding apply_op_def Let_def by (simp add: kept_ops looks_only)

definition fresh :: "'t bench \<Rightarrow> 't replay \<Rightarrow> bool" where
  "fresh b p \<longleftrightarrow> rp_records p = [] \<and> rp_sinks p = [] \<and> rp_current p = None \<and> rp_listening p = []
     \<and> (\<forall>(path, c) \<in> set (rp_files p). c = [])"

lemma visits_kept:
  assumes b: "readable b" "whole_appends b" and v: "visits b p0 p" and f: "fresh b p0"
  shows "kept b p"
  using v
proof induction
  case here
  have "map_of (rp_files p0) path = Some c \<Longrightarrow> whole b c" for path c
    using f by (auto simp: fresh_def dest!: map_of_SomeD)
  then show ?case using f by (auto simp: kept_def fresh_def record_of_def sink_of_def)
next
  case (more p f x p')
  then show ?case using apply_kept [OF b more.IH, of f] by simp
qed


text \<open>
  C6: No script can make a file sink hold a torn line: whatever a script does to records, machines and
  sinks, starting from empty files, every answer of \<^verbatim>\<open>held\<close> counts none, as long as an append writes all
  of a line or none of it. Shrinking a record to its cap cuts between two characters, the encoder writes
  UTF-8, and what the line decodes to has no replacement character.
\<close>

theorem held_is_never_torn:
  assumes "readable b" "whole_appends b" "fresh b p0" "visits b p0 p"
  shows "\<exists>u. fst (op_held b f p) = Says u \<and> (u = ''invalid'' \<or> suffix '' torn=0'' u)"
proof -
  have w: "whole b c" if "map_of (rp_files p) path = Some c" for path c
    using visits_kept [OF assms(1,2,4,3)] that by (simp add: kept_def)
  have zero: "Itoa 0 = ''0''" by code_simp
  have t: "suffix '' torn=0'' (held_text n m k 0)" for n m k
    unfolding held_text_def suffix_def zero
    by (rule exI [of _ "''ok lines='' @ Itoa n @ '' over='' @ Itoa m @ '' marked='' @ Itoa k"]) simp
  have s: "suffix '' torn=0'' (''ok lines='' @ decimal n @ '' over=0 marked=0 torn=0'')" for n
    unfolding suffix_def by (rule exI [of _ "''ok lines='' @ decimal n @ '' over=0 marked=0''"]) simp
  show ?thesis
  proof (cases "sink_of p (arg f 1)")
    case (Some st)
    show ?thesis
    proof (cases "st_sink st")
      case (Files x)
      then show ?thesis using Some whole_never_torn [OF w] t
        by (auto simp: op_held_def Let_def split: option.split)
    qed (use Some s in \<open>simp_all add: op_held_def Let_def\<close>)
  qed (simp add: op_held_def)
qed

subsection \<open>Every command is answered\<close>

definition commands :: "string list \<Rightarrow> string list" where
  "commands lines = filter (\<lambda>l. l \<noteq> [] \<and> hd l \<noteq> CHR ''#'') (map TrimRight lines)"

text \<open>
  The commands the driver does not survive: no field at all, or a text to repeat a negative number of
  times, or to a length the runtime does not give or an \<^verbatim>\<open>int\<close> does not hold.
\<close>

definition too_long :: "'t bench \<Rightarrow> int \<Rightarrow> bool" where
  "too_long b n \<longleftrightarrow> int (bn_room b) < n \<or> 2 ^ 63 \<le> n"

definition blows_up :: "'t bench \<Rightarrow> 't replay \<Rightarrow> string list \<Rightarrow> bool" where
  "blows_up b p f \<longleftrightarrow> f = [] \<or>
     (f ! 0 = ''msg'' \<or> f ! 0 = ''job'') \<and> record_of p (arg f 1) \<noteq> None \<and>
     (\<exists>n. Atoi (arg f 2) = Some n \<and>
       (sint n < 0 \<or> 1 < sint n \<and> too_long b (if f ! 0 = ''msg'' \<and> has_flag f ''wide'' then 2 * sint n else sint n)))"

lemma Repeat_None:
  "Repeat (bn_room b) ''x'' n = None \<longleftrightarrow> sint n < 0 \<or> 1 < sint n \<and> too_long b (sint n)"
  "Repeat (bn_room b) [CHR 0xC3, CHR 0xA9] n = None \<longleftrightarrow> sint n < 0 \<or> 1 < sint n \<and> too_long b (2 * sint n)"
  by (auto simp: Repeat_def too_long_def)

lemma Accept_chain_nonempty: "lr_identity (Accept T H sv r peer err) \<noteq> []"
  by (auto simp: Accept_def Bind_def Let_def split: option.splits sum.splits)

lemma machine_says: "fst (machine b what p) \<noteq> Panicked"
proof -
  have "fst (machine_parts b parts p) \<noteq> Panicked" for parts p
    by (induction parts arbitrary: p) (auto split: option.splits)
  then show ?thesis by (simp add: machine_def Let_def)
qed

lemma write_sink_says: "fst (write_sink b name st r p) \<noteq> Panicked"
  by (auto simp: write_sink_def Let_def split: chosen.splits prod.splits option.splits)

lemma panicked_case: "fst (case x of None \<Rightarrow> (Panicked, p) | Some s \<Rightarrow> (Says u, q s)) = Panicked \<longleftrightarrow> x = None"
  by (cases x) simp_all

lemma panics:
  "fst (op_msg b f p) = Panicked \<longleftrightarrow> record_of p (arg f 1) \<noteq> None \<and>
     (\<exists>n. Atoi (arg f 2) = Some n \<and>
       (sint n < 0 \<or> 1 < sint n \<and> too_long b (if has_flag f ''wide'' then 2 * sint n else sint n)))"
  "fst (op_job_of b f p) = Panicked \<longleftrightarrow> record_of p (arg f 1) \<noteq> None \<and>
     (\<exists>n. Atoi (arg f 2) = Some n \<and> (sint n < 0 \<or> 1 < sint n \<and> too_long b (sint n)))"
  by (cases "record_of p (arg f 1)"; cases "Atoi (arg f 2)"; cases "has_flag f ''wide''";
      simp add: op_msg_def op_job_of_def panicked_case Repeat_None)+

lemma answers:
  "fst (op_level_of f p) \<noteq> Panicked" "fst (op_read f p) \<noteq> Panicked" "fst (op_keys f p) \<noteq> Panicked"
  "fst (op_encode b f p) \<noteq> Panicked" "fst (op_decode b f p) \<noteq> Panicked" "fst (op_separation b f p) \<noteq> Panicked"
  "fst (op_held b f p) \<noteq> Panicked" "fst (op_chain b f p) \<noteq> Panicked" "fst (op_uid f p) \<noteq> Panicked"
  "fst (op_author_or_relay b f p) \<noteq> Panicked" "fst (op_disputed b f p) \<noteq> Panicked" "fst (op_record b f p) \<noteq> Panicked"
  "fst (op_attr f p) \<noteq> Panicked" "fst (op_auto b f p) \<noteq> Panicked" "fst (op_default b f p) \<noteq> Panicked"
  "fst (op_cap f p) \<noteq> Panicked" "fst (op_forge b f p) \<noteq> Panicked" "fst (op_send b f p) \<noteq> Panicked"
  "fst (op_write b f p) \<noteq> Panicked" "fst (op_attest b f p) \<noteq> Panicked"
  by (simp_all add: op_level_of_def op_read_def op_keys_def op_encode_def op_decode_def op_separation_def op_held_def
      op_chain_def op_uid_def op_author_or_relay_def op_disputed_def op_record_def op_attr_def op_auto_def op_default_def
      op_cap_def op_forge_def op_send_def op_write_def op_attest_def Accept_chain_nonempty write_sink_says Let_def
      split: option.split chosen.split sum.split prod.split)

lemma op_group_says: "fst (op_group b f p) \<noteq> Panicked"
  by (auto simp: op_group_def viaHandler_def Let_def split: option.split prod.split)

lemma panics_iff: "fst (apply_op b f p) = Panicked \<longleftrightarrow> blows_up b p f"
  unfolding apply_op_def Let_def blows_up_def
  by (simp add: panics answers op_group_says machine_says)

lemma visits_step: "visits b p0 p \<Longrightarrow> \<not> blows_up b p f \<Longrightarrow> visits b p0 (snd (apply_op b f p))"
  using panics_iff [of b f p] by (cases "apply_op b f p"; cases "fst (apply_op b f p)") (auto intro: visits.more)

lemma visits_first:
  assumes "apply_op b f p = (Says x, p1)" "visits b p1 p'"
  shows "visits b p p'"
  using assms(2)
proof induction
  case here
  show ?case using visits.more [OF visits.here assms(1)] .
qed (rule visits.more)

text \<open>
  C7: Every command of a script is answered, in order and under its number: the transcript has one line
  for each, spelled as the script spells it, with the comments and empty lines left out; and where it is
  shorter the script had reached a command that ends the driver with a run-time panic, one without any
  field or one that repeats a text a negative number of times, or to a length that no \<^verbatim>\<open>int\<close> holds or
  the runtime makes no slice of.
\<close>

theorem every_command_answered:
  "list_all2 (\<lambda>(k, l) x. prefix (two_digits k @ '' '' @ l @ '' -> '') x)
     (enumerate (Suc n) (take (length (run_lines b n lines p)) (commands lines))) (run_lines b n lines p)
   \<and> (length (run_lines b n lines p) = length (commands lines)
     \<or> (\<exists>p'. visits b p p' \<and> length (run_lines b n lines p) < length (commands lines)
         \<and> blows_up b p' (Fields (commands lines ! length (run_lines b n lines p)))))"
proof (induction lines arbitrary: n p)
  case Nil
  show ?case by (simp add: commands_def)
next
  case (Cons line lines)
  let ?l = "TrimRight line"
  show ?case
  proof (cases "?l = [] \<or> hd ?l = CHR ''#''")
    case True
    then have "run_lines b n (line # lines) p = run_lines b n lines p" "commands (line # lines) = commands lines"
      by (simp_all add: Let_def commands_def)
    then show ?thesis using Cons.IH by simp
  next
    case False
    then have c: "commands (line # lines) = ?l # commands lines" by (simp add: commands_def)
    obtain x p1 where a: "apply_op b (Fields ?l) p = (x, p1)" by fastforce
    show ?thesis
    proof (cases x)
      case Panicked
      then have "blows_up b p (Fields ?l)" using a panics_iff [of b "Fields ?l" p] by simp
      moreover have "run_lines b n (line # lines) p = []" using False a Panicked by (simp add: Let_def)
      ultimately show ?thesis using c visits.here [of b p] by auto
    next
      case (Says u)
      let ?x = "two_digits (n + 1) @ '' '' @ ?l @ '' -> '' @ u @ [LF]"
      have r: "run_lines b n (line # lines) p = ?x # run_lines b (n + 1) lines p1" using False a Says by (simp add: Let_def)
      have "prefix (two_digits (Suc n) @ '' '' @ ?l @ '' -> '') ?x" by (simp add: prefix_def)
      moreover have "visits b p1 q \<Longrightarrow> visits b p q" for q using visits_first a Says by blast
      ultimately show ?thesis using Cons.IH [of "n + 1" p1] unfolding r c by (simp del: run_lines.simps) blast
    qed
  qed
qed

definition plain_bench :: "string bench" where
  "plain_bench =
     \<lparr>bn_T = text_time, bn_TU = (\<lambda>raw t. Some t), bn_zero = [], bn_H = weak_hash, bn_E = (\<lambda>line. ''malformed''),
      bn_epoch = ''1970-01-01T00:00:00.000000Z'', bn_host = ''h'', bn_pid = 7, bn_work = ''/w'',
      bn_network = (\<lambda>listening. broken_network), bn_listens = (\<lambda>a. True), bn_append = (\<lambda>l. (length l, None)),
      bn_arrives = (\<lambda>i n. True), bn_perm = (\<lambda>path. Some 0x180), bn_room = 2 ^ 47\<rparr>"

theorem held_is_never_torn_witness:
  "\<exists>u. fst (op_held plain_bench [''held'', ''s'']
      (fold (\<lambda>f p. snd (apply_op plain_bench f p))
        [[''machine'', ''file''], [''auto'', ''s''], [''record'', ''a'', ''4''], [''write'', ''s'', ''a'']] (start [] []))) = Says u
    \<and> (u = ''invalid'' \<or> suffix '' torn=0'' u)"
proof (rule held_is_never_torn)
  show "readable plain_bench" "whole_appends plain_bench" by (simp_all add: readable_def whole_appends_def plain_bench_def)
  show "fresh plain_bench (start [] [])" by (simp add: fresh_def start_def)
  have "\<not> blows_up plain_bench p [''machine'', ''file'']" "\<not> blows_up plain_bench p [''auto'', ''s'']" "\<not> blows_up plain_bench p [''record'', ''a'', ''4'']"
    "\<not> blows_up plain_bench p [''write'', ''s'', ''a'']" for p :: "string replay" by (simp_all add: blows_up_def)
  then show "visits plain_bench (start [] []) (fold (\<lambda>f p. snd (apply_op plain_bench f p))
        [[''machine'', ''file''], [''auto'', ''s''], [''record'', ''a'', ''4''], [''write'', ''s'', ''a'']] (start [] []))"
    by (simp add: visits_step visits.here)
qed

end
