(* ===== verification/Sent_Provenance.thy ===== *)
theory Sent_Provenance
  imports Log_Call
begin

text \<open>
  Evidence on the wire: the bytes a stamp is bound to (\<^verbatim>\<open>bound\<close> of
  \<^verbatim>\<open>go/identity.go\<close>) are those of the record a reader decodes.
\<close>

declare sanitize.simps(2) [simp del]

subsection \<open>The canonical bytes of a record that was read\<close>

lemma canon_string_read [simp]: "canon_string (sanitize s) = canon_string s"
  by (simp add: canon_string_def)

lemma canon_optional_read [simp]: "canon_optional k (sanitize s) = canon_optional k s"
  by (simp add: canon_optional_def)

lemma canon_attestation_read [simp]: "canon_attestation (read_attestation a) = canon_attestation a"
  by (simp add: canon_attestation_def read_attestation_def)

lemma canon_map_sorted: "canon_map m = sorted_map (read_attrs m)"
  by (simp add: canon_map_def read_attrs_def foldl_conv_fold case_prod_unfold)

lemma canon_map_read [simp]: "canon_map (read_attrs m) = canon_map m"
  using read_attrs_clean [OF read_attrs_facts] by (simp add: canon_map_sorted sorted_map_sorted)

lemma read_attrs_Nil [simp]: "read_attrs m = [] \<longleftrightarrow> m = []"
proof (cases "sorted_map m")
  case Nil
  then show ?thesis using sorted_map_Nil [of m] by (auto simp: read_attrs_def)
next
  case (Cons e es)
  have "fold (\<lambda>(k, x). AList.update (sanitize k) (sanitize x)) xs acc \<noteq> []" if "acc \<noteq> []" for xs acc
    using that
  proof (induction xs arbitrary: acc)
    case (Cons p xs)
    have "AList.update (sanitize (fst p)) (sanitize (snd p)) acc \<noteq> []" by (cases acc) auto
    then show ?case using Cons.IH by (simp add: split_beta)
  qed simp
  then have "read_attrs m \<noteq> []" using Cons by (cases e) (simp add: read_attrs_def)
  then show ?thesis using Cons sorted_map_Nil [of m] by auto
qed

lemma canon_record_read: "canon_record ts (read_record t r) = canon_record ts r"
proof -
  have "canon_attestation \<circ> read_attestation = canon_attestation" by (simp add: fun_eq_iff)
  then show ?thesis by (simp add: canon_record_def read_record_def)
qed

text \<open>The record whose bytes are bound: cut at the hop, its stamp cleared.\<close>

definition cut_at :: "'t log_record \<Rightarrow> nat \<Rightarrow> 't log_record" where
  "cut_at r k =
     \<lparr>lr_schema = (if lr_schema r = 0 then SchemaVersion else lr_schema r), lr_time = lr_time r,
      lr_level = lr_level r, lr_msg = lr_msg r,
      lr_identity = (take (k + 1) (lr_identity r))[k := (lr_identity r ! k)\<lparr>at_mac := []\<rparr>],
      lr_job = lr_job r, lr_attrs = lr_attrs r\<rparr>"

lemma bound_cut:
  assumes "k < length (lr_identity r)"
  shows "bound T r k = (case T (lr_time r) of Inl e \<Rightarrow> Inl e | Inr ts \<Rightarrow> Inr (canon_record ts (cut_at r k)))"
  using assms by (cases r; cases "T (lr_time r)") (simp_all add: bound_def cut_at_def Let_def)

lemma read_attestation_mac: "(read_attestation a)\<lparr>at_mac := []\<rparr> = read_attestation (a\<lparr>at_mac := []\<rparr>)"
  by (cases a) (simp add: read_attestation_def)

lemma cut_read:
  "k < length (lr_identity r) \<Longrightarrow> cut_at (read_record t r) k = read_record t (cut_at r k)"
  by (simp add: cut_at_def read_record_def read_attestation_mac take_map map_update)

lemma bound_read:
  assumes "T (lr_time r) = T t"
  shows "bound T (read_record t r) k = bound T r k"
proof (cases "k < length (lr_identity r)")
  case True
  then have "k < length (lr_identity (read_record t r))" by (simp add: read_record_def)
  then have "bound T (read_record t r) k =
      (case T (lr_time (read_record t r)) of Inl e \<Rightarrow> Inl e | Inr ts \<Rightarrow> Inr (canon_record ts (read_record t (cut_at r k))))"
    using True by (simp only: bound_cut cut_read)
  moreover have "lr_time (read_record t r) = t" by (simp add: read_record_def)
  ultimately show ?thesis using assms True by (simp add: bound_cut canon_record_read split: sum.split)
qed (simp add: bound_def read_record_def)

subsection \<open>Digests\<close>

lemma hex_ascii: "\<forall>c \<in> set (hex_encode s). bv c < 0x80"
proof -
  have h: "\<forall>c \<in> set hex_digits. bv c < 0x80" by code_simp
  have "hex_digits ! n \<in> set hex_digits" if "n < 16" for n
    using that by (intro nth_mem) (simp add: hex_digits_def)
  moreover have "bv c div 16 < 16" for c using bv_less_256 [of c] by linarith
  ultimately show ?thesis using h by (auto simp: hex_encode_def)
qed

lemma sanitize_ascii: "\<forall>c \<in> set (sanitize s). bv c < 0x80 \<Longrightarrow> sanitize s = s"
proof (induction s rule: sanitize.induct)
  case (2 c cs)
  show ?case
  proof (cases "bv c < 0x80")
    case True
    then have s: "sanitize (c # cs) = c # sanitize cs" by (subst sanitize.simps(2)) simp
    then have "\<forall>x \<in> set (sanitize cs). bv x < 0x80" using "2.prems" by simp
    then show ?thesis using "2.IH"(1) True s by simp
  next
    case False
    then have "\<exists>x \<in> set (sanitize (c # cs)). \<not> bv x < 0x80"
    proof (cases "decode_rune (c # cs)")
      case None
      then have "CHR 0xEF \<in> set (sanitize (c # cs))"
        using False by (subst sanitize.simps(2)) (simp add: replacement_bytes)
      moreover have "\<not> bv (CHR 0xEF) < 0x80" by code_simp
      ultimately show ?thesis by blast
    next
      case (Some p)
      then obtain cp n where p: "decode_rune (c # cs) = Some (cp, n)" by (cases p) simp
      then have "2 \<le> n" by (auto elim!: decode_rune_SomeD dest!: utf8_lead_range)
      then have "c \<in> set (take n (c # cs))" by (cases n) simp_all
      then have "c \<in> set (sanitize (c # cs))" using False p by (subst sanitize.simps(2)) simp
      then show ?thesis using False by blast
    qed
    then show ?thesis using "2.prems" by blast
  qed
qed simp

lemma mac_sanitize: "mac H b key = sanitize m \<longleftrightarrow> mac H b key = m"
proof
  assume "mac H b key = sanitize m"
  then have "sanitize m = m" using hex_ascii [of "H key b"] sanitize_ascii [of m] by (simp add: mac_def)
  then show "mac H b key = m" using \<open>mac H b key = sanitize m\<close> by simp
next
  assume m: "mac H b key = m"
  have "validUTF8 x" if "\<forall>c \<in> set x. bv c < 0x80" for x
    using that by (induction x) (simp_all add: validUTF8.simps)
  then have "sanitize m = m" using hex_ascii [of "H key b"] m by (intro sanitize_valid) (auto simp: mac_def)
  then show "mac H b key = sanitize m" using m by simp
qed

lemma binding_read:
  assumes "T (lr_time r) = T t"
  shows "bindingHolds T H (read_record t r) k key \<longleftrightarrow> bindingHolds T H r k key"
proof (cases "k < length (lr_identity r)")
  case True
  then show ?thesis using bound_read [of T r t k, OF assms] mac_sanitize
    by (auto simp: bindingHolds_def read_record_def read_attestation_def split: sum.splits)
qed (simp add: bindingHolds_def bound_def read_record_def)

text \<open>A record without a schema is bound as one of this schema.\<close>

lemma binding_schema:
  "lr_schema r = 0 \<Longrightarrow> bindingHolds T H (r\<lparr>lr_schema := SchemaVersion\<rparr>) k key = bindingHolds T H r k key"
  by (cases "T (lr_time r)") (simp_all add: bindingHolds_def bound_def Let_def SchemaVersion_def)

text \<open>
  C4: Evidence survives the wire: from the line \<^verbatim>\<open>Record.Encode\<close> writes of a record of this schema,
  \<^verbatim>\<open>DecodeRecord\<close> reads a record to which a stamp is bound under a key exactly when it was bound to the
  record written, for every hop, key and keyed hash, although the line replaces what is no UTF-8 and the
  reader loses the order of the attributes; the instant has only to be spelled again as it was.
\<close>

theorem binding_crosses_wire:
  assumes line: "Encode_record T r = Inr line" "lr_schema r = 0 \<or> lr_schema r = SchemaVersion"
    and time: "T (lr_time r) = Inr ts" "TU (json_string True ts) t0 = Some t" "T t = Inr ts"
  shows "\<exists>r'. DecodeRecord (Unmarshal TU t0 E) line = Inr r'
    \<and> (\<forall>k key. bindingHolds T H r' k key \<longleftrightarrow> bindingHolds T H r k key)"
proof (intro exI conjI allI)
  let ?r = "r\<lparr>lr_schema := SchemaVersion\<rparr>"
  show "DecodeRecord (Unmarshal TU t0 E) line = Inr (read_record t ?r)"
    using DecodeRecord_encoded [of T r ts TU t0 t E, OF time(1,2)] line by auto
  have r: "r = ?r" if "lr_schema r = SchemaVersion" using that by simp
  fix k key
  have "bindingHolds T H (read_record t ?r) k key \<longleftrightarrow> bindingHolds T H ?r k key"
    by (rule binding_read) (use time in simp)
  also have "\<dots> \<longleftrightarrow> bindingHolds T H r k key"
    using line(2) binding_schema [of r T H k key] r by metis
  finally show "bindingHolds T H (read_record t ?r) k key \<longleftrightarrow> bindingHolds T H r k key" .
qed

text \<open>A stamp bound under one key: what is read from the line holds under that key and under no other.\<close>

theorem binding_crosses_wire_witness:
  "\<exists>r line r'. Bind text_time weak_hash sample_log 0 ''k1'' ''secret'' = (r, None) \<and> Encode_record text_time r = Inr line
    \<and> DecodeRecord (Unmarshal (\<lambda>raw t. Some ''2024-01-01T00:00:00Z'') [] (\<lambda>l. ''bad'')) line = Inr r'
    \<and> bindingHolds text_time weak_hash r' 0 ''secret'' \<and> \<not> bindingHolds text_time weak_hash r' 0 ''other''"
proof -
  obtain r where b: "Bind text_time weak_hash sample_log 0 ''k1'' ''secret'' = (r, None)"
    and r: "lr_schema r = SchemaVersion" "lr_time r = ''2024-01-01T00:00:00Z''" "0 < length (lr_identity r)"
    by (simp add: Bind_def sample_log_def bound_def text_time_def Let_def SchemaVersion_def)
  have m: "at_mac (lr_identity r ! 0) = hex_encode ''secr''"
    using b by (auto simp: Bind_def sample_log_def bound_def text_time_def Let_def mac_def weak_hash_def)
  obtain line where l: "Encode_record text_time r = Inr line" by (simp add: Encode_record_def text_time_def Let_def)
  have "hex_encode ''othe'' \<noteq> hex_encode ''secr''" by code_simp
  then have h: "bindingHolds text_time weak_hash r 0 ''secret''" "\<not> bindingHolds text_time weak_hash r 0 ''other''"
    using m r(3) by (auto simp: bindingHolds_def bound_def Let_def text_time_def mac_def weak_hash_def)
  have ts: "text_time (lr_time r) = Inr ''2024-01-01T00:00:00Z''" using r(2) by (simp add: text_time_def)
  have spelled: "text_time ''2024-01-01T00:00:00Z'' = Inr ''2024-01-01T00:00:00Z''" by (simp add: text_time_def)
  obtain r' where "DecodeRecord (Unmarshal (\<lambda>raw t. Some ''2024-01-01T00:00:00Z'') [] (\<lambda>l. ''bad'')) line = Inr r'"
    "\<forall>k key. bindingHolds text_time weak_hash r' k key \<longleftrightarrow> bindingHolds text_time weak_hash r k key"
    using binding_crosses_wire [OF l disjI2 [OF r(1)] ts, of "\<lambda>raw t. Some ''2024-01-01T00:00:00Z''" "[]" "''2024-01-01T00:00:00Z''"
        "\<lambda>l. ''bad''" weak_hash] spelled by auto
  then show ?thesis using b l h by blast
qed

end
