(* ===== verification/Replay_Verdicts.thy ===== *)
theory Replay_Verdicts
  imports Replay_Worlds Sent_Provenance
begin

text \<open>
  What the bench driver's assessor says of a record that was attested, sent on and attested again:
  accepting, binding, the wire and the assessment of \<^verbatim>\<open>go/identity.go\<close> in one run of
  \<^verbatim>\<open>go/cmd/replay/main.go\<close>.
\<close>

subsection \<open>Accepting onto a chain\<close>

lemma Accept_onto:
  assumes "lr_identity r \<noteq> []"
  shows "Accept T H sv r peer None =
    (let r2 = r\<lparr>lr_identity := lr_identity r @ [peer\<lparr>at_hop := of_nat (length (lr_identity r))\<rparr>]\<rparr>
     in case sv_key sv of None \<Rightarrow> r2 | Some key \<Rightarrow> fst (Bind T H r2 (length (lr_identity r)) (sv_keyid sv) key))"
  using assms by (cases r; cases "sv_key sv") (simp_all add: Accept_def Let_def)

text \<open>The stamp a service adds; with a key it is bound to the record, with a mac that is not empty.\<close>

lemma Accept_stamp:
  assumes c: "lr_identity r \<noteq> []" and t: "T (lr_time r) = Inr ts" and h: "\<And>k x. H k x \<noteq> []"
  obtains stamp where "Accept T H sv r peer None = r\<lparr>lr_identity := lr_identity r @ [stamp]\<rparr>"
    "sameStamp stamp peer" "at_hop stamp = of_nat (length (lr_identity r))"
    "sv_key sv = None \<Longrightarrow> at_mac stamp = at_mac peer"
    "\<And>key. sv_key sv = Some key \<Longrightarrow> at_key stamp = sv_keyid sv \<and> at_mac stamp \<noteq> []
      \<and> bindingHolds T H (r\<lparr>lr_identity := lr_identity r @ [stamp]\<rparr>) (length (lr_identity r)) key"
proof (cases "sv_key sv")
  case None
  show ?thesis
    by (rule that [of "peer\<lparr>at_hop := of_nat (length (lr_identity r))\<rparr>"])
      (simp_all add: None Accept_onto [OF c] Let_def)
next
  case (Some key)
  let ?n = "length (lr_identity r)"
  let ?r2 = "r\<lparr>lr_identity := lr_identity r @ [peer\<lparr>at_hop := of_nat ?n\<rparr>]\<rparr>"
  obtain r' e where b: "Bind T H ?r2 ?n (sv_keyid sv) key = (r', e)" by fastforce
  obtain m x where r': "r' = r\<lparr>lr_identity := lr_identity r @ [peer\<lparr>at_hop := of_nat ?n, at_key := sv_keyid sv, at_mac := m\<rparr>]\<rparr>"
      "m = mac H x key" and e: "e = None"
    using b t by (auto simp: Bind_def Let_def bound_eq with_schema_def split: sum.splits if_splits)
  have "bindingHolds T H r' ?n key" using bind_holds [OF b [unfolded e], of "lr_identity r'"] by simp
  moreover have "m \<noteq> []" using h [of key x] unfolding r'(2) mac_def hex_encode_def by (cases "H key x") simp_all
  ultimately show ?thesis
    using that [of "peer\<lparr>at_hop := of_nat ?n, at_key := sv_keyid sv, at_mac := m\<rparr>"] b r'(1) Some
    by (simp add: Accept_onto [OF c] Let_def)
qed

text \<open>A later hop does not touch the bytes an earlier one is bound to.\<close>

lemma binding_onto:
  assumes "k < length (lr_identity r)"
  shows "bindingHolds T H (r\<lparr>lr_identity := lr_identity r @ hops\<rparr>) k key = bindingHolds T H r k key"
proof -
  let ?r = "r\<lparr>lr_identity := lr_identity r @ hops\<rparr>"
  have "cut_chain (lr_identity r @ hops) k = cut_chain (lr_identity r) k"
    using assms by (intro cut_chain_take) simp_all
  then have "bound T ?r k = bound T r k"
    using assms by (cases "T (lr_time r)") (simp_all add: bound_eq with_schema_def)
  then show ?thesis using assms by (simp add: bindingHolds_def nth_append split: sum.split)
qed


subsection \<open>Sending\<close>

text \<open>What the world outside is asked for: instants print and read back alike, and who does not listen refuses.\<close>

definition instants :: "'t bench \<Rightarrow> bool" where
  "instants b \<longleftrightarrow> (\<forall>t. \<exists>ts. bn_T b t = Inr ts
     \<and> (\<exists>t'. bn_TU b (json_string True ts) (bn_zero b) = Some t' \<and> bn_T b t' = Inr ts))"

definition refuses :: "'t bench \<Rightarrow> bool" where
  "refuses b \<longleftrightarrow> (\<forall>ls addr limit. addr \<notin> set ls \<longrightarrow> nw_dial (bn_network b ls) addr limit \<noteq> None)"

lemma instants_readable: "instants b \<Longrightarrow> readable b"
  unfolding instants_def readable_def by (metis sum.inject(2))

lemma send_reads:
  assumes i: "instants b" and q: "refuses b" and k: "kept b p" and s: "lr_schema r = SchemaVersion"
  obtains t where "send_record b p r = Inr (read_record t r)" "bn_T b t = bn_T b (lr_time r)"
proof -
  obtain ts t where t: "bn_T b (lr_time r) = Inr ts" "bn_TU b (json_string True ts) (bn_zero b) = Some t" "bn_T b t = Inr ts"
    using i unfolding instants_def by blast
  have v: "r\<lparr>lr_schema := SchemaVersion\<rparr> = r" using s by (cases r) simp
  obtain line where line: "Encode_record (bn_T b) r = Inr line"
    using Encode_record_Inr [of "bn_T b" r] t(1) by auto
  have l: "line = marshal_record ts r @ [LF]" using line t(1) s by (simp add: Encode_record_def SchemaVersion_def)
  have "Unmarshal (bn_TU b) (bn_zero b) (bn_E b) (marshal_record ts r @ []) = Inr (read_record t r)"
    by (rule Unmarshal_text [where f = "json_string True" and ts = ts])
      (rule marshal_reads [unfolded marshal_json_def], use t in \<open>simp_all add: maxNestingDepth_def\<close>)
  then have d: "bench_decode b (TrimSuffix line) = Inr (read_record t r)"
    using l s by (simp add: TrimSuffix_def bench_decode_def DecodeRecord_def read_record_def)
  let ?sink = "NewServiceSink (Join (bn_work b) ''nobody-listens.sock'')"
  have "nw_dial (bn_network b (rp_listening p)) (Join (bn_work b) ''nobody-listens.sock'') (timeout ?sink) \<noteq> None"
    using q k by (simp add: refuses_def kept_def)
  then obtain e where "send (bn_network b (rp_listening p)) line ?sink = (?sink, Some e)"
    by (auto simp: send_def NewServiceSink_def)
  then have "send_record b p r = Inr (read_record t r)"
    using line d by (simp add: send_record_def Let_def ServiceSink_Write_def)
  then show ?thesis using that t by simp
qed


subsection \<open>Attested, sent, attested\<close>

lemma attest_world:
  assumes "record_of p (arg f 1) = Some r" "arg f 2 \<noteq> []" "arg f 2 \<noteq> ''none''" "op_attest b f p = (Says x, p')"
  defines "r' \<equiv> Accept (bn_T b) (bn_H b) (bench_server (has_flag f ''bind'')) r
    (benched_peer (arg f 2) (has_flag f ''contradicts'') (has_flag f ''relay'') r) None"
  shows "record_of p' (arg f 1) = Some r'" "anchor_of p' (arg f 1) = Some (last (lr_identity r'))"
  using assms by (auto simp: op_attest_def Let_def put_record_def record_of_def anchor_of_def update_conv' split: if_splits)

lemma send_world:
  assumes "record_of p (arg g 1) = Some r" "send_record b p r = Inr r'" "op_send b g p = (Says x, p')"
  shows "record_of p' (arg g 1) = Some r'"
  using assms by (auto simp: op_send_def put_record_def drop_anchor_def record_of_def update_conv')

lemma peer_fields:
  "at_by (benched_peer by c rel r) = by" "at_verified (benched_peer by c rel r)" "at_mac (benched_peer by c rel r) = []"
  "1 < length (lr_identity r) \<Longrightarrow> at_exe (benched_peer by c rel r) = (if rel then ''/usr/bin/relay'' else ''/usr/bin/forwarder'')"
  by (simp_all add: benched_peer_def Let_def)

lemma same_fields: "sameStamp a b \<Longrightarrow> at_by a = at_by b \<and> at_verified a = at_verified b \<and> at_exe a = at_exe b"
  by (cases a; cases b) (simp add: sameStamp_def)

text \<open>The last hop of an accepted record, and what stands below it.\<close>

lemma three_hops:
  assumes c: "lr_identity r = [a, s, q]" and n: "anchor = Some q" and v: "asserts s" "asserts q"
  shows "standings T H r anchor p ! 2 = Established"
    "Vouched \<le> standings T H r anchor p ! 1 \<longleftrightarrow> key_bound T H r p 1 \<or> (\<exists>relay. po_relay p = Some relay \<and> relay q)"
proof -
  show e: "standings T H r anchor p ! 2 = Established"
    using established_iff [of 2 r T H anchor p] c n v(2) by (simp add: own_stamp_def)
  have "Vouched \<le> standings T H r anchor p ! 1 \<longleftrightarrow>
      asserts (lr_identity r ! 1) \<and> (own_stamp r anchor 1 \<or> key_bound T H r p 1
        \<or> (may_relay r p 1 \<and> Vouched \<le> standings T H r anchor p ! (1 + 1)))"
    by (rule vouched_step) (simp add: c)
  moreover have "Vouched \<le> standings T H r anchor p ! (1 + 1)" using e by (simp add: numeral_2_eq_2)
  ultimately show "Vouched \<le> standings T H r anchor p ! 1 \<longleftrightarrow>
      key_bound T H r p 1 \<or> (\<exists>relay. po_relay p = Some relay \<and> relay q)"
    using c v(1) by (simp add: own_stamp_def may_relay_def)
qed

text \<open>What the driver answers about a chain of three hops whose last one is the anchor.\<close>

lemma verdicts:
  assumes w: "record_of p m = Some r" "anchor_of p m = Some q" "lr_identity r = [a, s, q]"
    and v: "asserts s" "asserts q" "at_hop s = 1" "at_hop q = 2"
  shows "fst (op_author_or_relay b [''author'', m] p) =
      Says (if key_bound (bn_T b) (bn_H b) r bench_policy 1 \<or> at_exe q = ''/usr/bin/relay''
        then ''ok by='' @ at_by s @ '' hop=1'' else ''no-answer unattributed'')"
    "fst (op_author_or_relay b [''relay'', m] p) = Says (''ok by='' @ at_by q @ '' hop=2'')"
proof -
  have st: "standings (bn_T b) (bn_H b) r (Some q) bench_policy ! Suc (Suc 0) = Established"
    "Vouched \<le> standings (bn_T b) (bn_H b) r (Some q) bench_policy ! 1 \<longleftrightarrow>
      key_bound (bn_T b) (bn_H b) r bench_policy 1 \<or> at_exe q = ''/usr/bin/relay''"
    using three_hops [OF w(3) refl v(1,2), of "bn_T b" "bn_H b" bench_policy]
    by (simp_all add: bench_policy_def numeral_2_eq_2)
  have "arg [x, m] 0 = x" "arg [x, m] 1 = m" for x by (simp_all add: arg_def)
  moreover have "char_of (49 :: nat) = CHR ''1''" "char_of (50 :: nat) = CHR ''2''" by code_simp+
  then have "decimal 1 = ''1''" "decimal 2 = ''2''" by (simp_all add: decimal_def num_def num_loop.simps)
  ultimately show "fst (op_author_or_relay b [''author'', m] p) =
      Says (if key_bound (bn_T b) (bn_H b) r bench_policy 1 \<or> at_exe q = ''/usr/bin/relay''
        then ''ok by='' @ at_by s @ '' hop=1'' else ''no-answer unattributed'')"
    "fst (op_author_or_relay b [''relay'', m] p) = Says (''ok by='' @ at_by q @ '' hop=2'')"
    using w st v(3,4) by (simp_all add: op_author_or_relay_def assessed_def Author_def Relay_def Assess_sel Let_def)
qed

text \<open>A binding under the operator's key survives sending and a further hop.\<close>

lemma key_bound_on:
  assumes t: "T t = T (lr_time r)" and c: "lr_identity r = [a, s]" and k: "bind \<Longrightarrow> at_key s = ''k1'' \<and> at_mac s \<noteq> []
      \<and> bindingHolds T H r 1 operatorKey" and n: "\<not> bind \<Longrightarrow> at_mac s = []"
  shows "key_bound T H ((read_record t r)\<lparr>lr_identity := [read_attestation a, read_attestation s, q]\<rparr>) bench_policy 1 \<longleftrightarrow> bind"
proof (cases bind)
  case True
  have c2: "lr_identity (read_record t r) = [read_attestation a, read_attestation s]" using c by (simp add: read_record_def)
  have "bindingHolds T H (read_record t r) 1 operatorKey" using binding_read [of T r t H 1 operatorKey] k True t by simp
  then have "bindingHolds T H ((read_record t r)\<lparr>lr_identity := [read_attestation a, read_attestation s, q]\<rparr>) 1 operatorKey"
    using binding_onto [of 1 "read_record t r" T H "[q]" operatorKey] c2 by simp
  moreover have "sanitize ''k1'' = ''k1''" by (rule sanitize_valid, rule validUTF8_ascii) (simp add: bv_def)
  ultimately show ?thesis using True k by (simp add: key_bound_def bench_policy_def read_attestation_def)
qed (use n in \<open>simp add: key_bound_def read_attestation_def\<close>)

text \<open>
  C5: Who wrote a record is answered from evidence.  A record with the writer's claim is attested by one
  service, sent on, and attested by a second.  The driver then names the writer's attestation as the
  author if the first service bound it under the operator's key or the second is the relay the policy
  allows, and otherwise names nobody, whatever the mechanisms are called and whatever the stamps say;
  the second service is the relay either way.
\<close>

theorem author_is_bound_or_relayed:
  assumes world: "instants b" "refuses b" "whole_appends b" "fresh b p0" "visits b p0 p"
    and hash: "\<And>k x. bn_H b k x \<noteq> []"
    and rec: "record_of p m = Some r" "lr_identity r = [a]"
    and args: "arg f 1 = m" "arg g 1 = m" "arg h 1 = m"
    and first: "arg f 2 \<noteq> []" "arg f 2 \<noteq> ''none''" "arg f 2 \<noteq> BySelf" "validUTF8 (arg f 2)"
    and second: "arg h 2 \<noteq> []" "arg h 2 \<noteq> ''none''" "arg h 2 \<noteq> BySelf"
    and run: "op_attest b f p = (Says x1, p1)" "op_send b g p1 = (Says x2, p2)" "op_attest b h p2 = (Says x3, p3)"
  shows "fst (op_author_or_relay b [''author'', m] p3) =
      Says (if has_flag f ''bind'' \<or> has_flag h ''relay'' then ''ok by='' @ arg f 2 @ '' hop=1''
        else ''no-answer unattributed'')
    \<and> fst (op_author_or_relay b [''relay'', m] p3) = Says (''ok by='' @ arg h 2 @ '' hop=2'')"
proof -
  let ?T = "bn_T b" and ?H = "bn_H b"
  have rd: "readable b" by (rule instants_readable [OF world(1)])
  have k: "kept b p" by (rule visits_kept [OF rd world(3,5,4)])
  have prints: "\<exists>ts. ?T t = Inr ts" for t using world(1) unfolding instants_def by blast
  let ?peer1 = "benched_peer (arg f 2) (has_flag f ''contradicts'') (has_flag f ''relay'') r"
  obtain ts where ts: "?T (lr_time r) = Inr ts" using prints by blast
  obtain s where s: "Accept ?T ?H (bench_server (has_flag f ''bind'')) r ?peer1 None = r\<lparr>lr_identity := [a, s]\<rparr>"
    "sameStamp s ?peer1" "at_hop s = 1" "\<not> has_flag f ''bind'' \<Longrightarrow> at_mac s = []"
    "has_flag f ''bind'' \<Longrightarrow> at_key s = ''k1'' \<and> at_mac s \<noteq> [] \<and> bindingHolds ?T ?H (r\<lparr>lr_identity := [a, s]\<rparr>) 1 operatorKey"
    by (rule Accept_stamp [where T = ?T and r = r and ts = ts and H = ?H and sv = "bench_server (has_flag f ''bind'')" and peer = ?peer1])
      (use rec ts hash in \<open>auto simp: bench_server_def peer_fields\<close>)
  define r1 where "r1 = r\<lparr>lr_identity := [a, s]\<rparr>"
  have w1: "record_of p1 m = Some r1"
    using attest_world(1) [OF _ first(1,2) run(1)] rec args s(1) by (simp add: r1_def)
  have k1: "kept b p1" using op_attest_kept [OF k, of f] run(1) by simp
  obtain t where t: "send_record b p1 r1 = Inr (read_record t r1)" "?T t = ?T (lr_time r1)"
    by (rule send_reads [OF world(1,2) k1, of r1]) (use kept_record [OF k1 w1] in \<open>simp_all add: sound_def\<close>)
  define r2 where "r2 = read_record t r1"
  have w2: "record_of p2 m = Some r2"
    using send_world [of p1 g r1 b "read_record t r1" x2 p2] w1 t(1) run(2) args(2) by (simp add: r2_def)
  let ?a = "read_attestation a" and ?s = "read_attestation s"
  have c2: "lr_identity r2 = [?a, ?s]" by (simp add: r2_def read_record_def r1_def)
  let ?peer2 = "benched_peer (arg h 2) (has_flag h ''contradicts'') (has_flag h ''relay'') r2"
  obtain ts2 where ts2: "?T (lr_time r2) = Inr ts2" using prints by blast
  obtain q where q: "Accept ?T ?H (bench_server (has_flag h ''bind'')) r2 ?peer2 None = r2\<lparr>lr_identity := [?a, ?s, q]\<rparr>"
    "sameStamp q ?peer2" "at_hop q = 2"
    by (rule Accept_stamp [where T = ?T and r = r2 and ts = ts2 and H = ?H and sv = "bench_server (has_flag h ''bind'')" and peer = ?peer2])
      (use c2 ts2 hash in \<open>auto simp: bench_server_def peer_fields\<close>)
  define r3 where "r3 = r2\<lparr>lr_identity := [?a, ?s, q]\<rparr>"
  have w3: "record_of p3 m = Some r3" "anchor_of p3 m = Some q"
    using attest_world [of p2 h r2 b x3 p3] w2 second run(3) args q(1) by (simp_all add: r3_def)
  have as: "asserts ?s" "asserts q" "at_by ?s = arg f 2" "at_by q = arg h 2"
    "at_exe q = (if has_flag h ''relay'' then ''/usr/bin/relay'' else ''/usr/bin/forwarder'')"
    using same_fields [OF s(2)] same_fields [OF q(2)] first second c2
    by (simp_all add: peer_fields asserts_def read_attestation_def sanitize_valid)
  have "key_bound ?T ?H r3 bench_policy 1 \<longleftrightarrow> has_flag f ''bind''"
    using key_bound_on [of ?T t r1 a s "has_flag f ''bind''" ?H q] t(2) s(4,5) by (simp add: r1_def r2_def r3_def)
  moreover have "at_hop ?s = 1" using s(3) by (simp add: read_attestation_def)
  ultimately show ?thesis using verdicts [of p3 m r3 q ?a ?s b] w3 as q(3) by (simp add: r3_def)
qed

definition still_bench :: "unit bench" where
  "still_bench =
     \<lparr>bn_T = (\<lambda>t. Inr ''1970-01-01T00:00:00.000000Z''), bn_TU = (\<lambda>raw t. Some t), bn_zero = (), bn_H = (\<lambda>key x. ''h'' @ key @ x),
      bn_E = (\<lambda>line. ''malformed''), bn_epoch = (), bn_host = ''h'', bn_pid = 7, bn_work = ''/w'',
      bn_network = (\<lambda>listening. \<lparr>nw_dial = (\<lambda>addr limit. if addr \<in> set listening then None else Some ''refused''),
        nw_write = (\<lambda>limit l. (length l, None)), nw_close = None\<rparr>),
      bn_listens = (\<lambda>a. True), bn_append = (\<lambda>l. (length l, None)), bn_arrives = (\<lambda>i n. True), bn_perm = (\<lambda>path. None), bn_room = 2 ^ 47\<rparr>"

lemma says: "fst z \<noteq> Panicked \<Longrightarrow> \<exists>x. z = (Says x, snd z)"
  by (cases z; cases "fst z") simp_all

theorem author_is_bound_or_relayed_witness:
  "\<exists>p. fst (op_author_or_relay still_bench [''author'', ''a''] p) = Says ''ok by=so_peercred hop=1''
    \<and> fst (op_author_or_relay still_bench [''relay'', ''a''] p) = Says ''ok by=peer_cert hop=2''"
proof -
  let ?b = still_bench and ?f = "[''attest'', ''a'', ''so_peercred'']" and ?g = "[''send'', ''a'']"
    and ?h = "[''attest'', ''a'', ''peer_cert'', ''relay'']" and ?r = "[''record'', ''a'', ''0'']"
  let ?p = "snd (apply_op ?b ?r (start [] []))"
  let ?p1 = "snd (op_attest ?b ?f ?p)"
  let ?p2 = "snd (op_send ?b ?g ?p1)"
  let ?p3 = "snd (op_attest ?b ?h ?p2)"
  have b: "instants ?b" "refuses ?b" "whole_appends ?b" "fresh ?b (start [] [])"
    by (simp_all add: instants_def refuses_def whole_appends_def fresh_def start_def still_bench_def)
  have v: "visits ?b (start [] []) ?p" by (intro visits_step visits.here) (simp add: blows_up_def)
  have h: "bn_H ?b k x \<noteq> []" for k x by (simp add: still_bench_def)
  have "Atoi ''0'' = Some 0" by (simp add: Atoi_def Let_def is_digit_def bv_def)
  then have r: "record_of ?p ''a'' = Some (hello_record ?b 0)"
    by (simp add: apply_op_def op_record_def arg_def Let_def put_record_def drop_anchor_def record_of_def start_def)
  have c: "lr_identity (hello_record ?b 0) = [Claim ''h'' 7 ''replay'']" by (simp add: hello_record_def still_bench_def)
  have a: "arg ?f 1 = ''a''" "arg ?g 1 = ''a''" "arg ?h 1 = ''a''" "arg ?f 2 = ''so_peercred''" "arg ?h 2 = ''peer_cert''"
    by (simp_all add: arg_def)
  have fl: "has_flag ?h ''relay''" by (simp add: has_flag_def)
  have u: "validUTF8 ''so_peercred''" by (rule validUTF8_ascii) (simp add: bv_def)
  obtain x1 x2 x3 where s: "op_attest ?b ?f ?p = (Says x1, ?p1)" "op_send ?b ?g ?p1 = (Says x2, ?p2)" "op_attest ?b ?h ?p2 = (Says x3, ?p3)"
    using says [of "op_attest ?b ?f ?p"] says [of "op_send ?b ?g ?p1"] says [of "op_attest ?b ?h ?p2"] answers by metis
  show ?thesis
    using author_is_bound_or_relayed [OF b v h r c a(1-3) _ _ _ _ _ _ _ s] a(4,5) fl u by (intro exI [of _ ?p3]) (simp add: BySelf_def)
qed

end
