(* ===== verification/Accept_Loop.thy ===== *)
theory Accept_Loop
  imports Service_Sink
begin

text \<open>
  The life of the receiving \<^verbatim>\<open>Server\<close> of \<^verbatim>\<open>go/service.go\<close>: \<^verbatim>\<open>Listen\<close>, the accept
  loop of \<^verbatim>\<open>Serve\<close>, \<^verbatim>\<open>track\<close>, the goroutine of each connection and \<^verbatim>\<open>Close\<close>.  Every
  atomic piece is an event; the network and the scheduler choose the next one.
\<close>

subsection \<open>State\<close>

text \<open>
  Where a connection is: returned by Accept, entered in the map, its handler running, and then the
  deferred calls in their order.
\<close>

datatype conn_phase =
    Just_accepted
  | Entered
  | Handling
  | Handled
  | Hung_up
  | Removed
  | Finished

record connection =
  cn_phase :: conn_phase
  cn_open :: bool
  cn_tracked :: bool

datatype accept_loop = Waits | Admits | Ended

datatype close_phase = Not_closing | Listener_closed | Swept | Close_returned

record accepting =
  ac_listening :: bool
  ac_loop :: accept_loop
  ac_conns :: "connection list"
  ac_wg :: nat
  ac_close :: close_phase

text \<open>
  A stale socket file is removed whatever the outcome, and the mode is set whatever the outcome; only
  the error of listening counts.
\<close>

definition Server_Listen :: "string option \<Rightarrow> string + accepting" where
  "Server_Listen err =
     (case err of
        Some e \<Rightarrow> Inl e
      | None \<Rightarrow> Inr \<lparr>ac_listening = True, ac_loop = Waits, ac_conns = [], ac_wg = 0, ac_close = Not_closing\<rparr>)"

datatype accept_event =
    Accepts
  | Accept_fails
  | Enters
  | Starts
  | Handle_returns nat
  | Hangs_up nat
  | Removes nat
  | Ends nat
  | Close_listener
  | Sweep
  | Close_returns

text \<open>\<^verbatim>\<open>track\<close> on one connection of the map.\<close>

definition track :: "bool \<Rightarrow> connection \<Rightarrow> connection" where
  "track yes c = c\<lparr>cn_tracked := yes\<rparr>"

definition close_tracked :: "connection \<Rightarrow> connection" where
  "close_tracked c = (if cn_tracked c then c\<lparr>cn_open := False\<rparr> else c)"

definition advance :: "nat \<Rightarrow> conn_phase \<Rightarrow> (connection \<Rightarrow> connection) \<Rightarrow> accepting \<Rightarrow> accepting option" where
  "advance i p f a =
     (if i < length (ac_conns a) \<and> cn_phase (ac_conns a ! i) = p
      then Some (a\<lparr>ac_conns := (ac_conns a)[i := f (ac_conns a ! i)]\<rparr>) else None)"

fun accept_step :: "accept_event \<Rightarrow> accepting \<Rightarrow> accepting option" where
  "accept_step Accepts a =
     (if ac_loop a = Waits \<and> ac_listening a
      then Some (a\<lparr>ac_conns := ac_conns a @ [\<lparr>cn_phase = Just_accepted, cn_open = True, cn_tracked = False\<rparr>], ac_loop := Admits\<rparr>)
      else None)"
| "accept_step Accept_fails a = (if ac_loop a = Waits then Some (a\<lparr>ac_loop := Ended\<rparr>) else None)"
| "accept_step Enters a =
     (if ac_loop a = Admits
      then advance (length (ac_conns a) - 1) Just_accepted (\<lambda>c. (track True c)\<lparr>cn_phase := Entered\<rparr>) a else None)"
| "accept_step Starts a =
     (if ac_loop a = Admits
      then map_option (\<lambda>a. a\<lparr>ac_wg := ac_wg a + 1, ac_loop := Waits\<rparr>)
             (advance (length (ac_conns a) - 1) Entered (\<lambda>c. c\<lparr>cn_phase := Handling\<rparr>) a)
      else None)"
| "accept_step (Handle_returns i) a = advance i Handling (\<lambda>c. c\<lparr>cn_phase := Handled\<rparr>) a"
| "accept_step (Hangs_up i) a = advance i Handled (\<lambda>c. c\<lparr>cn_phase := Hung_up, cn_open := False\<rparr>) a"
| "accept_step (Removes i) a = advance i Hung_up (\<lambda>c. (track False c)\<lparr>cn_phase := Removed\<rparr>) a"
| "accept_step (Ends i) a =
     map_option (\<lambda>a. a\<lparr>ac_wg := ac_wg a - 1\<rparr>) (advance i Removed (\<lambda>c. c\<lparr>cn_phase := Finished\<rparr>) a)"
| "accept_step Close_listener a =
     (if ac_close a = Not_closing then Some (a\<lparr>ac_listening := False, ac_close := Listener_closed\<rparr>) else None)"
| "accept_step Sweep a =
     (if ac_close a = Listener_closed
      then Some (a\<lparr>ac_conns := map close_tracked (ac_conns a), ac_close := Swept\<rparr>)
      else None)"
| "accept_step Close_returns a =
     (if ac_close a = Swept \<and> ac_wg a = 0 then Some (a\<lparr>ac_close := Close_returned\<rparr>) else None)"

inductive serving :: "accepting \<Rightarrow> bool" where
  listen: "Server_Listen None = Inr a \<Longrightarrow> serving a"
| event: "serving a \<Longrightarrow> accept_step e a = Some a' \<Longrightarrow> serving a'"

fun accept_run :: "accept_event list \<Rightarrow> accepting \<Rightarrow> accepting option" where
  "accept_run [] a = Some a"
| "accept_run (e # es) a = (case accept_step e a of None \<Rightarrow> None | Some a' \<Rightarrow> accept_run es a')"

lemma serving_run: "serving a \<Longrightarrow> accept_run es a = Some a' \<Longrightarrow> serving a'"
  by (induction es arbitrary: a) (auto split: option.splits intro: serving.event)

subsection \<open>The invariant\<close>

definition admitted :: "conn_phase \<Rightarrow> bool" where
  "admitted p \<longleftrightarrow> p \<noteq> Just_accepted \<and> p \<noteq> Entered"

definition at_work :: "connection \<Rightarrow> bool" where
  "at_work c \<longleftrightarrow> admitted (cn_phase c) \<and> cn_phase c \<noteq> Finished"

definition conn_ok :: "connection \<Rightarrow> bool" where
  "conn_ok c \<longleftrightarrow> (cn_tracked c \<longleftrightarrow> cn_phase c \<in> {Entered, Handling, Handled, Hung_up})
     \<and> (cn_phase c \<in> {Hung_up, Removed, Finished} \<longrightarrow> \<not> cn_open c)"

definition accept_ok :: "accepting \<Rightarrow> bool" where
  "accept_ok a \<longleftrightarrow>
     list_all conn_ok (ac_conns a)
     \<and> list_all (\<lambda>c. admitted (cn_phase c)) (if ac_loop a = Admits then butlast (ac_conns a) else ac_conns a)
     \<and> ac_wg a = length (filter at_work (ac_conns a))
     \<and> (ac_close a \<noteq> Not_closing \<longrightarrow> \<not> ac_listening a)
     \<and> (ac_close a = Swept \<or> ac_close a = Close_returned \<longrightarrow> list_all (\<lambda>c. \<not> cn_open c) (butlast (ac_conns a)))
     \<and> (ac_close a = Close_returned \<longrightarrow> list_all (\<lambda>c. cn_phase c = Finished) (butlast (ac_conns a)))"

text \<open>A handler's step: the connection at an index goes from one phase after admission to another.\<close>

lemma handler_ok:
  assumes ok: "accept_ok a" and i: "i < length (ac_conns a)" "ac_conns a ! i = c" and p: "at_work c"
    and c': "conn_ok c'" "admitted (cn_phase c')" "cn_open c' \<longrightarrow> cn_open c"
    and w: "wg + of_bool (at_work c) = ac_wg a + of_bool (at_work c')"
  shows "accept_ok (a\<lparr>ac_conns := (ac_conns a)[i := c'], ac_wg := wg\<rparr>)"
proof -
  let ?xs = "(ac_conns a)[i := c']"
  have "length (filter at_work ?xs) + of_bool (at_work c) = length (filter at_work (ac_conns a)) + of_bool (at_work c')"
    using count_move [OF i(1), of at_work c'] i(2) by simp
  then have "wg = length (filter at_work ?xs)" using w ok p by (simp add: accept_ok_def)
  moreover have "list_all (\<lambda>c. cn_phase c = Finished) (butlast ?xs)" if f: "list_all (\<lambda>c. cn_phase c = Finished) (butlast (ac_conns a))"
  proof -
    have "\<not> i < length (ac_conns a) - 1"
    proof
      assume "i < length (ac_conns a) - 1"
      then have "cn_phase (butlast (ac_conns a) ! i) = Finished" using f by (simp add: list_all_length)
      then show False using p i \<open>i < length (ac_conns a) - 1\<close> by (simp add: at_work_def nth_butlast)
    qed
    then have "i = length (ac_conns a) - 1" using i(1) by linarith
    then show ?thesis using f by (simp add: butlast_list_update)
  qed
  moreover have "list_all (\<lambda>c. admitted (cn_phase c)) (if ac_loop a = Admits then butlast ?xs else ?xs)"
    using ok c'(2) by (auto simp: accept_ok_def butlast_list_update intro!: list_all_update)
  moreover have "list_all (\<lambda>c. \<not> cn_open c) (butlast ?xs)" if n: "list_all (\<lambda>c. \<not> cn_open c) (butlast (ac_conns a))"
  proof (cases "i < length (ac_conns a) - 1")
    case True
    then have "\<not> cn_open c" using n i(2) by (auto simp: list_all_length nth_butlast)
    then show ?thesis using n c'(3) by (auto simp: butlast_list_update intro!: list_all_update)
  next
    case False
    then have "i = length (ac_conns a) - 1" using i(1) by linarith
    then show ?thesis using n by (simp add: butlast_list_update)
  qed
  ultimately show ?thesis using ok c'(1) by (auto simp: accept_ok_def intro: list_all_update)
qed

lemma advance_Some:
  "advance i p f a = Some a' \<longleftrightarrow> i < length (ac_conns a) \<and> cn_phase (ac_conns a ! i) = p
    \<and> a' = a\<lparr>ac_conns := (ac_conns a)[i := f (ac_conns a ! i)]\<rparr>"
  by (auto simp: advance_def)

text \<open>The accept loop's step on the connection it is admitting, which is the last one.\<close>

lemma advance_last:
  assumes "advance (length (ac_conns a) - 1) p f a = Some a'"
  shows "ac_conns a \<noteq> []" "cn_phase (last (ac_conns a)) = p"
    "a' = a\<lparr>ac_conns := butlast (ac_conns a) @ [f (last (ac_conns a))]\<rparr>"
  using assms by (cases "ac_conns a" rule: rev_cases; simp add: advance_Some nth_append)+

lemma conns_last:
  assumes "accept_ok a" "ac_loop a = Admits" "ac_conns a \<noteq> []"
  shows "list_all (\<lambda>c. admitted (cn_phase c)) (butlast (ac_conns a))" "list_all conn_ok (butlast (ac_conns a))"
    "ac_wg a = length (filter at_work (butlast (ac_conns a))) + of_bool (at_work (last (ac_conns a)))"
proof -
  obtain xs x where x: "ac_conns a = xs @ [x]" using assms(3) by (cases "ac_conns a" rule: rev_cases) auto
  then show "list_all (\<lambda>c. admitted (cn_phase c)) (butlast (ac_conns a))" "list_all conn_ok (butlast (ac_conns a))"
    "ac_wg a = length (filter at_work (butlast (ac_conns a))) + of_bool (at_work (last (ac_conns a)))"
    using assms(1,2) by (auto simp: accept_ok_def)
qed

lemma conn_at: "accept_ok a \<Longrightarrow> i < length (ac_conns a) \<Longrightarrow> conn_ok (ac_conns a ! i)"
  by (simp add: accept_ok_def list_all_length)

text \<open>After the map was gone through, only a connection not yet in it is open.\<close>

lemma close_tracked_phase: "cn_phase (close_tracked c) = cn_phase c"
  by (simp add: close_tracked_def)

lemma swept_closed: "conn_ok c \<Longrightarrow> cn_phase c \<noteq> Just_accepted \<Longrightarrow> \<not> cn_open (close_tracked c)"
  by (cases "cn_phase c") (auto simp: conn_ok_def close_tracked_def)

lemma accept_ok_step:
  assumes ok: "accept_ok a" and st: "accept_step e a = Some a'"
  shows "accept_ok a'"
proof (cases e)
  case Accepts
  then show ?thesis using ok st by (auto simp: accept_ok_def conn_ok_def at_work_def admitted_def split: if_splits)
next
  case Accept_fails
  then show ?thesis using ok st by (auto simp: accept_ok_def split: if_splits)
next
  case Enters
  then have l: "ac_loop a = Admits" and n: "ac_conns a \<noteq> []"
    and p: "cn_phase (last (ac_conns a)) = Just_accepted"
    and a': "a' = a\<lparr>ac_conns := butlast (ac_conns a) @ [(track True (last (ac_conns a)))\<lparr>cn_phase := Entered\<rparr>]\<rparr>"
    using st advance_last [of a Just_accepted "\<lambda>c. (track True c)\<lparr>cn_phase := Entered\<rparr>" a'] by (auto split: if_splits)
  show ?thesis using conns_last [OF ok l n] ok l p a'
    by (auto simp: accept_ok_def conn_ok_def track_def at_work_def admitted_def)
next
  case Starts
  then have l: "ac_loop a = Admits" and n: "ac_conns a \<noteq> []"
    and p: "cn_phase (last (ac_conns a)) = Entered"
    and a': "a' = a\<lparr>ac_conns := butlast (ac_conns a) @ [(last (ac_conns a))\<lparr>cn_phase := Handling\<rparr>], ac_wg := ac_wg a + 1, ac_loop := Waits\<rparr>"
    using st advance_last [of a Entered "\<lambda>c. c\<lparr>cn_phase := Handling\<rparr>"] by (auto split: if_splits)
  have "conn_ok (last (ac_conns a))" using ok n by (simp add: accept_ok_def list_all_iff)
  then have "conn_ok ((last (ac_conns a))\<lparr>cn_phase := Handling\<rparr>)" using p by (simp add: conn_ok_def)
  then show ?thesis using conns_last [OF ok l n] ok l p a'
    by (auto simp: accept_ok_def at_work_def admitted_def)
next
  case (Handle_returns i)
  then have i: "i < length (ac_conns a)" "cn_phase (ac_conns a ! i) = Handling"
    and a': "a' = a\<lparr>ac_conns := (ac_conns a)[i := (ac_conns a ! i)\<lparr>cn_phase := Handled\<rparr>]\<rparr>"
    using st by (auto simp: advance_Some)
  have "accept_ok (a\<lparr>ac_conns := (ac_conns a)[i := (ac_conns a ! i)\<lparr>cn_phase := Handled\<rparr>], ac_wg := ac_wg a\<rparr>)"
    by (rule handler_ok [OF ok i(1) refl]) (use conn_at [OF ok i(1)] i(2) in \<open>simp_all add: at_work_def admitted_def conn_ok_def\<close>)
  then show ?thesis using a' by simp
next
  case (Hangs_up i)
  then have i: "i < length (ac_conns a)" "cn_phase (ac_conns a ! i) = Handled"
    and a': "a' = a\<lparr>ac_conns := (ac_conns a)[i := (ac_conns a ! i)\<lparr>cn_phase := Hung_up, cn_open := False\<rparr>]\<rparr>"
    using st by (auto simp: advance_Some)
  have "accept_ok (a\<lparr>ac_conns := (ac_conns a)[i := (ac_conns a ! i)\<lparr>cn_phase := Hung_up, cn_open := False\<rparr>], ac_wg := ac_wg a\<rparr>)"
    by (rule handler_ok [OF ok i(1) refl]) (use conn_at [OF ok i(1)] i(2) in \<open>simp_all add: at_work_def admitted_def conn_ok_def\<close>)
  then show ?thesis using a' by simp
next
  case (Removes i)
  then have i: "i < length (ac_conns a)" "cn_phase (ac_conns a ! i) = Hung_up"
    and a': "a' = a\<lparr>ac_conns := (ac_conns a)[i := (track False (ac_conns a ! i))\<lparr>cn_phase := Removed\<rparr>]\<rparr>"
    using st by (auto simp: advance_Some)
  have "accept_ok (a\<lparr>ac_conns := (ac_conns a)[i := (track False (ac_conns a ! i))\<lparr>cn_phase := Removed\<rparr>], ac_wg := ac_wg a\<rparr>)"
    by (rule handler_ok [OF ok i(1) refl])
      (use conn_at [OF ok i(1)] i(2) in \<open>simp_all add: at_work_def admitted_def conn_ok_def track_def\<close>)
  then show ?thesis using a' by simp
next
  case (Ends i)
  then have i: "i < length (ac_conns a)" "cn_phase (ac_conns a ! i) = Removed"
    and a': "a' = a\<lparr>ac_conns := (ac_conns a)[i := (ac_conns a ! i)\<lparr>cn_phase := Finished\<rparr>], ac_wg := ac_wg a - 1\<rparr>"
    using st by (auto simp: advance_Some)
  have "at_work (ac_conns a ! i)" using i(2) by (simp add: at_work_def admitted_def)
  moreover from this have "0 < length (filter at_work (ac_conns a))" using i(1) by (auto simp: filter_empty_conv)
  ultimately have "accept_ok (a\<lparr>ac_conns := (ac_conns a)[i := (ac_conns a ! i)\<lparr>cn_phase := Finished\<rparr>], ac_wg := ac_wg a - 1\<rparr>)"
    by (intro handler_ok [OF ok i(1) refl])
      (use conn_at [OF ok i(1)] i(2) ok in \<open>simp_all add: at_work_def admitted_def conn_ok_def accept_ok_def\<close>)
  then show ?thesis using a' by simp
next
  case Close_listener
  then show ?thesis using ok st by (auto simp: accept_ok_def split: if_splits)
next
  case Sweep
  have f: "cn_phase (close_tracked c) = cn_phase c" "conn_ok c \<Longrightarrow> conn_ok (close_tracked c)"
    "at_work (close_tracked c) = at_work c" for c
    by (auto simp: conn_ok_def at_work_def close_tracked_def)
  have "a' = a\<lparr>ac_conns := map close_tracked (ac_conns a), ac_close := Swept\<rparr>" "ac_close a = Listener_closed"
    using st Sweep by (auto split: if_splits)
  moreover have "list_all (\<lambda>c. \<not> cn_open c) (map close_tracked (butlast (ac_conns a)))"
    using ok swept_closed by (auto simp: accept_ok_def list_all_iff admitted_def dest: in_set_butlastD split: if_splits)
  ultimately show ?thesis using ok f(2)
    by (auto simp: accept_ok_def list_all_iff map_butlast [symmetric] f(1,3) filter_map o_def)
next
  case Close_returns
  then have a': "ac_close a = Swept" "ac_wg a = 0" "a' = a\<lparr>ac_close := Close_returned\<rparr>" using st by (auto split: if_splits)
  have "filter at_work (ac_conns a) = []" using ok a'(2) by (simp add: accept_ok_def)
  then have "\<forall>c \<in> set (ac_conns a). \<not> at_work c" by (simp add: filter_empty_conv)
  moreover have "list_all (\<lambda>c. admitted (cn_phase c)) (butlast (ac_conns a))"
    using ok by (auto simp: accept_ok_def list_all_iff dest: in_set_butlastD split: if_splits)
  ultimately have "list_all (\<lambda>c. cn_phase c = Finished) (butlast (ac_conns a))"
    by (auto simp: list_all_iff at_work_def dest: in_set_butlastD)
  then show ?thesis using ok a' by (auto simp: accept_ok_def split: if_splits)
qed

lemma serving_ok: "serving a \<Longrightarrow> accept_ok a"
proof (induction rule: serving.induct)
  case (listen a)
  then show ?case by (auto simp: Server_Listen_def accept_ok_def)
qed (rule accept_ok_step)

subsection \<open>Properties of the loop\<close>

text \<open>
  However connections, handlers and Close interleave, the map holds exactly the connections between
  being entered and being removed, and Close waits for exactly the handlers that have not finished.
\<close>

theorem tracked_and_counted:
  assumes "serving a"
  shows "ac_wg a = length (filter at_work (ac_conns a)) \<and>
    list_all (\<lambda>c. cn_tracked c \<longleftrightarrow> cn_phase c \<in> {Entered, Handling, Handled, Hung_up}) (ac_conns a)"
  using serving_ok [OF assms] by (auto simp: accept_ok_def conn_ok_def list_all_iff)

text \<open>A connection accepted, Close up to the map, and only then the connection entered.\<close>

definition survivor_run :: "accept_event list" where
  "survivor_run = [Accepts, Close_listener, Sweep, Enters, Close_returns, Starts]"

text \<open>
  C35: Close hangs up: of the connections the server has accepted when Close goes through the map, all
  but the last one are closed by then, whatever their handlers are doing, and so is the last one if it
  is in the map; none is accepted any more.  When Close has returned, all but the last one's handlers
  have finished too.  The last one may survive: accepted before the listener closed and entered after
  Close looked at the map, it is open and its handler runs although Close has returned.
\<close>

theorem close_misses_at_most_one:
  "(\<forall>a. serving a \<and> ac_close a \<in> {Swept, Close_returned} \<longrightarrow>
      \<not> ac_listening a \<and> list_all (\<lambda>c. \<not> cn_open c) (butlast (ac_conns a)))
   \<and> (\<forall>a a'. serving a \<and> accept_step Sweep a = Some a' \<longrightarrow>
      ac_close a' = Swept \<and> map cn_phase (ac_conns a') = map cn_phase (ac_conns a)
      \<and> list_all (\<lambda>c. cn_phase c \<noteq> Just_accepted \<longrightarrow> \<not> cn_open c) (ac_conns a'))
   \<and> (\<forall>a. serving a \<and> ac_close a = Close_returned \<longrightarrow> list_all (\<lambda>c. cn_phase c = Finished) (butlast (ac_conns a)))
   \<and> (\<exists>a. serving a \<and> ac_close a = Close_returned \<and> ac_conns a = [\<lparr>cn_phase = Handling, cn_open = True, cn_tracked = True\<rparr>])"
proof (intro conjI allI impI; (elim conjE)?)
  fix a assume a: "serving a" "ac_close a \<in> {Swept, Close_returned}"
  then show "\<not> ac_listening a" "list_all (\<lambda>c. \<not> cn_open c) (butlast (ac_conns a))"
    using serving_ok [OF a(1)] by (auto simp: accept_ok_def)
next
  fix a a' assume a: "serving a" "accept_step Sweep a = Some a'"
  then show "ac_close a' = Swept" "map cn_phase (ac_conns a') = map cn_phase (ac_conns a)"
    by (auto simp: close_tracked_def split: if_splits)
  have "list_all conn_ok (ac_conns a)" using serving_ok [OF a(1)] by (simp add: accept_ok_def)
  then show "list_all (\<lambda>c. cn_phase c \<noteq> Just_accepted \<longrightarrow> \<not> cn_open c) (ac_conns a')"
    using a(2) swept_closed by (auto simp: list_all_iff close_tracked_phase split: if_splits)
next
  fix a assume a: "serving a" "ac_close a = Close_returned"
  then show "list_all (\<lambda>c. cn_phase c = Finished) (butlast (ac_conns a))"
    using serving_ok [OF a(1)] by (simp add: accept_ok_def)
next
  obtain a0 where a0: "Server_Listen None = Inr a0" by (simp add: Server_Listen_def)
  then obtain a where "accept_run survivor_run a0 = Some a" "ac_close a = Close_returned"
    "ac_conns a = [\<lparr>cn_phase = Handling, cn_open = True, cn_tracked = True\<rparr>]"
    by (auto simp: Server_Listen_def survivor_run_def advance_def track_def close_tracked_def)
  then show "\<exists>a. serving a \<and> ac_close a = Close_returned \<and> ac_conns a = [\<lparr>cn_phase = Handling, cn_open = True, cn_tracked = True\<rparr>]"
    using serving_run [OF serving.listen [OF a0]] by blast
qed

subsection \<open>Witnesses\<close>

text \<open>Two connections, the first over before Close, the second closed by it.\<close>

definition orderly_run :: "accept_event list" where
  "orderly_run = [Accepts, Enters, Starts, Accepts, Enters, Starts, Handle_returns 0, Hangs_up 0, Removes 0, Ends 0,
     Close_listener, Accept_fails, Sweep, Handle_returns 1, Hangs_up 1, Removes 1, Ends 1, Close_returns]"

lemma orderly:
  obtains a where "serving a" "ac_close a = Close_returned" "length (ac_conns a) = 2" "ac_wg a = 0"
proof -
  obtain a0 where a0: "Server_Listen None = Inr a0" by (simp add: Server_Listen_def)
  then obtain a where "accept_run orderly_run a0 = Some a" "ac_close a = Close_returned" "length (ac_conns a) = 2" "ac_wg a = 0"
    by (auto simp: Server_Listen_def orderly_run_def advance_def track_def close_tracked_def)
  then show thesis using that serving_run [OF serving.listen [OF a0]] by blast
qed

theorem tracked_and_counted_witness:
  "\<exists>a. serving a \<and> ac_close a = Close_returned \<and> filter at_work (ac_conns a) = []"
proof (rule orderly)
  fix a assume a: "serving a" "ac_close a = Close_returned" "ac_wg a = 0"
  then show ?thesis using tracked_and_counted [OF a(1)] by auto
qed

text \<open>The second connection is being handled, and open, until Close goes through the map.\<close>

theorem close_misses_at_most_one_witness:
  "\<exists>a a'. serving a \<and> map cn_open (ac_conns a) = [False, True] \<and> accept_step Sweep a = Some a'
    \<and> map cn_phase (ac_conns a') = [Finished, Handling] \<and> list_all (\<lambda>c. \<not> cn_open c) (ac_conns a')"
proof -
  obtain a0 where a0: "Server_Listen None = Inr a0" by (simp add: Server_Listen_def)
  then obtain a where r: "accept_run (takeWhile (\<lambda>e. e \<noteq> Sweep) orderly_run) a0 = Some a"
    and a: "ac_close a = Listener_closed" "map cn_open (ac_conns a) = [False, True]" "map cn_phase (ac_conns a) = [Finished, Handling]"
    by (auto simp: Server_Listen_def orderly_run_def advance_def track_def)
  have sv: "serving a" by (rule serving_run [OF serving.listen [OF a0] r])
  obtain a' where s: "accept_step Sweep a = Some a'" using a(1) by simp
  have p: "map cn_phase (ac_conns a') = [Finished, Handling]"
    and o: "list_all (\<lambda>c. cn_phase c \<noteq> Just_accepted \<longrightarrow> \<not> cn_open c) (ac_conns a')"
    using close_misses_at_most_one sv s a(3) by metis+
  then have "list_all (\<lambda>c. \<not> cn_open c) (ac_conns a')" by (auto simp: list_all_iff)
  then show ?thesis using sv a(2) s p by (intro exI [of _ a] exI [of _ a'] conjI)
qed

end
