(* ===== verification/Host.thy ===== *)
theory Host
  imports Service
begin

text \<open>
  The life of a service host, \<^verbatim>\<open>go/service/service.go\<close>: the accept loop, the calls it
  admits, the waiting observers, closing, and the configuration of the history policy.  Every
  atomic piece is an event; the network, the callers and the scheduler choose the next one.
\<close>

subsection \<open>State\<close>

text \<open>Where a call's goroutine is; the policy is the one it found when its frame was received.\<close>

datatype 'p goroutine =
    Receiving
  | Handling "'p option"
  | Waiting "'p option"
  | Finishing
  | Freed
  | Gone

text \<open>
  Where the accept loop is: in Accept, or with the connection it returned; a result is the error Serve
  returns.
\<close>

datatype serve_loop =
    NotServing
  | Accepting
  | Admitting
  | Leaving_loop "wire_error option"
  | Closed_by_loop "wire_error option"
  | Draining "wire_error option"
  | Returned "wire_error option"

record 'p host =
  ho_cancelled :: bool
  ho_listening :: bool
  ho_ctx_done :: bool
  ho_calls :: nat
  ho_observers :: nat
  ho_workers :: nat
  ho_serving :: bool
  ho_history :: "'p option"
  ho_loop :: serve_loop
  ho_goroutines :: "'p goroutine list"
  ho_stopped :: nat

definition MaxCalls :: nat where "MaxCalls = 64"

definition new_host :: "'p host" where
  "new_host = \<lparr>ho_cancelled = False, ho_listening = True, ho_ctx_done = False, ho_calls = 0, ho_observers = 0,
     ho_workers = 0, ho_serving = False, ho_history = None, ho_loop = NotServing, ho_goroutines = [], ho_stopped = 0\<rparr>"

text \<open>
  What the operating system answers about the current user, and the identity module about the
  endpoint, are the arguments; the result is the owner and the host.
\<close>

definition Listen ::
  "bool \<Rightarrow> wire_error + string \<Rightarrow> wire_error option \<Rightarrow> wire_error + string \<times> 'p host" where
  "Listen nil_provider user listener =
     (if nil_provider then Inl (HandlerError ''logging service: nil provider'')
      else case user of
             Inl e \<Rightarrow> Inl e
           | Inr owner \<Rightarrow>
               if owner = [] then Inl (HandlerError ''logging service: owner unavailable'')
               else case listener of Some e \<Rightarrow> Inl e | None \<Rightarrow> Inr (owner, new_host))"

subsection \<open>Operations\<close>

text \<open>\<^verbatim>\<open>closeOnce\<close> cancels and then closes the listener; a later call does nothing.\<close>

definition Host_cancel :: "'p host \<Rightarrow> 'p host" where
  "Host_cancel h = h\<lparr>ho_cancelled := True\<rparr>"

definition Host_Close :: "'p host \<Rightarrow> 'p host" where
  "Host_Close h = h\<lparr>ho_cancelled := True, ho_listening := False\<rparr>"

definition EnableHistoryPolicy :: "'p option \<Rightarrow> 'p host \<Rightarrow> 'p host \<times> wire_error option" where
  "EnableHistoryPolicy policy h =
     (if ho_serving h \<or> ho_cancelled h
      then (h, Some (HandlerError ''logging service: configure history policy before Serve''))
      else if policy = None then (h, Some (HandlerError ''logging service: explicit history policy required''))
      else (h\<lparr>ho_history := policy\<rparr>, None))"

datatype 'p host_event =
    Start
  | Context_done
  | Cancels
  | Closes
  | Enable "'p option"
  | Connection
  | Admits
  | Accept_error wire_error
  | Loop_closes
  | Stopped
  | Drained
  | Receive_error nat
  | Received nat
  | Wait_begin nat
  | Wait_end nat
  | Handled nat
  | Frees nat
  | Goes nat

definition at_goroutine :: "nat \<Rightarrow> 'p goroutine \<Rightarrow> 'p host \<Rightarrow> bool" where
  "at_goroutine i g h \<longleftrightarrow> i < length (ho_goroutines h) \<and> ho_goroutines h ! i = g"

definition move :: "nat \<Rightarrow> 'p goroutine \<Rightarrow> 'p host \<Rightarrow> 'p host" where
  "move i g h = h\<lparr>ho_goroutines := (ho_goroutines h)[i := g]\<rparr>"

text \<open>The accept loop: one connection admitted or closed, and what an error of Accept makes it return.\<close>

definition serve_connection :: "'p host \<Rightarrow> 'p host" where
  "serve_connection h =
     (if ho_calls h < MaxCalls
      then h\<lparr>ho_calls := ho_calls h + 1, ho_workers := ho_workers h + 1, ho_goroutines := ho_goroutines h @ [Receiving]\<rparr>
      else h)"

definition serve_result :: "wire_error \<Rightarrow> 'p host \<Rightarrow> wire_error option" where
  "serve_result e h = (if ho_cancelled h \<or> ho_ctx_done h then None else Some e)"

fun host_step :: "'p host_event \<Rightarrow> 'p host \<Rightarrow> 'p host option" where
  "host_step Start h = (if ho_loop h = NotServing then Some (h\<lparr>ho_loop := Accepting\<rparr>) else None)"
| "host_step Context_done h = Some (h\<lparr>ho_ctx_done := True\<rparr>)"
| "host_step Cancels h = Some (Host_cancel h)"
| "host_step Closes h = Some (Host_Close h)"
| "host_step (Enable policy) h = Some (fst (EnableHistoryPolicy policy h))"
| "host_step Connection h =
     (if ho_loop h = Accepting \<and> ho_listening h then Some (h\<lparr>ho_loop := Admitting\<rparr>) else None)"
| "host_step Admits h =
     (if ho_loop h = Admitting then Some ((serve_connection h)\<lparr>ho_loop := Accepting\<rparr>) else None)"
| "host_step (Accept_error e) h =
     (if ho_loop h = Accepting then Some (h\<lparr>ho_loop := Leaving_loop (serve_result e h)\<rparr>) else None)"
| "host_step Loop_closes h =
     (case ho_loop h of Leaving_loop x \<Rightarrow> Some ((Host_Close h)\<lparr>ho_loop := Closed_by_loop x\<rparr>) | _ \<Rightarrow> None)"
| "host_step Stopped h =
     (case ho_loop h of
        Closed_by_loop x \<Rightarrow> Some (h\<lparr>ho_loop := Draining x, ho_stopped := ho_stopped h + 1\<rparr>) | _ \<Rightarrow> None)"
| "host_step Drained h =
     (case ho_loop h of
        Draining x \<Rightarrow> (if ho_workers h = 0 then Some (h\<lparr>ho_loop := Returned x\<rparr>) else None) | _ \<Rightarrow> None)"
| "host_step (Receive_error i) h = (if at_goroutine i Receiving h then Some (move i Finishing h) else None)"
| "host_step (Received i) h = (if at_goroutine i Receiving h then Some (move i (Handling (ho_history h)) h) else None)"
| "host_step (Wait_begin i) h =
     (if i < length (ho_goroutines h) then
        (case ho_goroutines h ! i of
           Handling p \<Rightarrow>
             (if ho_observers h < MaxObservers then Some ((move i (Waiting p) h)\<lparr>ho_observers := ho_observers h + 1\<rparr>)
              else None)
         | _ \<Rightarrow> None)
      else None)"
| "host_step (Wait_end i) h =
     (if i < length (ho_goroutines h) then
        (case ho_goroutines h ! i of
           Waiting p \<Rightarrow> Some ((move i (Handling p) h)\<lparr>ho_observers := ho_observers h - 1\<rparr>)
         | _ \<Rightarrow> None)
      else None)"
| "host_step (Handled i) h =
     (if i < length (ho_goroutines h) then
        (case ho_goroutines h ! i of Handling p \<Rightarrow> Some (move i Finishing h) | _ \<Rightarrow> None)
      else None)"
| "host_step (Frees i) h =
     (if at_goroutine i Finishing h then Some ((move i Freed h)\<lparr>ho_calls := ho_calls h - 1\<rparr>) else None)"
| "host_step (Goes i) h =
     (if at_goroutine i Freed h then Some ((move i Gone h)\<lparr>ho_workers := ho_workers h - 1\<rparr>) else None)"

inductive hosting :: "'p host \<Rightarrow> bool" where
  listen: "hosting new_host"
| event: "hosting h \<Longrightarrow> host_step e h = Some h' \<Longrightarrow> hosting h'"

text \<open>
  A step between two states, for the case analyses, and a run of events, for the examples.
\<close>

fun host_run :: "'p host_event list \<Rightarrow> 'p host \<Rightarrow> 'p host option" where
  "host_run [] h = Some h"
| "host_run (e # es) h = (case host_step e h of None \<Rightarrow> None | Some h' \<Rightarrow> host_run es h')"

lemma hosting_run: "hosting h \<Longrightarrow> host_run es h = Some h' \<Longrightarrow> hosting h'"
  by (induction es arbitrary: h) (auto split: option.splits intro: hosting.event)

subsection \<open>The invariant\<close>

definition takes_call :: "'p goroutine \<Rightarrow> bool" where
  "takes_call g \<longleftrightarrow> g \<noteq> Freed \<and> g \<noteq> Gone"

definition waits :: "'p goroutine \<Rightarrow> bool" where
  "waits g \<longleftrightarrow> (case g of Waiting p \<Rightarrow> True | _ \<Rightarrow> False)"

fun loop_ok :: "serve_loop \<Rightarrow> bool \<Rightarrow> bool \<Rightarrow> nat \<Rightarrow> nat \<Rightarrow> bool" where
  "loop_ok NotServing cancelled listening workers stopped \<longleftrightarrow> stopped = 0"
| "loop_ok Accepting cancelled listening workers stopped \<longleftrightarrow> stopped = 0"
| "loop_ok Admitting cancelled listening workers stopped \<longleftrightarrow> stopped = 0"
| "loop_ok (Leaving_loop x) cancelled listening workers stopped \<longleftrightarrow> stopped = 0"
| "loop_ok (Closed_by_loop x) cancelled listening workers stopped \<longleftrightarrow> stopped = 0 \<and> cancelled \<and> \<not> listening"
| "loop_ok (Draining x) cancelled listening workers stopped \<longleftrightarrow> stopped = 1 \<and> cancelled \<and> \<not> listening"
| "loop_ok (Returned x) cancelled listening workers stopped \<longleftrightarrow>
     stopped = 1 \<and> cancelled \<and> \<not> listening \<and> workers = 0"

definition counts_ok :: "'p host \<Rightarrow> bool" where
  "counts_ok h \<longleftrightarrow>
     ho_calls h = length (filter takes_call (ho_goroutines h))
     \<and> ho_workers h = length (filter (\<lambda>g. g \<noteq> Gone) (ho_goroutines h))
     \<and> ho_observers h = length (filter waits (ho_goroutines h))
     \<and> ho_calls h \<le> MaxCalls \<and> ho_observers h \<le> MaxObservers"

definition host_ok :: "'p host \<Rightarrow> bool" where
  "host_ok h \<longleftrightarrow> counts_ok h \<and> \<not> ho_serving h
     \<and> loop_ok (ho_loop h) (ho_cancelled h) (ho_listening h) (ho_workers h) (ho_stopped h)"

lemma counts_move:
  assumes "i < length (ho_goroutines h)" "ho_goroutines h ! i = g"
  shows "length (filter takes_call ((ho_goroutines h)[i := g'])) + of_bool (takes_call g)
      = length (filter takes_call (ho_goroutines h)) + of_bool (takes_call g')"
    and "length (filter (\<lambda>g. g \<noteq> Gone) ((ho_goroutines h)[i := g'])) + of_bool (g \<noteq> Gone)
      = length (filter (\<lambda>g. g \<noteq> Gone) (ho_goroutines h)) + of_bool (g' \<noteq> Gone)"
    and "length (filter waits ((ho_goroutines h)[i := g'])) + of_bool (waits g)
      = length (filter waits (ho_goroutines h)) + of_bool (waits g')"
  using count_move [OF assms(1), of takes_call g'] count_move [OF assms(1), of "\<lambda>g. g \<noteq> Gone" g']
    count_move [OF assms(1), of waits g'] assms(2)
  by simp_all

lemmas goroutine_defs = host_ok_def counts_ok_def move_def at_goroutine_def takes_call_def waits_def

lemma counts_ok_frame [simp]:
  "counts_ok (h\<lparr>ho_loop := l\<rparr>) = counts_ok h" "counts_ok (h\<lparr>ho_ctx_done := b\<rparr>) = counts_ok h"
  "counts_ok (h\<lparr>ho_cancelled := b\<rparr>) = counts_ok h" "counts_ok (h\<lparr>ho_listening := b\<rparr>) = counts_ok h"
  "counts_ok (h\<lparr>ho_stopped := n\<rparr>) = counts_ok h" "counts_ok (h\<lparr>ho_history := p\<rparr>) = counts_ok h"
  by (simp_all add: counts_ok_def)

lemma host_ok_step:
  assumes "host_ok h" "host_step e h = Some h'"
  shows "host_ok h'"
proof (cases e)
  case (Receive_error i)
  then have "i < length (ho_goroutines h)" "ho_goroutines h ! i = Receiving" "h' = move i Finishing h"
    using assms(2) by (simp_all add: at_goroutine_def split: if_splits)
  then show ?thesis using assms(1) counts_move [of i h Receiving Finishing] by (auto simp: goroutine_defs)
next
  case (Received i)
  then have "i < length (ho_goroutines h)" "ho_goroutines h ! i = Receiving" "h' = move i (Handling (ho_history h)) h"
    using assms(2) by (simp_all add: at_goroutine_def split: if_splits)
  then show ?thesis using assms(1) counts_move [of i h Receiving "Handling (ho_history h)"] by (auto simp: goroutine_defs)
next
  case (Wait_begin i)
  then obtain p where "i < length (ho_goroutines h)" "ho_goroutines h ! i = Handling p" "ho_observers h < MaxObservers"
    "h' = (move i (Waiting p) h)\<lparr>ho_observers := ho_observers h + 1\<rparr>"
    using assms(2) by (auto split: if_splits goroutine.splits)
  then show ?thesis using assms(1) counts_move [of i h "Handling p" "Waiting p"] by (auto simp: goroutine_defs)
next
  case (Wait_end i)
  then obtain p where "i < length (ho_goroutines h)" "ho_goroutines h ! i = Waiting p"
    "h' = (move i (Handling p) h)\<lparr>ho_observers := ho_observers h - 1\<rparr>"
    using assms(2) by (auto split: if_splits goroutine.splits)
  then show ?thesis using assms(1) counts_move [of i h "Waiting p" "Handling p"] by (auto simp: goroutine_defs)
next
  case (Handled i)
  then obtain p where "i < length (ho_goroutines h)" "ho_goroutines h ! i = Handling p" "h' = move i Finishing h"
    using assms(2) by (auto split: if_splits goroutine.splits)
  then show ?thesis using assms(1) counts_move [of i h "Handling p" Finishing] by (auto simp: goroutine_defs)
next
  case (Frees i)
  then have "i < length (ho_goroutines h)" "ho_goroutines h ! i = Finishing"
    "h' = (move i Freed h)\<lparr>ho_calls := ho_calls h - 1\<rparr>"
    using assms(2) by (simp_all add: at_goroutine_def split: if_splits)
  then show ?thesis using assms(1) counts_move [of i h Finishing Freed] by (auto simp: goroutine_defs)
next
  case (Goes i)
  then have g: "i < length (ho_goroutines h)" "ho_goroutines h ! i = Freed"
    "h' = (move i Gone h)\<lparr>ho_workers := ho_workers h - 1\<rparr>"
    using assms(2) by (simp_all add: at_goroutine_def split: if_splits)
  then have "ho_workers h > 0" using assms(1) counts_move(2) [of i h Freed Gone] by (auto simp: goroutine_defs)
  then have "loop_ok (ho_loop h) (ho_cancelled h) (ho_listening h) (ho_workers h - 1) (ho_stopped h)"
    using assms(1) by (cases "ho_loop h") (simp_all add: host_ok_def)
  then show ?thesis using g assms(1) counts_move [of i h Freed Gone] by (auto simp: goroutine_defs)
next
  case Connection
  then show ?thesis using assms by (auto simp: host_ok_def split: if_splits)
next
  case Admits
  then show ?thesis using assms
    by (auto simp: goroutine_defs serve_connection_def MaxCalls_def split: if_splits)
next
  case Start
  then show ?thesis using assms by (auto simp: host_ok_def split: if_splits)
next
  case (Accept_error x)
  then show ?thesis using assms by (auto simp: host_ok_def split: if_splits)
next
  case Loop_closes
  then show ?thesis using assms by (auto simp: host_ok_def Host_Close_def split: serve_loop.splits)
next
  case Stopped
  then show ?thesis using assms by (auto simp: host_ok_def split: serve_loop.splits)
next
  case Drained
  then show ?thesis using assms by (auto simp: host_ok_def split: serve_loop.splits if_splits)
next
  case Context_done
  then show ?thesis using assms by (auto simp: host_ok_def)
next
  case Cancels
  then show ?thesis using assms by (cases "ho_loop h") (auto simp: host_ok_def Host_cancel_def)
next
  case Closes
  then show ?thesis using assms by (cases "ho_loop h") (auto simp: host_ok_def Host_Close_def)
next
  case (Enable policy)
  then show ?thesis using assms by (auto simp: host_ok_def EnableHistoryPolicy_def split: if_splits)
qed

lemma hosting_ok: "hosting h \<Longrightarrow> host_ok h"
proof (induction rule: hosting.induct)
  case listen
  then show ?case by (simp add: goroutine_defs new_host_def)
qed (rule host_ok_step)

subsection \<open>Properties of the host\<close>

text \<open>
  C17: However connections, callers and the operator interleave, at most 64 calls hold a place and at
  most 32 of them wait as observers, and the places taken are exactly those of the goroutines that
  are still at work: none leaks and none is given back twice.
\<close>

theorem places_are_bounded:
  assumes "hosting h"
  shows "ho_calls h = length (filter takes_call (ho_goroutines h)) \<and> ho_calls h \<le> 64
    \<and> ho_observers h = length (filter waits (ho_goroutines h)) \<and> ho_observers h \<le> 32"
  using hosting_ok [OF assms] by (simp add: host_ok_def counts_ok_def MaxCalls_def MaxObservers_def)

text \<open>
  C18: Serve returns only when it is over: the context is cancelled, the listener closed, OnStopped
  was called once, before the calls drained, and no goroutine of a call is left.
\<close>

theorem serve_returns_when_over:
  assumes "hosting h" "ho_loop h = Returned x"
  shows "ho_cancelled h \<and> \<not> ho_listening h \<and> ho_stopped h = 1 \<and> list_all (\<lambda>g. g = Gone) (ho_goroutines h)"
proof -
  have "counts_ok h" "ho_workers h = 0" and l: "ho_cancelled h" "\<not> ho_listening h" "ho_stopped h = 1"
    using hosting_ok [OF assms(1)] assms(2) by (simp_all add: host_ok_def)
  then have "filter (\<lambda>g. g \<noteq> Gone) (ho_goroutines h) = []" by (simp add: counts_ok_def)
  then show ?thesis using l by (simp add: filter_empty_conv list_all_iff)
qed

text \<open>
  The history policy can be configured at any time until the host is closed, also while Serve
  accepts calls: the flag that is to refuse it is false in every state the host can reach.
\<close>

theorem policy_guard_never_fires:
  assumes "hosting h"
  shows "\<not> ho_serving h \<and> (snd (EnableHistoryPolicy (Some p) h) = None \<longleftrightarrow> \<not> ho_cancelled h)"
  using hosting_ok [OF assms] by (simp add: host_ok_def EnableHistoryPolicy_def)


subsection \<open>Witnesses\<close>

lemma one_waiting:
  obtains h :: "nat host" where "host_run [Start, Connection, Admits, Received 0, Wait_begin 0] new_host = Some h" "hosting h"
    "ho_goroutines h = [Waiting None]" "\<not> ho_cancelled h" "ho_loop h = Accepting"
proof -
  obtain h :: "nat host" where h: "host_run [Start, Connection, Admits, Received 0, Wait_begin 0] new_host = Some h"
    "ho_goroutines h = [Waiting None]" "\<not> ho_cancelled h" "ho_loop h = Accepting"
    by (simp add: new_host_def serve_connection_def MaxCalls_def MaxObservers_def at_goroutine_def move_def)
  then show thesis using that hosting_run [OF hosting.listen h(1)] by blast
qed

theorem places_are_bounded_witness:
  "\<exists>h :: nat host. host_run [Start, Connection, Admits, Received 0, Wait_begin 0] new_host = Some h \<and> ho_calls h = 1 \<and> ho_observers h = 1"
proof (rule one_waiting)
  fix h :: "nat host"
  assume h: "host_run [Start, Connection, Admits, Received 0, Wait_begin 0] new_host = Some h" "hosting h" "ho_goroutines h = [Waiting None]"
  then show ?thesis using places_are_bounded [OF h(2)] by (auto simp: takes_call_def waits_def)
qed

theorem serve_returns_when_over_witness:
  "\<exists>h :: nat host. host_run [Start, Connection, Closes, Admits, Accept_error (HandlerError ''accept''), Loop_closes, Stopped,
       Receive_error 0, Frees 0, Goes 0, Drained] new_host = Some h
     \<and> ho_loop h = Returned None \<and> ho_stopped h = 1 \<and> list_all (\<lambda>g. g = Gone) (ho_goroutines h)"
proof -
  obtain h :: "nat host" where h: "host_run [Start, Connection, Closes, Admits, Accept_error (HandlerError ''accept''), Loop_closes, Stopped,
      Receive_error 0, Frees 0, Goes 0, Drained] new_host = Some h" "ho_loop h = Returned None"
    by (simp add: new_host_def serve_connection_def MaxCalls_def at_goroutine_def move_def Host_Close_def serve_result_def)
  then show ?thesis using serve_returns_when_over [OF hosting_run [OF hosting.listen h(1)] h(2)] by blast
qed

theorem policy_guard_never_fires_witness:
  "\<exists>h :: nat host. host_run [Start, Connection, Admits, Received 0, Wait_begin 0] new_host = Some h \<and> ho_loop h = Accepting
     \<and> snd (EnableHistoryPolicy (Some 7) h) = None"
proof (rule one_waiting)
  fix h :: "nat host"
  assume h: "host_run [Start, Connection, Admits, Received 0, Wait_begin 0] new_host = Some h" "hosting h" "\<not> ho_cancelled h"
    "ho_loop h = Accepting"
  then show ?thesis using policy_guard_never_fires [OF h(2), of 7] by blast
qed

end
