(* ===== verification/Startup.thy ===== *)
theory Startup
  imports Accept_Loop Host
begin

text \<open>
  \<^verbatim>\<open>go/peer_linux.go\<close>, \<^verbatim>\<open>go/peer_other.go\<close> and \<^verbatim>\<open>go/service/serve.go\<close>: what the kernel says about the
  peer of a connection, and the command that runs the service over a file.
\<close>

subsection \<open>The peer of a connection\<close>

text \<open>What the system calls answer: whether it is a Unix socket, its raw access, and the credentials.\<close>

record socket =
  so_unix :: bool
  so_type :: string
  so_syscall :: "string option"
  so_control :: "string option"
  so_cred :: "string + 32 word \<times> 32 word \<times> 32 word"

text \<open>What the system answers about itself, a user number and the executable of a process.\<close>

record system =
  sy_hostname :: "string option"
  sy_username :: "string \<Rightarrow> string option"
  sy_exe :: "i64 \<Rightarrow> string option"

definition ByPeerCred :: string where "ByPeerCred = ''so_peercred''"

definition or_none :: "string option \<Rightarrow> string" where
  "or_none s = (case s of None \<Rightarrow> [] | Some x \<Rightarrow> x)"

text \<open>User and group are unsigned 32-bit numbers, the process a signed one.\<close>

definition PeerOf :: "system \<Rightarrow> socket \<Rightarrow> string + attestation" where
  "PeerOf sy c =
     (if \<not> so_unix c then Inl (''logging: '' @ so_type c @ '' is not a unix socket, so the kernel has nothing to say about its peer'')
      else case so_syscall c of Some e \<Rightarrow> Inl e
      | None \<Rightarrow> (case so_control c of Some e \<Rightarrow> Inl e
      | None \<Rightarrow> (case so_cred c of Inl e \<Rightarrow> Inl e
      | Inr (uid, gid, pid) \<Rightarrow>
          (let p = no_attestation\<lparr>at_by := ByPeerCred, at_verified := True, at_uid := ucast uid, at_gid := ucast gid,
                 at_pid := scast pid\<rparr>
           in Inr (p\<lparr>at_host := or_none (sy_hostname sy), at_user := or_none (sy_username sy (decimal (at_uid p))),
                at_exe := or_none (sy_exe sy (at_pid p))\<rparr>)))))"

definition PeerOf_other :: "socket \<Rightarrow> string + attestation" where
  "PeerOf_other c = Inl ''logging: peer credentials are not available on this platform''"

text \<open>The accept loop's use of it: the attestation, or none and the error.\<close>

definition peer_and_error :: "string + attestation \<Rightarrow> attestation \<times> string option" where
  "peer_and_error x = (case x of Inl e \<Rightarrow> (no_attestation, Some e) | Inr p \<Rightarrow> (p, None))"

lemma unsigned_word_numbers:
  "sint (ucast (w :: 32 word) :: i64) = uint w" "sint (scast (w :: 32 word) :: i64) = sint w"
proof -
  have u: "0 \<le> uint w" "uint w < 2 ^ 32" using uint_lt2p [of w] by simp_all
  have "- (2 ^ 63) \<le> uint w" by (rule order_trans [OF _ u(1)]) simp
  then have "signed_take_bit 63 (uint w) = uint w" using u(2) by (intro signed_take_bit_int_eq_self) simp_all
  then show "sint (ucast w :: i64) = uint w"
    using u by (simp add: sint_uint unsigned_ucast_eq take_bit_int_eq_self)
  show "sint (scast w :: i64) = sint w" by (rule sint_up_scast) (simp add: is_up)
qed

text \<open>
  What a server of this repository appends to a record is the kernel's: user and group numbers are
  the socket's, never negative, whatever the system answers about names and paths; and when the kernel
  cannot be asked nothing is appended and the record says why.
\<close>

theorem stamp_is_the_kernels:
  "let (p, e) = peer_and_error (PeerOf sy c); rec = Accept T H \<lparr>sv_keyid = [], sv_key = None\<rparr> r p e in
     case PeerOf sy c of
       Inr p \<Rightarrow> (\<exists>uid gid pid. so_unix c \<and> so_cred c = Inr (uid, gid, pid) \<and>
          (let stamp = last (lr_identity rec) in
             at_by stamp = ByPeerCred \<and> at_verified stamp \<and> sint (at_uid stamp) = uint uid \<and> sint (at_gid stamp) = uint gid
             \<and> sint (at_pid stamp) = sint pid))
     | Inl e \<Rightarrow> map_of (lr_attrs rec) ''logging.peer_error'' = Some e
         \<and> lr_identity rec = (if lr_identity r = [] then [Unclaimed] else lr_identity r)"
proof (cases "PeerOf sy c")
  case (Inl e)
  then have "lr_identity (Accept T H \<lparr>sv_keyid = [], sv_key = None\<rparr> r no_attestation (Some e)) = claimed_chain r"
    "map_of (lr_attrs (Accept T H \<lparr>sv_keyid = [], sv_key = None\<rparr> r no_attestation (Some e))) ''logging.peer_error'' = Some e"
    using Accept_shape [of T H "\<lparr>sv_keyid = [], sv_key = None\<rparr>" r no_attestation "Some e"] by auto
  then show ?thesis using Inl by (simp add: peer_and_error_def claimed_chain_def)
next
  case (Inr p)
  then obtain uid gid pid where c: "so_unix c" "so_cred c = Inr (uid, gid, pid)"
    and p: "at_by p = ByPeerCred" "at_verified p" "at_uid p = ucast uid" "at_gid p = ucast gid" "at_pid p = scast pid"
    by (auto simp: PeerOf_def Let_def split: if_splits option.splits sum.splits)
  obtain stamp where s: "lr_identity (Accept T H \<lparr>sv_keyid = [], sv_key = None\<rparr> r p None) = claimed_chain r @ [stamp]"
    "sameStamp stamp p" using Accept_chain by blast
  have "at_by stamp = at_by p" "at_verified stamp = at_verified p" "at_uid stamp = at_uid p" "at_gid stamp = at_gid p"
    "at_pid stamp = at_pid p" using s(2) by (cases stamp; cases p; simp add: sameStamp_def)+
  then show ?thesis using Inr c p s(1) by (simp add: peer_and_error_def Let_def unsigned_word_numbers)
qed

subsection \<open>The command\<close>

text \<open>What the command did, in order; the deferred closings run in the reverse order of their opening.\<close>

datatype action = Made_directory string | Opened string | Listened string | Said string | Served | Host_closed | Sink_closed

record surroundings =
  su_flags :: "wire_error + string \<times> string \<times> nat"
  su_cache :: "wire_error + string"
  su_mkdir :: "string \<Rightarrow> wire_error option"
  su_open :: "string \<Rightarrow> wire_error option"
  su_listen :: "string \<Rightarrow> wire_error option"
  su_serve :: "wire_error option"

definition default_out :: "string \<Rightarrow> string" where
  "default_out cache = cache @ ''/openabstractions/logging/records.jsonl''"

text \<open>The flags give endpoint, out and the number of arguments left.\<close>

definition Serve :: "surroundings \<Rightarrow> action list \<times> wire_error option" where
  "Serve su =
     (case su_flags su of
        Inl e \<Rightarrow> ([], Some e)
      | Inr (endpoint, out0, nargs) \<Rightarrow>
          (if nargs \<noteq> 0 then ([], Some (HandlerError ''logging: unexpected arguments''))
           else
     (case (if out0 = [] then (case su_cache su of Inl e \<Rightarrow> Inl e | Inr cache \<Rightarrow> Inr (default_out cache)) else Inr out0) of
        Inl e \<Rightarrow> ([], Some e)
      | Inr out \<Rightarrow>
     (case su_mkdir su out of
        Some e \<Rightarrow> ([], Some e)
      | None \<Rightarrow>
     (case su_open su out of
        Some e \<Rightarrow> ([Made_directory out], Some e)
      | None \<Rightarrow>
     (case su_listen su endpoint of
        Some e \<Rightarrow> ([Made_directory out, Opened out, Sink_closed], Some e)
      | None \<Rightarrow>
          ([Made_directory out, Opened out, Listened endpoint, Said (''logging: listening '' @ endpoint), Served, Host_closed, Sink_closed],
           su_serve su)))))))"

text \<open>Whatever fails, what was opened is closed, the host before the file, and nothing is served unless both are open.\<close>

theorem command_closes_what_it_opened:
  "case Serve su of (acts, x) \<Rightarrow>
     count_list acts Sink_closed = (\<Sum>p \<leftarrow> acts. of_bool (\<exists>out. p = Opened out))
     \<and> count_list acts Host_closed = (\<Sum>p \<leftarrow> acts. of_bool (\<exists>a. p = Listened a))
     \<and> (Served \<in> set acts \<longrightarrow> (\<exists>out a. acts = [Made_directory out, Opened out, Listened a, Said (''logging: listening '' @ a),
           Served, Host_closed, Sink_closed]) \<and> x = su_serve su)"
  by (auto simp: Serve_def split: sum.splits option.splits if_splits)

end
