(* ===== verification/Default_Handler.thy ===== *)
theory Default_Handler
  imports Client_Sink
begin

text \<open>
  \<^verbatim>\<open>Default\<close> (\<^verbatim>\<open>go/slog.go\<close>) and \<^verbatim>\<open>NewResolvedHandler\<close> (\<^verbatim>\<open>go/resolved.go\<close>): handlers over a sink that finds
  the machine's logging service when the first record comes, and what a program that logs through
  one sees, call after call.
\<close>

subsection \<open>The handlers\<close>

text \<open>What one call meets: its context at the gate, behind it and while sending, and the facade's answers.\<close>

record ('sel, 'r, 'c) meeting =
  me_entered :: "wire_error option"
  me_looked :: "wire_error option"
  me_sending :: "wire_error option"
  me_facade :: "('sel, 'r, 'c) facade"

text \<open>The state of a fresh sink is \<open>None\<close>, the client it retains, beside the network's.\<close>

definition Default ::
  "('t \<Rightarrow> wire_error + string) \<Rightarrow> words \<Rightarrow> string
    \<Rightarrow> (('sel, 'r, 's \<Rightarrow> string \<Rightarrow> 's \<times> unit call) meeting, 't, ('s \<Rightarrow> string \<Rightarrow> 's \<times> unit call) option \<times> 's, unit call) handler" where
  "Default T wd program =
     NewHandler
       (With_context (\<lambda>m. resolvedSink_WriteContext T (me_entered m) (me_looked m) (me_sending m) wd (me_facade m)))
       (Some (no_options\<lparr>op_program := program\<rparr>))"

definition NewResolvedHandler ::
  "('t \<Rightarrow> wire_error + string) \<Rightarrow> words \<Rightarrow> string \<Rightarrow> 'sel
    \<Rightarrow> (('sel, 'r, 's \<Rightarrow> string \<Rightarrow> 's \<times> unit call) meeting, 't, ('s \<Rightarrow> string \<Rightarrow> 's \<times> unit call) option \<times> 's, unit call) handler" where
  "NewResolvedHandler T wd program selected =
     NewHandler
       (With_context (\<lambda>m. resolvedSink_WriteContext T (me_entered m) (me_looked m) (me_sending m) wd
          (resolvedSinkFor selected (me_facade m))))
       (Some (no_options\<lparr>op_program := program\<rparr>))"

text \<open>A program's calls of one logger, one after the other: context, clock and record of each.\<close>

fun log_calls ::
  "string \<Rightarrow> i64 \<Rightarrow> ('m \<Rightarrow> 't) \<Rightarrow> ('m \<Rightarrow> bool) \<Rightarrow> ('c, 't, 'w, 'e) handler \<Rightarrow> ('c \<times> 'm \<times> 'm slog_record) list \<Rightarrow> 'w
    \<Rightarrow> 'w \<times> 'e list" where
  "log_calls host pid At zero h [] w = (w, [])"
| "log_calls host pid At zero h ((ctx, now, r) # cs) w =
     (case Handle host pid At zero now h ctx r w of
        (w', e) \<Rightarrow> (case log_calls host pid At zero h cs w' of (w'', es) \<Rightarrow> (w'', e # es)))"

text \<open>What a call on its own would bind.\<close>

definition binds :: "words \<Rightarrow> ('sel, 'r, 'c) meeting \<Rightarrow> wire_error + 'c" where
  "binds wd m = snd (binding (me_entered m) (me_looked m) wd (me_facade m) None)"

subsection \<open>From refusing to delivering\<close>

lemma derive_same:
  "hd_attrs h = hd_attrs g \<Longrightarrow> hd_groups h = hd_groups g \<Longrightarrow>
    hd_attrs (derive ds h) = hd_attrs (derive ds g) \<and> hd_groups (derive ds h) = hd_groups (derive ds g)"
proof (induction ds arbitrary: h g)
  case (Cons d ds)
  show ?case
  proof (cases d)
    case (Attrs as)
    have "hd_attrs (WithAttrs as h) = hd_attrs (WithAttrs as g)" "hd_groups (WithAttrs as h) = hd_groups (WithAttrs as g)"
      using Cons.prems by (simp_all add: WithAttrs_def clone_def Let_def)
    then show ?thesis using Cons.IH Attrs by (simp only: derive.simps)
  next
    case (In_group n)
    have "hd_attrs (WithGroup n h) = hd_attrs (WithGroup n g)" "hd_groups (WithGroup n h) = hd_groups (WithGroup n g)"
      using Cons.prems by (simp_all add: WithGroup_def clone_def Let_def)
    then show ?thesis using Cons.IH In_group by (simp only: derive.simps)
  qed
qed simp

text \<open>The record does not depend on where it goes.\<close>

lemma handled_same:
  "hd_opts h = hd_opts g \<Longrightarrow> hd_attrs h = hd_attrs g \<Longrightarrow> hd_groups h = hd_groups g \<Longrightarrow>
    handled host pid At zero now (derive ds h) r = handled host pid At zero now (derive ds g) r"
  using derive_same [of h g ds] by (cases "op_claim (hd_opts g)") (simp_all add: handled_def Let_def)

lemma Handle_default:
  fixes c :: "'s \<Rightarrow> string \<Rightarrow> 's \<times> unit call"
    and st :: "('s \<Rightarrow> string \<Rightarrow> 's \<times> unit call) option \<times> 's"
  assumes h: "h = Default T wd program"
  shows "Handle host pid At zero now (derive ds h) m r st =
    resolvedSink_WriteContext T (me_entered m) (me_looked m) (me_sending m) wd (me_facade m)
      (handled host pid At zero now (derive ds (NewClientHandler T c (Some (no_options\<lparr>op_program := program\<rparr>)))) r) st"
proof -
  have "handled host pid At zero now (derive ds h) r =
      handled host pid At zero now (derive ds (NewClientHandler T c (Some (no_options\<lparr>op_program := program\<rparr>)))) r"
    by (rule handled_same) (simp_all add: h Default_def NewClientHandler_def NewHandler_def)
  moreover have "hd_sink h =
      With_context (\<lambda>m. resolvedSink_WriteContext T (me_entered m) (me_looked m) (me_sending m) wd (me_facade m))"
    by (simp add: h Default_def NewHandler_def)
  ultimately show ?thesis by (simp add: Handle_def Let_def)
qed

lemma Handle_client:
  "Handle host pid At zero now (derive ds (NewClientHandler T c opts)) ctx r s =
    clientSink_WriteContext T c ctx (handled host pid At zero now (derive ds (NewClientHandler T c opts)) r) s"
  by (simp add: Handle_def Let_def NewClientHandler_def NewHandler_def)

lemma Handle_refused:
  assumes "binds wd m = Inl e"
  shows "Handle host pid At zero now (derive ds (Default T wd program)) m r (None, s) = ((None, s), Fails e)"
  unfolding Handle_default [OF refl, where c = "\<lambda>s b. (s, Done ())"] using assms
  by (auto simp: resolvedSink_WriteContext_def binds_def binding_def split: option.splits sum.splits)

lemma Handle_bound:
  assumes "binds wd m = Inr c \<and> kept = None \<or> me_entered m = None \<and> me_looked m = None \<and> kept = Some c"
  shows "Handle host pid At zero now (derive ds (Default T wd program)) m r (kept, s) =
    (case Handle host pid At zero now (derive ds (NewClientHandler T c (Some (no_options\<lparr>op_program := program\<rparr>))))
       (me_sending m) r s of (s', x) \<Rightarrow> ((Some c, s'), x))"
  using assms unfolding Handle_default [OF refl, where c = c] Handle_client
  by (auto simp: resolvedSink_WriteContext_def binds_def binding_def split: option.splits sum.splits)

lemma calls_bound:
  "\<forall>x \<in> set calls. me_entered (fst x) = None \<and> me_looked (fst x) = None \<Longrightarrow>
    log_calls host pid At zero (derive ds (Default T wd program)) calls (Some c, s) =
    (case log_calls host pid At zero (derive ds (NewClientHandler T c (Some (no_options\<lparr>op_program := program\<rparr>))))
       (map (\<lambda>(m, x). (me_sending m, x)) calls) s of (s', es) \<Rightarrow> ((Some c, s'), es))"
proof (induction calls arbitrary: s)
  case (Cons x calls)
  obtain m now r where "x = (m, now, r)" by (cases x)
  then show ?case using Cons by (simp add: Handle_bound [where c = c] split: prod.splits)
qed simp

text \<open>
  C40: A program may log through the default handler before the service is there.  Each call whose
  selection, resolution or binding fails gets that refusal, sends nothing and leaves no trace; from the
  first call that binds, the handler and every handler derived from it is the application handler over
  the client bound then, whatever the catalogue answers later.
\<close>

theorem default_becomes_client_handler:
  assumes early: "\<forall>x \<in> set early. binds wd (fst x) = Inl (why x)"
    and first: "binds wd m = Inr c"
    and later: "\<forall>x \<in> set later. me_entered (fst x) = None \<and> me_looked (fst x) = None"
  shows "log_calls host pid At zero (derive ds (Default T wd program)) (early @ (m, x) # later) (None, s) =
    (case log_calls host pid At zero (derive ds (NewClientHandler T c (Some (no_options\<lparr>op_program := program\<rparr>))))
       (map (\<lambda>(m, x). (me_sending m, x)) ((m, x) # later)) s of
       (s', es) \<Rightarrow> ((Some c, s'), map (\<lambda>x. Fails (why x)) early @ es))"
  using early
proof (induction early)
  case Nil
  obtain now r where "x = (now, r)" by (cases x)
  then show ?case using first later by (simp add: Handle_bound [where c = c] calls_bound split: prod.splits)
next
  case (Cons y early)
  obtain m' now r where "y = (m', now, r)" by (cases y)
  then show ?case using Cons by (simp add: Handle_refused split: prod.splits)
qed

text \<open>A handler for a chosen resolver is the default handler whose selection always answers that one.\<close>

lemma resolved_handler_selects:
  fixes T :: "'e \<Rightarrow> wire_error + string" and m :: "('b, 'd, 'a \<Rightarrow> string \<Rightarrow> 'a \<times> unit call) meeting"
  shows
  "Handle host pid At zero now (NewResolvedHandler T wd program selected) m r st =
    Handle host pid At zero now (Default T wd program) (m\<lparr>me_facade := resolvedSinkFor selected (me_facade m)\<rparr>) r st"
proof -
  have "handled host pid At zero now (derive [] h) r = handled host pid At zero now (derive [] g) r"
    if "h = NewResolvedHandler T wd program selected" "g = Default T wd program"
    for h g :: "(('b, 'd, 'a \<Rightarrow> string \<Rightarrow> 'a \<times> unit call) meeting, 'e, ('a \<Rightarrow> string \<Rightarrow> 'a \<times> unit call) option \<times> 'a, unit call) handler"
    by (rule handled_same) (simp_all add: that NewResolvedHandler_def Default_def NewHandler_def)
  then show ?thesis by (simp add: Handle_def Let_def NewResolvedHandler_def Default_def NewHandler_def)
qed

text \<open>
  The service is absent at the first call, answers the second, and is another one by the third: both
  records go to the one found first.
\<close>

definition sample_meeting :: "wire_error + nat \<Rightarrow> (nat, nat, nat list \<Rightarrow> string \<Rightarrow> nat list \<times> unit call) meeting" where
  "sample_meeting found =
     \<lparr>me_entered = None, me_looked = None, me_sending = None,
      me_facade = \<lparr>fa_select = found,
        fa_resolve = (\<lambda>n. Inr \<lparr>rr_status = ''resolved'', rr_scope = ''local'', rr_transport = ''unix'', rr_reference = n\<rparr>),
        fa_bind = (\<lambda>n _. Inr (\<lambda>s b. (s @ [n], Done ())))\<rparr>\<rparr>"

theorem default_becomes_client_handler_witness:
  "let h = derive [In_group ''g''] (Default (\<lambda>_. Inr ''2026-05-01T10:00:00Z'')
        \<lparr>wd_resolved = ''resolved'', wd_local = ''local'', wd_transport = ''unix''\<rparr> ''p'');
      call = (\<lambda>found. (sample_meeting found, (),
        \<lparr>sr_time = (), sr_level = 4, sr_message = ''hello'', sr_attrs = [Scalar ''k'' ''v'']\<rparr>));
      first = (\<lambda>s b. (s @ [1 :: nat], Done ()))
    in log_calls ''h'' 7 (\<lambda>t. t) (\<lambda>t. False) h [call (Inl (HandlerError ''absent'')), call (Inr 1), call (Inr 2)] (None, []) =
      (case log_calls ''h'' 7 (\<lambda>t. t) (\<lambda>t. False) (derive [In_group ''g''] (NewClientHandler (\<lambda>_. Inr ''2026-05-01T10:00:00Z'')
          first (Some (no_options\<lparr>op_program := ''p''\<rparr>)))) (map (\<lambda>(m, x). (me_sending m, x)) [call (Inr 1), call (Inr 2)]) [] of
       (s', es) \<Rightarrow> ((Some first, s'), Fails (HandlerError ''absent'') # es))"
  unfolding Let_def
  using default_becomes_client_handler [of
      "[(sample_meeting (Inl (HandlerError ''absent'')), (), \<lparr>sr_time = (), sr_level = 4, sr_message = ''hello'', sr_attrs = [Scalar ''k'' ''v'']\<rparr>)]"
      "\<lparr>wd_resolved = ''resolved'', wd_local = ''local'', wd_transport = ''unix''\<rparr>" "\<lambda>_. HandlerError ''absent''"
      "sample_meeting (Inr 1)" "\<lambda>s b. (s @ [1], Done ())"
      "[(sample_meeting (Inr 2), (), \<lparr>sr_time = (), sr_level = 4, sr_message = ''hello'', sr_attrs = [Scalar ''k'' ''v'']\<rparr>)]"
      "''h''" 7 "\<lambda>t. t" "\<lambda>t. False" "[In_group ''g'']" "\<lambda>_. Inr ''2026-05-01T10:00:00Z''" "''p''"]
  by (simp add: binds_def binding_def find_binding_def sample_meeting_def del: log_calls.simps)

end
