(* ===== verification/Generic_Codec.thy ===== *)
theory Generic_Codec
  imports Wire_Raw
begin

text \<open>
  The part of \<^verbatim>\<open>rec.go\<close> for lists of strings and maps of opaque values, which the generator emits
  with every package and no type of this one uses: \<^verbatim>\<open>strs\<close>, \<^verbatim>\<open>raw\<close>, \<^verbatim>\<open>rawmap\<close>, \<^verbatim>\<open>strList\<close> and
  \<^verbatim>\<open>rawMap\<close>.
\<close>

subsection \<open>Lists of strings\<close>

fun strs_loop :: "string \<Rightarrow> string list \<Rightarrow> nat \<Rightarrow> string" where
  "strs_loop out [] depth = out"
| "strs_loop out (s # ss) depth =
     (let out1 = esc (pad out (depth + 1)) s;
          out2 = (if ss \<noteq> [] then out1 @ '','' else out1)
      in strs_loop (out2 @ [LF]) ss depth)"

definition strs :: "string \<Rightarrow> string list \<Rightarrow> nat \<Rightarrow> string" where
  "strs out v depth =
     (if v = [] then out @ ''[]''
      else pad (strs_loop (out @ [CHR ''['', LF]) v depth) depth @ '']'')"

function strList_loop :: "string list \<Rightarrow> reader \<Rightarrow> string list read" where
  "strList_loop out r =
     (case list_step str r of
        Inl e \<Rightarrow> Inl e
      | Inr ((again, v), r') \<Rightarrow>
          (if again then strList_loop (out @ [v]) r' else Inr (out @ [v], r')))"
  by pat_completeness auto
termination
  by (relation "measure (\<lambda>(out, r). unread r)") (auto dest: list_step_unread str_forward')

declare strList_loop.simps [simp del]

definition strList :: "reader \<Rightarrow> string list read" where
  "strList r = decode_list strList_loop r"

interpretation str_list: list_decoder str strList_loop
  by unfold_locales (rule strList_loop.simps, rule str_forward')

lemma strs_loop_text:
  "ss \<noteq> [] \<Longrightarrow> strs_loop (out @ [LF]) ss d = out @ tl (items_text d (esc []) ss) @ [LF]"
proof (induction ss arbitrary: out)
  case (Cons s ss)
  show ?case
  proof (cases ss)
    case Nil
    then show ?thesis by (simp add: item_line_def esc_text pad_def Let_def)
  next
    case (Cons x xs)
    then have "strs_loop (out @ [LF]) (s # ss) d = strs_loop ((out @ item_line d @ esc [] s @ '','') @ [LF]) ss d"
      by (simp add: item_line_def esc_text pad_def Let_def)
    then show ?thesis using Cons.IH [of "out @ item_line d @ esc [] s @ '',''"] Cons by simp
  qed
qed simp

lemma strs_text: "strs out v d = out @ list_text d (esc []) v"
  using strs_loop_text [of v "out @ ''[''" d]
  by (cases v) (simp_all add: strs_def list_text_def close_text_def pad_def del: strs_loop.simps)

text \<open>
  A list of strings reads back: what \<^verbatim>\<open>strs\<close> writes at any indentation \<^verbatim>\<open>strList\<close> reads as the same
  list, whatever follows, when the strings are UTF-8.
\<close>

theorem string_list_roundtrip:
  assumes "list_all validUTF8 v" "rest r = strs [] v d @ t" "r_depth r < depthLimit"
  shows "strList r = Inr (v, to r t)"
proof -
  have r: "rest r = list_text d (esc []) v @ t" using assms by (simp add: strs_text)
  have "decode_list strList_loop r = Inr (map (\<lambda>s. s) v, to r t)"
    by (rule str_list.decode_list_text [OF r assms(3)]) (use assms(1) in \<open>auto simp: list_all_iff esc_text intro: str_text\<close>)
  then show ?thesis by (simp add: strList_def)
qed

theorem string_list_roundtrip_witness:
  "strList \<lparr>r_buf = strs [] [''a'', ''b''] 0, r_pos = 0, r_depth = 0\<rparr> =
    Inr ([''a'', ''b''], to \<lparr>r_buf = strs [] [''a'', ''b''] 0, r_pos = 0, r_depth = 0\<rparr> [])"
proof (rule string_list_roundtrip)
  show "list_all validUTF8 [''a'', ''b'']" by code_simp
qed (simp_all add: rest_def depthLimit_def)


subsection \<open>Opaque values\<close>

text \<open>
  How many bytes a string takes after its opens quote; a backslash takes the byte after it along,
  even past the end.
\<close>

fun string_span :: "string \<Rightarrow> nat" where
  "string_span [] = 0"
| "string_span (c # cs) =
     (if c = BSLASH then (case cs of [] \<Rightarrow> 2 | _ # t \<Rightarrow> 2 + string_span t)
      else if c = QUOTE then 1
      else 1 + string_span cs)"

text \<open>
  One turn of the loop of \<^verbatim>\<open>raw\<close> for each byte that is not skipped; slicing past the end panics.
  The depth is Go's \<^verbatim>\<open>int\<close>, below zero once more is closed than was opened.
\<close>

function raw_loop :: "string \<Rightarrow> string \<Rightarrow> int \<Rightarrow> wire_error + string" where
  "raw_loop out [] depth = Inr out"
| "raw_loop out (c # t) depth =
     (if is_ws c then raw_loop out t depth
      else if c = QUOTE then
        (let n = string_span t
         in if n \<le> length t then raw_loop (out @ c # take n t) (drop n t) depth
            else Inl (Panic ''slice bounds out of range''))
      else if c = CHR ''{'' \<or> c = CHR ''['' then
        (case dropWhile is_ws t of
           [] \<Rightarrow> raw_loop (pad (out @ [c, LF]) (nat (depth + 1))) t (depth + 1)
         | e # u \<Rightarrow>
             (if e = CHR ''}'' \<or> e = CHR '']'' then raw_loop (out @ [c, e]) u depth
              else raw_loop (pad (out @ [c, LF]) (nat (depth + 1))) t (depth + 1)))
      else if c = CHR ''}'' \<or> c = CHR '']'' then
        raw_loop (pad (out @ [LF]) (nat (depth - 1)) @ [c]) t (depth - 1)
      else if c = CHR '','' then raw_loop (pad (out @ [CHR '','', LF]) (nat depth)) t depth
      else if c = CHR '':'' then raw_loop (out @ '': '') t depth
      else raw_loop (out @ [c]) t depth)"
  by pat_completeness auto
termination
proof (relation "measure (\<lambda>(out, s, depth). length s)", goal_cases)
  case (5 out c t depth e u)
  then have "length (e # u) \<le> length t" by (metis length_dropWhile_le)
  then show ?case by simp
qed auto

declare raw_loop.simps [simp del]

definition raw :: "string \<Rightarrow> string \<Rightarrow> nat \<Rightarrow> wire_error + string" where
  "raw out s depth = raw_loop out s (int depth)"

text \<open>A text without the white space outside its strings.\<close>

function squeeze :: "string \<Rightarrow> string" where
  "squeeze [] = []"
| "squeeze (c # t) =
     (if is_ws c then squeeze t
      else if c = QUOTE then c # take (string_span t) t @ squeeze (drop (string_span t) t)
      else c # squeeze t)"
  by pat_completeness auto
termination
  by (relation "measure length") auto

declare squeeze.simps(2) [simp del]

lemma squeeze_ws: "list_all is_ws w \<Longrightarrow> squeeze (w @ y) = squeeze y"
  by (induction w) (simp_all add: squeeze.simps(2))

lemma squeeze_plain: "\<not> is_ws c \<Longrightarrow> c \<noteq> QUOTE \<Longrightarrow> squeeze (c # y) = c # squeeze y"
  by (simp add: squeeze.simps(2))

text \<open>A string that ends takes the same bytes whatever follows it.\<close>

lemma string_span_take:
  "string_span t \<le> length t \<Longrightarrow> drop (string_span t) t = [] \<or> string_span (take (string_span t) t @ y) = string_span t"
proof (induction t rule: string_span.induct)
  case (2 c cs)
  then show ?case by (cases cs) (auto split: if_splits)
qed simp

lemma squeeze_dropWhile: "squeeze (dropWhile is_ws t) = squeeze t"
  by (induction t) (simp_all add: squeeze.simps(2))

lemma pad_blank: "pad out n = out @ replicate (n * 2) SPACE" "list_all is_ws (replicate k SPACE)"
  by (simp_all add: pad_def list_all_iff)

lemma squeeze_pad: "squeeze (LF # replicate k SPACE @ y) = squeeze y"
  using squeeze_ws [of "LF # replicate k SPACE" y] pad_blank(2) by simp

lemma not_space [simp]:
  "\<not> is_ws (CHR ''{'')" "\<not> is_ws (CHR ''['')" "\<not> is_ws (CHR ''}'')" "\<not> is_ws (CHR '']'')" "\<not> is_ws (CHR '','')" "\<not> is_ws (CHR '':'')"
  by simp_all

lemma raw_loop_opens:
  "c = CHR ''{'' \<or> c = CHR ''['' \<Longrightarrow> raw_loop out (c # t) d =
    (case dropWhile is_ws t of
       [] \<Rightarrow> raw_loop (pad (out @ [c, LF]) (nat (d + 1))) t (d + 1)
     | e # u \<Rightarrow>
         (if e = CHR ''}'' \<or> e = CHR '']'' then raw_loop (out @ [c, e]) u d
          else raw_loop (pad (out @ [c, LF]) (nat (d + 1))) t (d + 1)))"
  by (subst raw_loop.simps(2)) auto

lemma raw_loop_squeeze: "raw_loop out s d = Inr z \<Longrightarrow> \<exists>x. z = out @ x \<and> squeeze x = squeeze s"
proof (induction out s d rule: raw_loop.induct)
  case (1 out d)
  then show ?case by (simp add: raw_loop.simps)
next
  case (2 out c t d)
  let ?open = "c = CHR ''{'' \<or> c = CHR ''[''" and ?shut = "\<lambda>c. c = CHR ''}'' \<or> c = CHR '']''"
  consider (space) "is_ws c" | (string) "c = QUOTE" | (opens) ?open | (closes) "?shut c" | (comma) "c = CHR '',''" | (colon) "c = CHR '':''"
    | (other) "\<not> is_ws c" "c \<noteq> QUOTE" "\<not> ?open" "\<not> ?shut c" "c \<noteq> CHR '',''" "c \<noteq> CHR '':''" by blast
  then show ?case
  proof cases
    case space
    then have "raw_loop out t d = Inr z" using "2.prems" by (simp add: raw_loop.simps)
    then show ?thesis using "2.IH"(1) space by (simp add: squeeze.simps(2))
  next
    case string
    let ?n = "string_span t"
    have n: "?n \<le> length t" "raw_loop (out @ c # take ?n t) (drop ?n t) d = Inr z"
      using "2.prems" string by (simp_all add: raw_loop.simps Let_def split: if_splits)
    then obtain x where x: "z = (out @ c # take ?n t) @ x" "squeeze x = squeeze (drop ?n t)"
      using "2.IH"(2) [OF _ string refl n(1)] string by auto
    have "squeeze (c # take ?n t @ x) = squeeze (c # t)"
    proof (cases "drop ?n t = []")
      case True
      then have "x = []" using x(1) n(2) by (simp add: raw_loop.simps)
      then show ?thesis using True n(1) by simp
    next
      case False
      then have "string_span (take ?n t @ x) = ?n" using string_span_take [OF n(1), of x] by simp
      then show ?thesis using string x(2) n(1) by (simp add: squeeze.simps(2))
    qed
    then show ?thesis using x(1) by auto
  next
    case opens
    then have c: "\<not> is_ws c" "c \<noteq> QUOTE" by auto
    show ?thesis
    proof (cases "dropWhile is_ws t")
      case Nil
      then have "raw_loop (pad (out @ [c, LF]) (nat (d + 1))) t (d + 1) = Inr z"
        using "2.prems" unfolding raw_loop_opens [OF opens] Nil by simp
      then obtain x where "z = pad (out @ [c, LF]) (nat (d + 1)) @ x" "squeeze x = squeeze t"
        using "2.IH"(3) [OF c opens Nil] by blast
      then show ?thesis using c by (intro exI [of _ "c # LF # replicate (nat (d + 1) * 2) SPACE @ x"])
          (simp add: pad_blank(1) squeeze_plain squeeze_pad)
    next
      case (Cons e u)
      show ?thesis
      proof (cases "?shut e")
        case True
        then have "raw_loop (out @ [c, e]) u d = Inr z" using "2.prems" raw_loop_opens [OF opens] Cons by auto
        then obtain x where x: "z = (out @ [c, e]) @ x" "squeeze x = squeeze u"
          using "2.IH"(4) [OF c opens Cons True] by blast
        have "squeeze t = squeeze (e # u)" using squeeze_dropWhile [of t] Cons by simp
        then show ?thesis using x c True by (intro exI [of _ "c # e # x"]) (auto simp: squeeze_plain)
      next
        case False
        then have "raw_loop (pad (out @ [c, LF]) (nat (d + 1))) t (d + 1) = Inr z"
          using "2.prems" raw_loop_opens [OF opens] Cons by auto
        then obtain x where "z = pad (out @ [c, LF]) (nat (d + 1)) @ x" "squeeze x = squeeze t"
          using "2.IH"(5) [OF c opens Cons False] by blast
        then show ?thesis using c by (intro exI [of _ "c # LF # replicate (nat (d + 1) * 2) SPACE @ x"])
            (simp add: pad_blank(1) squeeze_plain squeeze_pad)
      qed
    qed
  next
    case closes
    then have c: "\<not> is_ws c" "c \<noteq> QUOTE" "\<not> ?open" by auto
    have "raw_loop (pad (out @ [LF]) (nat (d - 1)) @ [c]) t (d - 1) = Inr z"
      using "2.prems" closes by (auto simp: raw_loop.simps)
    then obtain x where "z = (pad (out @ [LF]) (nat (d - 1)) @ [c]) @ x" "squeeze x = squeeze t"
      using "2.IH"(6) [OF c closes] by blast
    then show ?thesis using c by (intro exI [of _ "LF # replicate (nat (d - 1) * 2) SPACE @ c # x"])
        (simp add: pad_blank(1) squeeze_plain squeeze_pad)
  next
    case comma
    then have "raw_loop (pad (out @ [CHR '','', LF]) (nat d)) t d = Inr z" using "2.prems" by (simp add: raw_loop.simps)
    then obtain x where "z = pad (out @ [CHR '','', LF]) (nat d) @ x" "squeeze x = squeeze t"
      using "2.IH"(7) comma by auto
    then show ?thesis using comma by (intro exI [of _ "CHR '','' # LF # replicate (nat d * 2) SPACE @ x"])
        (simp add: pad_blank(1) squeeze_plain squeeze_pad)
  next
    case colon
    then have "raw_loop (out @ '': '') t d = Inr z" using "2.prems" by (simp add: raw_loop.simps)
    then obtain x where "z = (out @ '': '') @ x" "squeeze x = squeeze t" using "2.IH"(8) colon by auto
    then show ?thesis using colon by (intro exI [of _ "CHR '':'' # SPACE # x"]) (simp add: squeeze.simps(2))
  next
    case other
    then have "raw_loop (out @ [c]) t d = Inr z" using "2.prems" by (simp add: raw_loop.simps)
    then obtain x where "z = (out @ [c]) @ x" "squeeze x = squeeze t" using "2.IH"(9) other by blast
    then show ?thesis using other by (intro exI [of _ "c # x"]) (simp add: squeeze_plain)
  qed
qed

text \<open>
  Re-emitting an opaque value only moves white space: whatever \<^verbatim>\<open>raw\<close> writes for a text, at any
  indentation and whether or not it is JSON, holds the same bytes in the same order outside white space,
  and every string byte for byte.
\<close>

theorem raw_moves_only_space:
  assumes "raw out s d = Inr z"
  shows "\<exists>x. z = out @ x \<and> squeeze x = squeeze s"
  using raw_loop_squeeze assms by (simp add: raw_def)

theorem raw_moves_only_space_witness:
  "\<exists>z x. raw [] [CHR ''{'', QUOTE, CHR ''a'', SPACE, QUOTE, CHR '':'', CHR ''1'', CHR ''}''] 0 = Inr z \<and> z = [] @ x
    \<and> squeeze x = squeeze [CHR ''{'', QUOTE, CHR ''a'', SPACE, QUOTE, CHR '':'', CHR ''1'', CHR ''}'']"
proof -
  obtain z where z: "raw [] [CHR ''{'', QUOTE, CHR ''a'', SPACE, QUOTE, CHR '':'', CHR ''1'', CHR ''}''] 0 = Inr z"
    by (simp add: raw_def raw_loop.simps is_ws_def)
  then show ?thesis using raw_moves_only_space [OF z] by blast
qed


subsection \<open>The writers' layout stays\<close>

text \<open>A text that is emitted again as it is at its indentation.\<close>

definition laid :: "nat \<Rightarrow> string \<Rightarrow> bool" where
  "laid d x \<longleftrightarrow> (\<forall>out t. raw_loop out (x @ t) (int d) = raw_loop (out @ x) t (int d))"

lemma laidD: "laid d x \<Longrightarrow> raw_loop out (x @ t) (int d) = raw_loop (out @ x) t (int d)"
  by (simp add: laid_def)

lemma laid_raw: "laid d x \<Longrightarrow> raw out x d = Inr (out @ x)"
  using laidD [of d x out "[]"] by (simp add: raw_def raw_loop.simps(1))

lemma raw_loop_ws: "list_all is_ws w \<Longrightarrow> raw_loop out (w @ t) d = raw_loop out t d"
  by (induction w) (simp_all add: raw_loop.simps(2))

definition plain_byte :: "char \<Rightarrow> bool" where
  "plain_byte c \<longleftrightarrow> \<not> is_ws c \<and> c \<notin> {QUOTE, CHR ''{'', CHR ''}'', CHR ''['', CHR '']'', CHR '','', CHR '':''}"

lemma laid_plain: "list_all plain_byte x \<Longrightarrow> laid d x"
  unfolding laid_def
proof (induction x)
  case (Cons c x)
  have c: "\<not> is_ws c" "c \<noteq> QUOTE" "\<not> (c = CHR ''{'' \<or> c = CHR ''['')" "\<not> (c = CHR ''}'' \<or> c = CHR '']'')"
    "c \<noteq> CHR '',''" "c \<noteq> CHR '':''" using Cons.prems by (auto simp: plain_byte_def)
  then have "raw_loop out ((c # x) @ t) (int d) = raw_loop (out @ [c]) (x @ t) (int d)" for out t
    by (simp add: raw_loop.simps(2))
  then show ?case using Cons by simp
qed simp

lemma laid_num: "laid d (num [] n)"
proof -
  have p: "is_digit c \<Longrightarrow> plain_byte c" for c
    by (auto simp: plain_byte_def is_digit_def is_ws_def bv_def)
  have "list_all plain_byte (num_loop u [])" for u
    using num_loop_digits [of u] p by (auto simp: list_all_iff)
  moreover have "plain_byte (CHR ''-'')" "plain_byte (CHR ''0'')" by (simp_all add: plain_byte_def is_ws_def)
  ultimately show ?thesis by (intro laid_plain) (simp add: num_def Let_def)
qed

lemma laid_bool: "laid d (put_bool [] b)"
  by (rule laid_plain) (simp add: put_bool_def plain_byte_def is_ws_def)

lemma span_hex: "n < 16 \<Longrightarrow> hex_digits ! n \<noteq> BSLASH \<and> hex_digits ! n \<noteq> QUOTE"
proof -
  have "list_all (\<lambda>n. hex_digits ! n \<noteq> BSLASH \<and> hex_digits ! n \<noteq> QUOTE) [0..<16]" by code_simp
  then show "n < 16 \<Longrightarrow> hex_digits ! n \<noteq> BSLASH \<and> hex_digits ! n \<noteq> QUOTE" by (simp add: list_all_iff)
qed

lemma span_escByte: "string_span (escByte [] c @ y) = length (escByte [] c) + string_span y"
proof -
  have "bv c div 16 < 16" "bv c mod 16 < 16" using bv_less_256 [of c] by linarith+
  then have "hex_digits ! (bv c div 16) \<noteq> BSLASH \<and> hex_digits ! (bv c div 16) \<noteq> QUOTE"
    "hex_digits ! (bv c mod 16) \<noteq> BSLASH \<and> hex_digits ! (bv c mod 16) \<noteq> QUOTE" by (blast dest: span_hex)+
  then show ?thesis by (simp add: escByte_def)
qed

lemma span_escText: "string_span (escText s @ QUOTE # t) = length (escText s) + 1"
proof (induction s)
  case (Cons c s)
  then show ?case using span_escByte [of c "escText s @ QUOTE # t"] by simp
qed simp

lemma raw_loop_esc: "raw_loop out (esc [] s @ t) d = raw_loop (out @ esc [] s) t d"
  using span_escText [of s t] by (simp add: esc_text raw_loop.simps(2))

lemma laid_esc: "laid d (esc [] s)"
  by (simp add: laid_def raw_loop_esc)

text \<open>What stands between the values of a container.\<close>

lemma raw_loop_indent: "raw_loop out (LF # pad [] n @ t) d = raw_loop out t d"
  using raw_loop_ws [of "LF # pad [] n" out t d] by (simp add: pad_def list_all_iff)

lemma raw_loop_label: "raw_loop out (esc [] k @ '': '' @ t) d = raw_loop (out @ esc [] k @ '': '') t d"
  by (simp add: raw_loop_esc raw_loop.simps(2) [of _ "CHR '':''"] raw_loop.simps(2) [of _ SPACE])

lemma raw_loop_comma: "raw_loop out (CHR '','' # LF # pad [] n @ t) (int n) = raw_loop (out @ CHR '','' # LF # pad [] n) t (int n)"
proof -
  have "pad (out @ [CHR '','', LF]) n = out @ CHR '','' # LF # pad [] n" by (simp add: pad_def)
  then show ?thesis by (simp add: raw_loop.simps(2) [of _ "CHR '',''"] raw_loop_indent)
qed

lemma raw_loop_open:
  assumes "c = CHR ''{'' \<or> c = CHR ''[''" "value_start t" "hd t \<noteq> CHR ''}''" "hd t \<noteq> CHR '']''"
  shows "raw_loop out (c # LF # pad [] (d + 1) @ t) (int d) = raw_loop (out @ c # LF # pad [] (d + 1)) t (int (d + 1))"
proof -
  obtain e u where t: "t = e # u" "\<not> is_ws e" using assms(2) by (auto simp: value_start_def)
  have "dropWhile is_ws (LF # pad [] (d + 1) @ t) = t"
  proof -
    have "\<And>x. x \<in> set (LF # pad [] (d + 1)) \<Longrightarrow> is_ws x" using set_pad by auto
    then have "dropWhile is_ws ((LF # pad [] (d + 1)) @ t) = dropWhile is_ws t" by (rule dropWhile_append2)
    then show ?thesis using t by simp
  qed
  moreover have "pad (out @ [c, LF]) (d + 1) = out @ c # LF # pad [] (d + 1)" by (simp add: pad_def)
  moreover have "nat (int d + 1) = d + 1" "int (d + 1) = int d + 1" by simp_all
  ultimately show ?thesis using t assms(3,4) by (simp only: raw_loop_opens [OF assms(1)] raw_loop_indent list.case) simp
qed

lemma raw_loop_close:
  assumes "c = CHR ''}'' \<or> c = CHR '']''"
  shows "raw_loop out (close_text d [c] @ t) (int (d + 1)) = raw_loop (out @ close_text d [c]) t (int d)"
proof -
  have "raw_loop out (c # t) (int (d + 1)) = raw_loop (out @ LF # pad [] d @ [c]) t (int d)"
    using assms by (subst raw_loop.simps(2)) (auto simp: pad_def)
  then show ?thesis using raw_loop_indent [of out d "c # t" "int (d + 1)"] by (simp add: close_text_def)
qed

lemma laid_members:
  "\<forall>(k, x) \<in> set ms. laid (d + 1) x \<Longrightarrow>
    raw_loop out (members_text d ms @ t) (int (d + 1)) = raw_loop (out @ members_text d ms) t (int (d + 1))"
proof (induction ms arbitrary: out)
  case (Cons m ms)
  obtain k x where m: "m = (k, x)" by (cases m)
  have l: "laid (d + 1) x" using Cons.prems m by simp
  have "raw_loop out (members_text d (m # ms) @ t) (int (d + 1)) =
      raw_loop (out @ CHR '','' # key_text d k) (x @ members_text d ms @ t) (int (d + 1))"
    using raw_loop_comma [of out "d + 1" "esc [] k @ '': '' @ x @ members_text d ms @ t"]
      raw_loop_label [of "out @ CHR '','' # LF # pad [] (d + 1)" k "x @ members_text d ms @ t" "int (d + 1)"]
    by (simp add: m key_text_def)
  also have "\<dots> = raw_loop ((out @ CHR '','' # key_text d k) @ x) (members_text d ms @ t) (int (d + 1))"
    by (rule laidD [OF l])
  finally show ?case using Cons m by simp
qed simp

lemma laid_object:
  assumes "\<forall>(k, x) \<in> set ms. laid (d + 1) x" "ms \<noteq> []"
  shows "laid d (object_text d ms)"
  unfolding laid_def
proof (intro allI)
  fix out t
  obtain k x ns where ms: "ms = (k, x) # ns" using assms(2) by (cases ms) auto
  have l: "laid (d + 1) x" "\<forall>(k, x) \<in> set ns. laid (d + 1) x" using assms(1) ms by simp_all
  let ?c = "members_text d ns @ close_text d ''}'' @ t"
  have "raw_loop out (object_text d ms @ t) (int d) = raw_loop (out @ CHR ''{'' # key_text d k) (x @ ?c) (int (d + 1))"
    using raw_loop_open [of "CHR ''{''" "esc [] k @ '': '' @ x @ ?c" out d]
      raw_loop_label [of "out @ CHR ''{'' # LF # pad [] (d + 1)" k "x @ ?c" "int (d + 1)"]
    by (simp add: ms object_text_def key_text_def esc_text)
  also have "\<dots> = raw_loop ((out @ CHR ''{'' # key_text d k) @ x) ?c (int (d + 1))" by (rule laidD [OF l(1)])
  also have "\<dots> = raw_loop (((out @ CHR ''{'' # key_text d k) @ x) @ members_text d ns) (close_text d ''}'' @ t) (int (d + 1))"
    by (rule laid_members [OF l(2)])
  also have "\<dots> = raw_loop ((((out @ CHR ''{'' # key_text d k) @ x) @ members_text d ns) @ close_text d ''}'') t (int d)"
    by (rule raw_loop_close) simp
  finally show "raw_loop out (object_text d ms @ t) (int d) = raw_loop (out @ object_text d ms) t (int d)"
    by (simp add: ms object_text_def)
qed


lemma laid_items:
  "\<forall>v \<in> set vs. laid (d + 1) (f v) \<Longrightarrow>
    raw_loop out (items_text d f vs @ t) (int (d + 1)) = raw_loop (out @ items_text d f vs) t (int (d + 1))"
proof (induction vs arbitrary: out)
  case (Cons v vs)
  have l: "laid (d + 1) (f v)" using Cons.prems by simp
  have "raw_loop out (items_text d f (v # vs) @ t) (int (d + 1)) =
      raw_loop (out @ CHR '','' # item_line d) (f v @ items_text d f vs @ t) (int (d + 1))"
    using raw_loop_comma [of out "d + 1" "f v @ items_text d f vs @ t"] by (simp add: item_line_def)
  also have "\<dots> = raw_loop ((out @ CHR '','' # item_line d) @ f v) (items_text d f vs @ t) (int (d + 1))"
    by (rule laidD [OF l])
  finally show ?case using Cons by simp
qed simp

lemma laid_list:
  assumes "\<forall>v \<in> set vs. laid (d + 1) (f v) \<and> value_start (f v) \<and> hd (f v) \<noteq> CHR ''}'' \<and> hd (f v) \<noteq> CHR '']''"
  shows "laid d (list_text d f vs)"
proof (cases vs)
  case Nil
  then show ?thesis by (simp add: laid_def list_text_def raw_loop.simps(2) [of _ "CHR ''[''"])
next
  case (Cons v ws)
  have l: "laid (d + 1) (f v)" "\<forall>v \<in> set ws. laid (d + 1) (f v)" "value_start (f v)" "hd (f v) \<noteq> CHR ''}''" "hd (f v) \<noteq> CHR '']''"
    using assms Cons by simp_all
  have ne: "f v \<noteq> []" using l(3) by (auto simp: value_start_def)
  show ?thesis unfolding laid_def
  proof (intro allI)
    fix out t
    let ?c = "items_text d f ws @ close_text d '']'' @ t"
    have "raw_loop out (list_text d f vs @ t) (int d) = raw_loop (out @ CHR ''['' # item_line d) (f v @ ?c) (int (d + 1))"
      using raw_loop_open [of "CHR ''[''" "f v @ ?c" out d] l(3-5) ne by (simp add: Cons list_text_def item_line_def)
    also have "\<dots> = raw_loop ((out @ CHR ''['' # item_line d) @ f v) ?c (int (d + 1))" by (rule laidD [OF l(1)])
    also have "\<dots> = raw_loop (((out @ CHR ''['' # item_line d) @ f v) @ items_text d f ws) (close_text d '']'' @ t) (int (d + 1))"
      by (rule laid_items [OF l(2)])
    also have "\<dots> = raw_loop ((((out @ CHR ''['' # item_line d) @ f v) @ items_text d f ws) @ close_text d '']'') t (int d)"
      by (rule raw_loop_close) simp
    finally show "raw_loop out (list_text d f vs @ t) (int d) = raw_loop (out @ list_text d f vs) t (int d)"
      by (simp add: Cons list_text_def)
  qed
qed

subsection \<open>Maps of opaque values\<close>

fun rawmap_loop :: "string \<Rightarrow> strings \<Rightarrow> nat \<Rightarrow> string list \<Rightarrow> wire_error + string" where
  "rawmap_loop out m depth [] = Inr out"
| "rawmap_loop out m depth (k # ks) =
     (let out1 = esc (pad out (depth + 1)) k in
      case raw (out1 @ '': '') (the (map_of m k)) (depth + 1) of
        Inl e \<Rightarrow> Inl e
      | Inr out2 \<Rightarrow>
          (let out3 = (if ks \<noteq> [] then out2 @ '','' else out2) in rawmap_loop (out3 @ [LF]) m depth ks))"

definition rawmap :: "string \<Rightarrow> strings \<Rightarrow> nat \<Rightarrow> wire_error + string" where
  "rawmap out m depth =
     (let keys = sortedKeys m
      in if keys = [] then Inr (out @ ''{}'')
         else case rawmap_loop (out @ [CHR ''{'', LF]) m depth keys of
                Inl e \<Rightarrow> Inl e
              | Inr out' \<Rightarrow> Inr (pad out' depth @ ''}''))"

definition rawMap_field :: "string \<Rightarrow> strings \<Rightarrow> u32 \<Rightarrow> reader \<Rightarrow> (strings \<times> u32) read" where
  "rawMap_field k m seen r =
     (case rawValue r of Inl e \<Rightarrow> Inl e | Inr (x, r') \<Rightarrow> Inr ((AList.update k x m, seen), r'))"

lemma rawMap_field_forward: "rawMap_field k m seen r = Inr (x, r') \<Longrightarrow> forward r r'"
  by (auto simp: rawMap_field_def rawValue_def dest: skipValue_forward split: sum.splits)

function rawMap_loop :: "strings \<Rightarrow> u32 \<Rightarrow> reader \<Rightarrow> (strings \<times> u32) read" where
  "rawMap_loop v seen r =
     (case object_step rawMap_field v seen r of
        Inl e \<Rightarrow> Inl e
      | Inr ((again, v', seen'), r') \<Rightarrow>
          (if again then rawMap_loop v' seen' r' else Inr ((v', seen'), r')))"
  by pat_completeness auto
termination
  by (relation "measure (\<lambda>(v, seen, r). unread r)") (auto dest: object_step_unread rawMap_field_forward)

declare rawMap_loop.simps [simp del]

definition rawMap :: "reader \<Rightarrow> strings read" where
  "rawMap r = decode_object rawMap_loop 0 [] r"

interpretation raw_map: object_decoder rawMap_field rawMap_loop
  by unfold_locales (rule rawMap_loop.simps, rule rawMap_field_forward)

definition opaque_members :: "strings \<Rightarrow> strings member list" where
  "opaque_members m = map (\<lambda>(k, x). Member k x (AList.update k x) 0) m"

lemma texts_opaque: "texts (opaque_members m) = m"
  by (induction m) (auto simp: opaque_members_def texts_def)

lemma rawmap_loop_text:
  assumes "ks \<noteq> []" "\<forall>k \<in> set ks. laid (d + 1) (the (map_of m k))"
  shows "rawmap_loop (out @ [LF]) m d ks = Inr (out @ tl (members_text d (map (\<lambda>k. (k, the (map_of m k))) ks)) @ [LF])"
  using assms
proof (induction ks arbitrary: out)
  case (Cons k ks)
  let ?x = "the (map_of m k)"
  have x: "raw o1 ?x (d + 1) = Inr (o1 @ ?x)" for o1 using laid_raw Cons.prems(2) by simp
  show ?case
  proof (cases "ks = []")
    case True
    then show ?thesis using x by (simp add: key_text_def esc_text pad_def Let_def)
  next
    case False
    have "rawmap_loop (out @ [LF]) m d (k # ks) = rawmap_loop ((out @ key_text d k @ ?x @ '','') @ [LF]) m d ks"
      using False x by (simp add: key_text_def esc_text pad_def Let_def)
    also have "\<dots> = Inr ((out @ key_text d k @ ?x @ '','') @ tl (members_text d (map (\<lambda>k. (k, the (map_of m k))) ks)) @ [LF])"
      using Cons.IH [of "out @ key_text d k @ ?x @ '',''"] False Cons.prems(2) by simp
    finally show ?thesis using False by (cases ks) simp_all
  qed
qed simp

lemma rawmap_text:
  assumes "m \<noteq> []" "\<forall>(k, x) \<in> set m. laid (d + 1) x"
  shows "rawmap out m d = Inr (out @ object_text d (sorted_map m))"
proof -
  have "laid (d + 1) (the (map_of m k))" if "k \<in> set (sortedKeys m)" for k
  proof -
    have "map_of m k \<noteq> None" using that by (simp add: set_sortedKeys map_of_eq_None_iff)
    then obtain x where "map_of m k = Some x" by blast
    then show ?thesis using assms(2) by (auto dest: map_of_SomeD)
  qed
  then show ?thesis
    using rawmap_loop_text [of "sortedKeys m" d m "out @ ''{''"] assms(1)
    by (simp add: rawmap_def Let_def sortedKeys_Nil_iff object_text_def sorted_map_def close_text_def pad_def)
qed

lemma rawMap_text:
  assumes r: "rest r = object_text d m @ t" "m \<noteq> []" and dep: "r_depth r + 1 + h \<le> depthLimit"
    and v: "\<forall>(k, x) \<in> set m. validUTF8 k \<and> skips h x" and d: "distinct (map fst m)"
  shows "rawMap r = Inr (m, to r t)"
proof -
  have "reads_member rawMap_field (r_depth r + 1) (Member k x (AList.update k x) 0)" if "(k, x) \<in> set m" for k x
    using that v dep by (intro reads_memberI) (auto simp: rawMap_field_def skips_def rawValue_back)
  then have "\<forall>e \<in> set (opaque_members m). reads_member rawMap_field (r_depth r + 1) e"
    by (auto simp: opaque_members_def)
  moreover have "distinct_flags (opaque_members m)"
    by (simp add: distinct_flags_def opaque_members_def sorted_wrt_map split_beta sorted_wrt_iff_nth_less)
  moreover have "stored (opaque_members m) [] = m"
  proof -
    have "distinct (map fst (a @ b)) \<Longrightarrow> stored (opaque_members b) a = a @ b" for a b
    proof (induction b arbitrary: a)
      case (Cons e b)
      obtain k x where e: "e = (k, x)" by (cases e)
      have "AList.update k x a = a @ [(k, x)]" using Cons.prems e by (induction a) auto
      then show ?case using Cons.IH [of "a @ [(k, x)]"] Cons.prems e by (simp add: opaque_members_def)
    qed (simp add: opaque_members_def)
    from this [of "[]" m] show ?thesis using d by simp
  qed
  moreover have "opaque_members m \<noteq> []" using r(2) by (simp add: opaque_members_def)
  ultimately show ?thesis
    using raw_map.decode_members [of r d "opaque_members m" t 0 "[]"] r dep by (simp add: rawMap_def texts_opaque)
qed

text \<open>
  A map of opaque values reads back: of a map whose values stand as the writers lay them out, \<^verbatim>\<open>rawmap\<close>
  writes every value byte for byte, keys in order, and \<^verbatim>\<open>rawMap\<close> reads the same map, each value the
  bytes it was.
\<close>

theorem opaque_map_roundtrip:
  assumes m: "m \<noteq> []" "distinct (map fst m)" and v: "\<forall>(k, x) \<in> set m. validUTF8 k \<and> skips h x \<and> laid (d + 1) x"
    and w: "rawmap [] m d = Inr z" and r: "rest r = z @ t" "r_depth r + 1 + h \<le> depthLimit"
  shows "rawMap r = Inr (sorted_map m, to r t) \<and> map_of (sorted_map m) = map_of m"
proof -
  have "rawmap [] m d = Inr (object_text d (sorted_map m))" using rawmap_text [of m d "[]"] m v by auto
  then have z: "z = object_text d (sorted_map m)" using w by simp
  have s: "set (sorted_map m) \<subseteq> set m" by (rule sorted_map_subset)
  have "rawMap r = Inr (sorted_map m, to r t)"
    by (rule rawMap_text [where h = h and d = d])
      (use r z s m v in \<open>auto simp: sorted_map_Nil sorted_map_keys sortedKeys_distinct\<close>)
  then show ?thesis by (simp add: map_of_sorted_map)
qed

theorem opaque_map_roundtrip_witness:
  "\<exists>z. rawmap [] [(''b'', esc [] ''x''), (''a'', num [] 7)] 0 = Inr z
    \<and> (\<exists>r'. rawMap \<lparr>r_buf = z, r_pos = 0, r_depth = 0\<rparr> = Inr (sorted_map [(''b'', esc [] ''x''), (''a'', num [] 7)], r'))"
proof -
  let ?m = "[(''b'', esc [] ''x''), (''a'', num [] 7)]"
  have u: "validUTF8 ''a''" "validUTF8 ''b''" "validUTF8 ''x''" by code_simp+
  have v: "\<forall>(k, x) \<in> set ?m. validUTF8 k \<and> skips 0 x \<and> laid (0 + 1) x"
    using u by (simp add: skips_esc skips_num laid_esc laid_num)
  then obtain z where z: "rawmap [] ?m 0 = Inr z" using rawmap_text [of ?m 0 "[]"] by auto
  have "rawMap \<lparr>r_buf = z, r_pos = 0, r_depth = 0\<rparr> = Inr (sorted_map ?m, to \<lparr>r_buf = z, r_pos = 0, r_depth = 0\<rparr> [])"
    using opaque_map_roundtrip [OF _ _ v z, of "\<lparr>r_buf = z, r_pos = 0, r_depth = 0\<rparr>" "[]"] by (simp add: rest_def depthLimit_def)
  then show ?thesis using z by blast
qed

end
