(* ===== verification/History_Paging.thy ===== *)
theory History_Paging
  imports History
begin

text \<open>
  What paging through a file gives: the pages of \<^verbatim>\<open>go/history.go\<close> against the list of
  records the file holds, and the page check of the client against the pages.
\<close>

subsection \<open>A file that holds records\<close>

definition stored_line :: "string \<times> wire_record \<Rightarrow> bool" where
  "stored_line e \<longleftrightarrow> one_line (fst e) \<and> length (fst e) \<le> 65536 \<and> Decode (fst e) = Inr (snd e)"

definition bytes :: "(string \<times> wire_record) list \<Rightarrow> string" where
  "bytes es = concat (map fst es)"

lemma bytes_simps [simp]: "bytes [] = []" "bytes (e # es) = fst e @ bytes es" "bytes (a @ b) = bytes a @ bytes b"
  by (simp_all add: bytes_def)

text \<open>How many of the records a page takes: as many as both limits let in.\<close>

fun page_takes :: "int \<Rightarrow> int \<Rightarrow> wire_record list \<Rightarrow> nat" where
  "page_takes maxRecords maxBytes [] = 0"
| "page_takes maxRecords maxBytes (r # rs) =
     (if 1 \<le> maxRecords \<and> bytes_of r \<le> maxBytes then Suc (page_takes (maxRecords - 1) (maxBytes - bytes_of r) rs) else 0)"

lemma page_takes_le: "page_takes m b rs \<le> length rs"
  by (induction m b rs rule: page_takes.induct) simp_all

lemma takeWhile_line:
  assumes "one_line l" "length l \<le> 65536"
  shows "LF \<in> set (take 65537 (l @ u))" "takeWhile (\<lambda>c. c \<noteq> LF) (take 65537 (l @ u)) @ [LF] = l"
proof -
  obtain b where l: "l = b @ [LF]" and b: "LF \<notin> set b"
    using assms(1) by (metis append_butlast_last_id one_line_def)
  obtain n where n: "65537 - length l = n" "take 65537 (l @ u) = l @ take n u" using assms(2) by simp
  show "LF \<in> set (take 65537 (l @ u))" unfolding n(2) by (simp add: l)
  show "takeWhile (\<lambda>c. c \<noteq> LF) (take 65537 (l @ u)) @ [LF] = l"
    unfolding n(2) using b by (auto simp: l takeWhile_append)
qed

lemma read_line_stored:
  assumes "stored_line e"
  shows "read_line (bytes pre @ fst e @ u) (length (bytes pre)) = (fst e, True)"
  using takeWhile_line [of "fst e" u] assms by (simp add: read_line_def stored_line_def Let_def)

lemma stored_line_facts:
  assumes "stored_line e"
  obtains t where "Decode (fst e) = Inr (snd e)" "Encode (snd e) = Inr t" "bytes_of (snd e) = int (length t)"
    "0 < length (fst e)" "\<not> 65536 < length (fst e)"
  using assms Decode_encodes [of "fst e" "snd e"] by (auto simp: stored_line_def one_line_def)

lemma read_loop_stored:
  assumes "list_all stored_line es" "\<forall>n. readable n" "int (length records) \<le> maxRecords"
  shows "read_loop readable (bytes pre @ bytes es) maxRecords maxBytes records used (length (bytes pre)) =
    (let n = page_takes (maxRecords - int (length records)) (maxBytes - used) (map snd es) in
     if n = 0 \<and> es \<noteq> [] \<and> records = [] \<and> int (length records) < maxRecords then Refused PageOutcomeRecordTooLarge
     else Filled (records @ map snd (take n es)) (length (bytes (pre @ take n es))))"
  using assms
proof (induction es arbitrary: pre records used)
  case Nil
  then show ?case by (simp add: read_loop.simps)
next
  case (Cons e es)
  obtain t where t: "Decode (fst e) = Inr (snd e)" "Encode (snd e) = Inr t" "bytes_of (snd e) = int (length t)"
    "0 < length (fst e)" "\<not> 65536 < length (fst e)"
  proof -
    have "stored_line e" using Cons.prems(1) by simp
    then show thesis using that stored_line_facts by metis
  qed
  let ?content = "bytes pre @ bytes (e # es)"
  have l: "read_line ?content (length (bytes pre)) = (fst e, True)"
    using read_line_stored [of e pre "bytes es"] Cons.prems(1) by simp
  have o: "length (bytes pre) < length ?content" using t(4) by simp
  show ?case
  proof (cases "int (length records) < maxRecords \<and> used + int (length t) \<le> maxBytes")
    case True
    have "read_loop readable ?content maxRecords maxBytes records used (length (bytes pre)) =
        read_loop readable (bytes (pre @ [e]) @ bytes es) maxRecords maxBytes (records @ [snd e]) (used + int (length t))
          (length (bytes (pre @ [e])))"
      using True t o l Cons.prems(2) by (subst read_loop.simps) simp
    also have "\<dots> = (let n = page_takes (maxRecords - int (length (records @ [snd e]))) (maxBytes - (used + int (length t))) (map snd es) in
     if n = 0 \<and> es \<noteq> [] \<and> records @ [snd e] = [] \<and> int (length (records @ [snd e])) < maxRecords then Refused PageOutcomeRecordTooLarge
     else Filled ((records @ [snd e]) @ map snd (take n es)) (length (bytes ((pre @ [e]) @ take n es))))"
      by (rule Cons.IH) (use Cons.prems True in simp_all)
    finally show ?thesis using True t by (simp add: Let_def algebra_simps)
  next
    case False
    then show ?thesis using t o l Cons.prems(2,3) by (subst read_loop.simps) auto
  qed
qed

subsection \<open>Pages of a stored file\<close>

text \<open>Everything works: the file can be opened and read and is the one the sink has open.\<close>

definition all_well :: "history_env \<Rightarrow> bool" where
  "all_well env \<longleftrightarrow> he_key env \<noteq> None \<and> he_stat env \<and> he_open env \<and> he_info env \<and> he_same env \<and> he_byte env
     \<and> (\<forall>n. he_line env n)"

definition colon_free :: "string \<Rightarrow> bool" where
  "colon_free epoch \<longleftrightarrow> CHR '':'' \<notin> set epoch"

lemma last_stored: "list_all stored_line es \<Longrightarrow> es \<noteq> [] \<Longrightarrow> bytes es \<noteq> [] \<and> last (bytes es) = LF"
  by (induction es rule: rev_induct) (auto simp: stored_line_def one_line_def)

definition epoch_after :: "history_env \<Rightarrow> file_sink \<Rightarrow> string" where
  "epoch_after env s = (if fs_epoch s = [] then hex_encode (the (he_key env)) else fs_epoch s)"

definition with_epoch :: "history_env \<Rightarrow> file_sink \<Rightarrow> file_sink" where
  "with_epoch env s = s\<lparr>fs_epoch := epoch_after env s\<rparr>"

lemma with_epoch_fields [simp]:
  "fs_epoch (with_epoch env s) = epoch_after env s" "fs_content (with_epoch env s) = fs_content s"
  "fs_open (with_epoch env s) = fs_open s"
  by (simp_all add: with_epoch_def)

lemma read_stored:
  assumes "all_well env" "fs_open s" "colon_free (fs_epoch s)" "\<not> bad_limits maxRecords maxBytes"
    and c: "fs_content s = bytes (pre @ es)" "list_all stored_line (pre @ es)" "length (fs_content s) < 2 ^ 63"
    and cursor: "cursor = cursor_of (epoch_after env s) (length (bytes pre)) \<or> cursor = [] \<and> pre = []"
  shows "FileSink_Read env s cursor maxRecords maxBytes = (with_epoch env s,
    (let n = page_takes (sint maxRecords) (sint maxBytes) (map snd es) in
     Done (if n = 0 \<and> es \<noteq> [] then refusal_page PageOutcomeRecordTooLarge cursor
       else \<lparr>pg_outcome = PageOutcomePage, pg_records = map snd (take n es),
              pg_next = cursor_of (epoch_after env s) (length (bytes (pre @ take n es))),
              pg_at_end = (n = length es)\<rparr>)))"
proof -
  let ?e = "epoch_after env s" and ?n = "page_takes (sint maxRecords) (sint maxBytes) (map snd es)"
  have s1: "(if fs_epoch s = [] then s\<lparr>fs_epoch := hex_encode (the (he_key env))\<rparr> else s) = with_epoch env s"
    by (simp add: with_epoch_def epoch_after_def)
  have k: "(fs_epoch s = [] \<and> he_key env = None) = False" using assms(1) by (simp add: all_well_def)
  have e: "colon_free ?e" using assms(3) hex_encode_no_colon by (simp add: epoch_after_def colon_free_def)
  have o: "length (bytes pre) \<le> length (fs_content s)" using c(1) by simp
  have cur: "cursor_offset ?e cursor = Some (length (bytes pre))"
    using cursor cursor_round_trip [of "length (bytes pre)" ?e] o c(3) e
    by (auto simp: cursor_offset_def colon_free_def)
  have b: "fs_content s ! (length (bytes pre) - 1) = LF" if "length (bytes pre) > 0"
  proof -
    have "pre \<noteq> []" "bytes pre \<noteq> []" using that by auto
    then have "last (bytes pre) = LF" using last_stored [of pre] c(2) by simp
    then show ?thesis using that \<open>bytes pre \<noteq> []\<close> c(1) by (simp add: nth_append last_conv_nth)
  qed
  have lim: "1 \<le> sint maxRecords" using assms(4) by (simp add: bad_limits_def)
  have loop: "read_loop (he_line env) (fs_content s) (sint maxRecords) (sint maxBytes) [] 0 (length (bytes pre)) =
      (if ?n = 0 \<and> es \<noteq> [] then Refused PageOutcomeRecordTooLarge
       else Filled (map snd (take ?n es)) (length (bytes (pre @ take ?n es))))"
    using read_loop_stored [of es "he_line env" "[]" "sint maxRecords" pre "sint maxBytes" 0] assms(1) c(1,2) lim
    by (auto simp: all_well_def Let_def)
  have n: "?n \<le> length es" using page_takes_le [of _ _ "map snd es"] by simp
  have ends: "length (bytes (pre @ take ?n es)) = length (fs_content s) \<longleftrightarrow> ?n = length es"
  proof
    assume "length (bytes (pre @ take ?n es)) = length (fs_content s)"
    then have "length (bytes (take ?n es)) = length (bytes (take ?n es @ drop ?n es))" using c(1) by simp
    then have "bytes (drop ?n es) = []" by (simp del: append_take_drop_id)
    moreover have "list_all stored_line (drop ?n es)" using c(2) by (auto simp: list_all_iff dest: in_set_dropD)
    ultimately have "drop ?n es = []" using last_stored by blast
    then show "?n = length es" using n by simp
  qed (use c(1) in simp)
  have env: "he_stat env" "he_open env" "he_info env" "he_same env" "he_byte env" using assms(1) by (simp_all add: all_well_def)
  have gap: "(0 < length (bytes pre) \<and> fs_content s ! (length (bytes pre) - 1) \<noteq> LF) = False"
    using b by auto
  have big: "(length (bytes pre) > length (fs_content s)) = False" using o by simp
  show ?thesis
    unfolding FileSink_Read_def readHistoryLocked_def Let_def s1
    by (simp only: assms(2,4) k cur option.case with_epoch_fields env gap big loop if_True if_False simp_thms
        ends split: if_split) (use ends c(1) in auto)
qed

subsection \<open>Following the pages\<close>

text \<open>
  A reader that starts from the empty cursor and asks for the next page until the end; \<open>None\<close> when
  it was refused or did not get to the end in so many pages.
\<close>

fun follow :: "nat \<Rightarrow> history_env \<Rightarrow> file_sink \<Rightarrow> string \<Rightarrow> i64 \<Rightarrow> i64 \<Rightarrow> wire_record list option" where
  "follow 0 env s cursor maxRecords maxBytes = None"
| "follow (Suc n) env s cursor maxRecords maxBytes =
     (case FileSink_Read env s cursor maxRecords maxBytes of
        (s', Done page) \<Rightarrow>
          (if pg_outcome page \<noteq> PageOutcomePage then None
           else if pg_at_end page then Some (pg_records page)
           else map_option (\<lambda>rs. pg_records page @ rs) (follow n env s' (pg_next page) maxRecords maxBytes))
      | _ \<Rightarrow> None)"

lemma with_epoch_again [simp]:
  "epoch_after env (with_epoch env s) = epoch_after env s" "with_epoch env (with_epoch env s) = with_epoch env s"
  by (auto simp: with_epoch_def epoch_after_def)

lemma colon_free_after: "colon_free (fs_epoch s) \<Longrightarrow> colon_free (epoch_after env s)"
  using hex_encode_no_colon by (simp add: epoch_after_def colon_free_def)

lemma page_takes_some:
  "rs \<noteq> [] \<Longrightarrow> 1 \<le> maxRecords \<Longrightarrow> bytes_of (hd rs) \<le> maxBytes \<Longrightarrow> 0 < page_takes maxRecords maxBytes rs"
  by (cases rs) simp_all

lemma follow_stored:
  assumes "all_well env" "fs_open s" "colon_free (fs_epoch s)" "\<not> bad_limits maxRecords maxBytes"
    "fs_content s = bytes (pre @ es)" "list_all stored_line (pre @ es)" "length (fs_content s) < 2 ^ 63"
    "list_all (\<lambda>e. bytes_of (snd e) \<le> sint maxBytes) es"
    "cursor = cursor_of (epoch_after env s) (length (bytes pre)) \<or> cursor = [] \<and> pre = []"
    "length es < n"
  shows "follow n env s cursor maxRecords maxBytes = Some (map snd es)"
  using assms
proof (induction n arbitrary: s pre es cursor)
  case (Suc n)
  let ?n = "page_takes (sint maxRecords) (sint maxBytes) (map snd es)"
  have r: "FileSink_Read env s cursor maxRecords maxBytes = (with_epoch env s,
      Done (if ?n = 0 \<and> es \<noteq> [] then refusal_page PageOutcomeRecordTooLarge cursor
         else \<lparr>pg_outcome = PageOutcomePage, pg_records = map snd (take ?n es),
              pg_next = cursor_of (epoch_after env s) (length (bytes (pre @ take ?n es))),
              pg_at_end = (?n = length es)\<rparr>))"
    using read_stored [OF Suc.prems(1-7,9)] by (simp add: Let_def)
  have lim: "1 \<le> sint maxRecords" using Suc.prems(4) by (simp add: bad_limits_def)
  have some: "0 < ?n" if "es \<noteq> []"
    using page_takes_some [of "map snd es" "sint maxRecords" "sint maxBytes"] that lim Suc.prems(8)
    by (cases es) simp_all
  show ?case
  proof (cases "?n = length es")
    case True
    then show ?thesis using r some by (cases "es = []") simp_all
  next
    case False
    then have "es \<noteq> []" by auto
    then have ne: "es \<noteq> []" "0 < ?n" using some by simp_all
    let ?pre = "pre @ take ?n es" and ?es = "drop ?n es"
    have split: "?pre @ ?es = pre @ es" by simp
    have "follow n env (with_epoch env s) (cursor_of (epoch_after env s) (length (bytes ?pre))) maxRecords maxBytes
        = Some (map snd ?es)"
    proof (rule Suc.IH)
      show "fs_content (with_epoch env s) = bytes (?pre @ ?es)" unfolding split using Suc.prems(5) by simp
      show "list_all stored_line (?pre @ ?es)" unfolding split by (rule Suc.prems(6))
      show "list_all (\<lambda>e. bytes_of (snd e) \<le> sint maxBytes) ?es"
        using Suc.prems(8) by (auto simp: list_all_iff dest: in_set_dropD)
      have "0 < length es" using ne by simp
      then show "length ?es < n" using Suc.prems(10) ne(2) by (simp del: length_greater_0_conv)
    qed (use Suc.prems colon_free_after in simp_all)
    moreover have "map snd (take ?n es) @ map snd ?es = map snd es"
      by (simp flip: map_append)
    ultimately show ?thesis using r ne False by simp
  qed
qed simp

subsection \<open>Properties of history\<close>

text \<open>
  C30: Following the pages from the empty cursor returns every stored record exactly once, in the
  order it was written, in at most one page more than there are records: whatever the limits, as
  long as each record fits a page.
\<close>

theorem paging_returns_everything:
  assumes "all_well env" "fs_open s" "colon_free (fs_epoch s)" "\<not> bad_limits maxRecords maxBytes"
    "fs_content s = bytes es" "list_all stored_line es" "length (fs_content s) < 2 ^ 63"
    "list_all (\<lambda>e. bytes_of (snd e) \<le> sint maxBytes) es"
  shows "follow (length es + 1) env s [] maxRecords maxBytes = Some (map snd es)"
  using follow_stored [of env s maxRecords maxBytes "[]" es "[]" "length es + 1"] assms by simp

text \<open>
  A page read at the place of any record holds as many of the following records as both limits
  let in, its cursor points behind the last of them, and it says whether that is the end; a record
  that alone exceeds the byte limit is refused as too large.
\<close>

theorem page_holds_what_fits:
  assumes "all_well env" "fs_open s" "colon_free (fs_epoch s)" "\<not> bad_limits maxRecords maxBytes"
    "fs_content s = bytes (pre @ es)" "list_all stored_line (pre @ es)" "length (fs_content s) < 2 ^ 63"
  shows "\<exists>s'. FileSink_Read env s (cursor_of (epoch_after env s) (length (bytes pre))) maxRecords maxBytes = (s',
    let n = page_takes (sint maxRecords) (sint maxBytes) (map snd es) in
    Done (if n = 0 \<and> es \<noteq> []
      then refusal_page PageOutcomeRecordTooLarge (cursor_of (epoch_after env s) (length (bytes pre)))
      else \<lparr>pg_outcome = PageOutcomePage, pg_records = map snd (take n es),
             pg_next = cursor_of (epoch_after env s) (length (bytes (pre @ take n es))),
             pg_at_end = (n = length es)\<rparr>))"
  using read_stored [OF assms] by blast

text \<open>
  C31: Every answer of the provider passes the client's check, for any cursor, limits, file and
  environment: a page keeps both limits and moves its cursor, a refusal keeps the caller's cursor,
  and reading never panics.
\<close>

theorem pages_pass_the_client:
  assumes "length (fs_content s) < 2 ^ 63"
  shows "\<exists>page. snd (FileSink_Read env s cursor maxRecords maxBytes) = Done page
    \<and> validateHistoryPage page cursor maxRecords maxBytes = Done page"
  using client_accepts_page [OF refl assms, of env cursor maxRecords maxBytes] by (metis prod.collapse)

subsection \<open>Witnesses\<close>

text \<open>A file that holds the sample document twice, and an environment where everything works.\<close>

definition sample_line :: string where
  "sample_line = sample_document @ [LF]"

definition sample_env :: history_env where
  "sample_env = \<lparr>he_key = Some ''0123456789abcdef'', he_stat = True, he_open = True, he_info = True, he_same = True,
     he_byte = True, he_line = (\<lambda>_. True)\<rparr>"

lemma sample_line_decodes:
  "case Decode sample_line of Inl _ \<Rightarrow> False
   | Inr v \<Rightarrow> (case Encode v of Inl _ \<Rightarrow> False | Inr t \<Rightarrow> int (length t) \<le> 400)"
  by code_simp

lemma sample_line_shape: "one_line sample_line" "length sample_line \<le> 65536" "length sample_line = 69"
  by (simp_all add: sample_line_def sample_document_def one_line_def)

lemma sample_stored:
  obtains v where "stored_line (sample_line, v)" "bytes_of v \<le> 400"
proof -
  obtain v where v: "Decode sample_line = Inr v" "bytes_of v \<le> 400"
    using sample_line_decodes by (auto simp: bytes_of_def split: sum.splits)
  then show ?thesis using that [of v] sample_line_shape by (simp add: stored_line_def)
qed

lemma sample_env_ok: "all_well sample_env"
  by (simp add: all_well_def sample_env_def)

definition sample_file :: file_sink where
  "sample_file = OpenFileSink (sample_line @ sample_line)"

lemma sample_file_facts:
  "fs_open sample_file" "colon_free (fs_epoch sample_file)" "fs_content sample_file = sample_line @ sample_line"
  "length (fs_content sample_file) < 2 ^ 63"
  using sample_line_shape(3) by (simp_all add: sample_file_def OpenFileSink_def colon_free_def)

lemma sample_limits: "\<not> bad_limits 1 400" "sint (400 :: i64) = 400" "sint (1 :: i64) = 1"
  by (simp_all add: bad_limits_def)

theorem paging_returns_everything_witness:
  "\<exists>v. Decode sample_line = Inr v \<and> follow 3 sample_env sample_file [] 1 400 = Some [v, v]"
proof (rule sample_stored)
  fix v assume v: "stored_line (sample_line, v)" "bytes_of v \<le> 400"
  have "follow (length [(sample_line, v), (sample_line, v)] + 1) sample_env sample_file [] 1 400 =
      Some (map snd [(sample_line, v), (sample_line, v)])"
    by (rule paging_returns_everything [OF sample_env_ok sample_file_facts(1,2) sample_limits(1)])
      (use v sample_file_facts sample_limits in simp_all)
  then show ?thesis using v(1) by (simp add: stored_line_def numeral_3_eq_3)
qed

theorem page_holds_what_fits_witness:
  "\<exists>v s'. Decode sample_line = Inr v \<and>
    FileSink_Read sample_env sample_file (cursor_of (epoch_after sample_env sample_file) 69) 1 400 =
      (s', Done \<lparr>pg_outcome = PageOutcomePage, pg_records = [v],
                pg_next = cursor_of (epoch_after sample_env sample_file) 138, pg_at_end = True\<rparr>)"
proof (rule sample_stored)
  fix v assume v: "stored_line (sample_line, v)" "bytes_of v \<le> 400"
  have "\<exists>s'. FileSink_Read sample_env sample_file (cursor_of (epoch_after sample_env sample_file) (length (bytes [(sample_line, v)]))) 1 400
    = (s', let n = page_takes (sint (1::i64)) (sint (400::i64)) (map snd [(sample_line, v)]) in
    Done (if n = 0 \<and> [(sample_line, v)] \<noteq> []
      then refusal_page PageOutcomeRecordTooLarge (cursor_of (epoch_after sample_env sample_file) (length (bytes [(sample_line, v)])))
      else \<lparr>pg_outcome = PageOutcomePage, pg_records = map snd (take n [(sample_line, v)]),
             pg_next = cursor_of (epoch_after sample_env sample_file) (length (bytes ([(sample_line, v)] @ take n [(sample_line, v)]))),
             pg_at_end = (n = length [(sample_line, v)])\<rparr>))"
    by (rule page_holds_what_fits [OF sample_env_ok sample_file_facts(1,2) sample_limits(1)])
      (use v sample_file_facts sample_limits in simp_all)
  then show ?thesis using v sample_line_shape(3) sample_limits by (auto simp: stored_line_def)
qed

theorem pages_pass_the_client_witness:
  "\<exists>page. snd (FileSink_Read sample_env sample_file ''nonsense'' 1 400) = Done page
    \<and> validateHistoryPage page ''nonsense'' 1 400 = Done page"
  by (rule pages_pass_the_client) (rule sample_file_facts(4))

subsection \<open>Cursors and later writes\<close>

lemma cursor_still_points:
  assumes "all_well env" "fs_open s" "fs_epoch s \<noteq> []" "colon_free (fs_epoch s)" "at_line (fs_content s) off"
    "length (fs_content s) < 2 ^ 63"
  shows "\<exists>page. snd (FileSink_Read env s (cursor_of (fs_epoch s) off) maxRecords maxBytes) = Done page
    \<and> pg_outcome page \<noteq> PageOutcomeGap \<and> pg_outcome page \<noteq> PageOutcomeUnavailable"
proof -
  let ?cursor = "cursor_of (fs_epoch s) off"
  have o: "off \<le> length (fs_content s)" "off = 0 \<or> fs_content s ! (off - 1) = LF"
    using assms(5) by (simp_all add: at_line_def)
  have c: "cursor_offset (fs_epoch s) ?cursor = Some off"
    by (rule cursor_round_trip) (use o assms(4,6) in \<open>simp_all add: colon_free_def\<close>)
  have d: "PageOutcomeRecordTooLarge \<noteq> PageOutcomeGap" "PageOutcomeCorrupt \<noteq> PageOutcomeGap"
    "PageOutcomeInvalidRequest \<noteq> PageOutcomeGap" "PageOutcomeRecordTooLarge \<noteq> PageOutcomeUnavailable"
    "PageOutcomeCorrupt \<noteq> PageOutcomeUnavailable" "PageOutcomeInvalidRequest \<noteq> PageOutcomeUnavailable"
    by (simp_all add: outcome_defs)
  show ?thesis
  proof (cases "bad_limits maxRecords maxBytes")
    case True
    then show ?thesis using d by (simp add: FileSink_Read_def readHistoryLocked_def refusal_page_def)
  next
    case False
    have "page_inv (fs_content s) (sint maxRecords) (sint maxBytes) off [] off"
      using o False by (simp add: page_inv_def bad_limits_def)
    from read_loop_result [OF this, of 0 "he_line env"] have r: "case read_loop (he_line env) (fs_content s)
        (sint maxRecords) (sint maxBytes) [] 0 off of
        Filled rs off' \<Rightarrow> True | Refused outcome \<Rightarrow> outcome = PageOutcomeRecordTooLarge \<or> outcome = PageOutcomeCorrupt
      | Broken e \<Rightarrow> False" by (simp split: page_end.splits)
    have "readHistoryLocked env s ?cursor maxRecords maxBytes =
      (case read_loop (he_line env) (fs_content s) (sint maxRecords) (sint maxBytes) [] 0 off of
         Broken e \<Rightarrow> (s, Panics e)
       | Refused outcome \<Rightarrow> (s, Done (refusal_page outcome ?cursor))
       | Filled records offset' \<Rightarrow>
           (s, Done \<lparr>pg_outcome = PageOutcomePage, pg_records = records,
             pg_next = cursor_of (fs_epoch s) offset', pg_at_end = (offset' = length (fs_content s))\<rparr>))"
      using assms(1-3) False c o by (auto simp: readHistoryLocked_def Let_def all_well_def)
    then show ?thesis using r d
      by (auto simp: FileSink_Read_def refusal_page_def split: page_end.splits)
  qed
qed

lemma at_line_prefix: "at_line c k \<Longrightarrow> prefix c d \<Longrightarrow> at_line d k"
  by (cases k) (auto simp: at_line_def prefix_def nth_append)

lemma write_grows:
  "\<exists>b. fs_content (fst (FileSink_Write T W r s)) = fs_content s @ b \<and> int (length b) \<le> line_cap (fs_max s)"
proof (cases "file_line T (fs_max s) r")
  case (Inl e)
  then show ?thesis by (simp add: FileSink_Write_def line_cap_def DefaultMaxLine_def)
next
  case (Inr b)
  obtain n err where w: "(if fs_open s then W b else (0, Some ''file already closed'')) = (n, err)" by force
  have "fs_content (fst (FileSink_Write T W r s)) = fs_content s @ take n b"
    using Inr w by (auto simp: FileSink_Write_def Let_def close_channel_def make_channel_def split: option.splits)
  moreover have "int (length (take n b)) \<le> line_cap (fs_max s)" using file_line_Inr(2) [OF Inr] by simp
  ultimately show ?thesis by blast
qed

lemma write_all_frame:
  "fs_open (write_all (file_write T) ops s) = fs_open s \<and> fs_epoch (write_all (file_write T) ops s) = fs_epoch s"
  by (induction ops arbitrary: s) (simp_all add: file_write_def FileSink_Write_frame(1,2))

text \<open>
  A cursor outlives later writes: the continuation of a page the sink gave is never a gap
  afterwards, whatever is appended in between and however much of each line the system took.
\<close>

theorem cursor_outlives_writes:
  assumes "FileSink_Read env s cursor maxRecords maxBytes = (s', Done page)" "pg_outcome page = PageOutcomePage"
    and "channel_ok s" "fs_open s" "colon_free (fs_epoch s)" "he_key env \<noteq> Some []" "all_well env'"
    and "length (fs_content (write_all (file_write T) ops s')) < 2 ^ 63"
  shows "\<exists>next. snd (FileSink_Read env' (write_all (file_write T) ops s') (pg_next page) maxRecords' maxBytes') = Done next
    \<and> pg_outcome next \<noteq> PageOutcomeGap \<and> pg_outcome next \<noteq> PageOutcomeUnavailable"
proof (cases rule: read_cases [of env s cursor maxRecords maxBytes])
  case (refused s1 outcome)
  then show ?thesis using assms(1,2) by (auto simp: FileSink_Read_def refusal_page_def)
next
  case (page s1 offset rs off)
  let ?s2 = "write_all (file_write T) ops s'"
  have s': "s' = s1" "pg_next page = cursor_of (fs_epoch s1) off" using page(1) assms(1) by (auto simp: FileSink_Read_def)
  note f = readHistoryLocked_frame [OF page(1)]
  have ok: "channel_ok s1" using f assms(3) by (auto simp: channel_ok_def)
  have e: "fs_epoch s1 \<noteq> []" "colon_free (fs_epoch s1)"
    using page(8,9) assms(5,6) hex_encode_no_colon by (auto simp: colon_free_def hex_encode_def)
  have p: "prefix (fs_content s1) (fs_content ?s2)"
    unfolding s'(1) by (rule file_log.write_all_appends [OF ok])
  have "at_line (fs_content ?s2) off"
    using at_line_prefix [OF _ p] page(7) f by simp
  then show ?thesis
    unfolding s'(2) using cursor_still_points [OF assms(7), of ?s2 off] write_all_frame [of T ops s'] s'(1) f e assms(4,8)
    by simp
qed

text \<open>The file sink stores the sample document once more before the reader continues.\<close>

theorem cursor_outlives_writes_witness:
  "\<exists>s' page next. FileSink_Read sample_env sample_file [] 1 400 = (s', Done page)
    \<and> snd (FileSink_Read sample_env (write_all (file_write Inr) [(sample_event, \<lambda>b. (length b, None))] s') (pg_next page) 1 400) = Done next
    \<and> pg_outcome next \<noteq> PageOutcomeGap"
proof (rule sample_stored)
  fix v assume v: "stored_line (sample_line, v)" "bytes_of v \<le> 400"
  obtain s' page where p: "FileSink_Read sample_env sample_file [] 1 400 = (s', Done page)" "pg_outcome page = PageOutcomePage"
    using read_stored [of sample_env sample_file 1 400 "[]" "[(sample_line, v), (sample_line, v)]" "[]"]
      sample_env_ok sample_file_facts sample_limits v by auto
  have c: "channel_ok sample_file" by (simp add: sample_file_def channel_ok_open)
  have l: "length (fs_content s') = 138"
    using readHistoryLocked_frame [OF p(1) [unfolded FileSink_Read_def]] sample_file_facts(3) sample_line_shape(3) by simp
  have m: "fs_max s' = fs_max sample_file"
    using readHistoryLocked_frame [OF p(1) [unfolded FileSink_Read_def]] by simp
  let ?s2 = "write_all (file_write Inr) [(sample_event, \<lambda>b. (length b, None))] s'"
  have "line_cap (fs_max s') = 3800"
    by (simp add: m sample_file_def OpenFileSink_def line_cap_def DefaultMaxLine_def)
  then obtain b where "fs_content ?s2 = fs_content s' @ b" "int (length b) \<le> 3800"
    using write_grows [of Inr "\<lambda>b. (length b, None)" sample_event s'] by (auto simp: file_write_def)
  then have "length (fs_content ?s2) < 2 ^ 63" using l by simp
  from cursor_outlives_writes [OF p c sample_file_facts(1,2) _ sample_env_ok this] p
  show ?thesis by (auto simp: sample_env_def)
qed

end
