(* ===== verification/Written_Read.thy ===== *)
theory Written_Read
  imports Json_Line History_Paging
begin

text \<open>
  The two halves of the file sink together: what \<^verbatim>\<open>Write\<close> of \<^verbatim>\<open>go/sink.go\<close> appended
  is what the history of \<^verbatim>\<open>go/file_history.go\<close> returns.
\<close>

subsection \<open>Writing several records\<close>

text \<open>The operating system writes every line whole.\<close>

definition whole :: "string \<Rightarrow> nat \<times> string option" where
  "whole b = (length b, None)"

fun write_each :: "('t \<Rightarrow> wire_error + string) \<Rightarrow> 't log_record list \<Rightarrow> file_sink \<Rightarrow> file_sink \<times> sink_error option list" where
  "write_each T [] s = (s, [])"
| "write_each T (r # rs) s =
     (case FileSink_Write T whole r s of (s1, e) \<Rightarrow>
        (case write_each T rs s1 of (s2, es) \<Rightarrow> (s2, e # es)))"

text \<open>The lines the records become, those that were refused left out.\<close>

fun lines_of :: "('t \<Rightarrow> wire_error + string) \<Rightarrow> i64 \<Rightarrow> 't log_record list \<Rightarrow> ('t log_record \<times> string) list" where
  "lines_of T m [] = []"
| "lines_of T m (r # rs) = (case file_line T m r of Inl e \<Rightarrow> lines_of T m rs | Inr b \<Rightarrow> (r, b) # lines_of T m rs)"

lemma FileSink_Write_whole:
  assumes "channel_ok s" "fs_open s"
  shows "case FileSink_Write T whole r s of (s1, e) \<Rightarrow> channel_ok s1 \<and> fs_open s1 \<and> fs_epoch s1 = fs_epoch s \<and> fs_max s1 = fs_max s
    \<and> (case file_line T (fs_max s) r of Inl x \<Rightarrow> e = Some x \<and> fs_content s1 = fs_content s
       | Inr b \<Rightarrow> e = None \<and> fs_content s1 = fs_content s @ b)"
  using FileSink_Write_ok(1) [OF assms(1), of T whole r] assms
  by (auto simp: FileSink_Write_def whole_def close_channel_def make_channel_def channel_ok_def Let_def
      split: sum.splits option.splits)

lemma write_each_facts:
  assumes "channel_ok s" "fs_open s" "write_each T rs s = (s', errs)"
  shows "channel_ok s' \<and> fs_open s' \<and> fs_epoch s' = fs_epoch s \<and> fs_max s' = fs_max s
    \<and> fs_content s' = fs_content s @ concat (map snd (lines_of T (fs_max s) rs))
    \<and> errs = map (\<lambda>r. case file_line T (fs_max s) r of Inl x \<Rightarrow> Some x | Inr _ \<Rightarrow> None) rs"
  using assms
proof (induction rs arbitrary: s errs)
  case (Cons r rs)
  obtain s1 e where w: "FileSink_Write T whole r s = (s1, e)" by fastforce
  obtain es where r: "write_each T rs s1 = (s', es)" "errs = e # es"
    using Cons.prems(3) w by (auto split: prod.splits)
  note f = FileSink_Write_whole [OF Cons.prems(1,2), of T r, unfolded w prod.case]
  have "channel_ok s1" "fs_open s1" "fs_max s1 = fs_max s" "fs_epoch s1 = fs_epoch s" using f by simp_all
  with Cons.IH [OF _ _ r(1)] f r(2) show ?case by (auto split: sum.splits)
qed simp

subsection \<open>What a line stands for\<close>

text \<open>
  The record as written: the record itself, or, when its line was shortened, a record of the same event
  marked as truncated with a beginning of its message.
\<close>

definition shortened :: "'t log_record \<Rightarrow> 't log_record \<Rightarrow> bool" where
  "shortened r x \<longleftrightarrow> says_truncated x \<and> lr_schema x = lr_schema r \<and> lr_time x = lr_time r \<and> lr_level x = lr_level r
     \<and> prefix (lr_msg x) (lr_msg r)"

definition stamped :: "('t \<Rightarrow> wire_error + string) \<Rightarrow> 't log_record \<Rightarrow> bool" where
  "stamped T r \<longleftrightarrow> (lr_schema r = 0 \<or> lr_schema r = 1) \<and> (case T (lr_time r) of Inl _ \<Rightarrow> True | Inr ts \<Rightarrow> stamp_ok ts)"

definition read_as :: "('t \<Rightarrow> wire_error + string) \<Rightarrow> 't log_record \<times> string \<Rightarrow> wire_record \<Rightarrow> bool" where
  "read_as T p w \<longleftrightarrow> (\<exists>x ts. T (lr_time (fst p)) = Inr ts \<and> w = wire_of ts x
     \<and> (if Encode_record T (fst p) = Inr (snd p) then x = fst p else shortened (fst p) x))"

lemma file_line_record:
  assumes "file_line T m r = Inr b"
  obtains x where "Encode_record T x = Inr b" "lr_schema x = lr_schema r" "lr_time x = lr_time r"
    "if Encode_record T r = Inr b then x = r else shortened r x"
  by (rule file_line_source [OF assms]) (use that in \<open>auto simp: shortened_def split: if_splits\<close>)

lemma line_stored:
  assumes "file_line T m r = Inr b" "stamped T r" "line_cap m \<le> 65536"
  shows "\<exists>w. stored_line (b, w) \<and> read_as T (r, b) w"
proof -
  obtain x where x: "Encode_record T x = Inr b" "lr_schema x = lr_schema r" "lr_time x = lr_time r"
    "if Encode_record T r = Inr b then x = r else shortened r x" by (rule file_line_record [OF assms(1)])
  obtain ts where ts: "T (lr_time r) = Inr ts" "stamp_ok ts" "lr_schema r = 0 \<or> lr_schema r = 1"
    using assms(2) Encode_record_Inr [of T x] x(1,3) by (auto simp: stamped_def split: sum.splits)
  have "Decode b = Inr (wire_of ts x)" using json_line_read [OF x(1), of ts] x(2,3) ts by simp
  moreover have "one_line b" "int (length b) \<le> 65536" using file_line_Inr [OF assms(1)] assms(3) by simp_all
  moreover have "read_as T (r, b) (wire_of ts x)" using ts(1) x(4) unfolding read_as_def fst_conv snd_conv by blast
  ultimately show ?thesis by (auto simp: stored_line_def)
qed

lemma lines_stored:
  assumes "list_all (stamped T) rs" "line_cap m \<le> 65536"
  shows "\<exists>ws. list_all2 (read_as T) (lines_of T m rs) ws
    \<and> list_all stored_line (zip (map snd (lines_of T m rs)) ws)"
  using assms(1)
proof (induction rs)
  case (Cons r rs)
  then obtain ws where ws: "list_all2 (read_as T) (lines_of T m rs) ws"
    "list_all stored_line (zip (map snd (lines_of T m rs)) ws)" by auto
  show ?case
  proof (cases "file_line T m r")
    case (Inr b)
    with line_stored [OF this _ assms(2)] Cons.prems obtain w where "stored_line (b, w)" "read_as T (r, b) w" by auto
    then show ?thesis using ws Inr by (intro exI [of _ "w # ws"]) simp
  qed (use ws in auto)
qed simp

subsection \<open>Written, then read\<close>

text \<open>
  C1: What was written is what the history returns.  Any records of this schema (or of none), whose
  instants are spelled as timestamps where they can be spelled at all, written one after the other to a
  fresh sink are read back by following its pages from the empty cursor: every record that was not
  refused, once, in the order of the writes, each as its line says it, and a refused record leaves
  nothing behind; provided that each of them fits the bytes asked for in a page.
\<close>

theorem written_then_followed:
  assumes w: "write_each T rs (OpenFileSink []) = (s, errs)" and st: "list_all (stamped T) rs"
    and env: "all_well env" "\<not> bad_limits maxRecords maxBytes" "length (fs_content s) < 2 ^ 63"
  shows "\<exists>ws. list_all2 (read_as T) (lines_of T (word_of_int DefaultMaxLine) rs) ws \<and>
    (list_all (\<lambda>v. bytes_of v \<le> sint maxBytes) ws \<longrightarrow>
      follow (length ws + 1) env s [] maxRecords maxBytes = Some ws)"
proof -
  let ?m = "word_of_int DefaultMaxLine :: i64"
  let ?ls = "lines_of T ?m rs"
  have "line_cap ?m \<le> 65536" by code_simp
  from lines_stored [OF st this] obtain ws where ws: "list_all2 (read_as T) ?ls ws"
    "list_all stored_line (zip (map snd ?ls) ws)" by blast
  let ?es = "zip (map snd ?ls) ws"
  have len: "length ?ls = length ws" by (rule list_all2_lengthD [OF ws(1)])
  have e: "map fst ?es = map snd ?ls" "map snd ?es = ws" using len by simp_all
  have "channel_ok (OpenFileSink [])" by (rule channel_ok_open)
  moreover have "fs_open (OpenFileSink [])" "fs_max (OpenFileSink []) = ?m"
    "fs_epoch (OpenFileSink []) = []" "fs_content (OpenFileSink []) = []"
    by (simp_all add: OpenFileSink_def)
  ultimately have s: "fs_open s" "fs_epoch s = []" "fs_content s = concat (map snd ?ls)"
    using write_each_facts [OF _ _ w] by simp_all
  have "fs_content s = bytes ?es" using s(3) e(1) by (simp add: bytes_def)
  moreover have "list_all (\<lambda>e. bytes_of (snd e) \<le> sint maxBytes) ?es \<longleftrightarrow> list_all (\<lambda>v. bytes_of v \<le> sint maxBytes) ws"
    using e(2) by (metis (no_types, lifting) comp_apply list.pred_map list_all_cong)
  ultimately show ?thesis
    using follow_stored [of env s maxRecords maxBytes "[]" ?es "[]" "length ws + 1"] env s(1,2) ws e(2) len
    by (auto simp: colon_free_def)
qed

subsection \<open>Witness\<close>

text \<open>A record that fits its line, and one with no instant, which is refused: following gives the first.\<close>

definition sample_clock :: "string \<Rightarrow> wire_error + string" where
  "sample_clock t = (if t = [] then Inl (Refusal ''bad_timestamp'' 0) else Inr t)"

definition plain_event :: "string log_record" where
  "plain_event = \<lparr>lr_schema = 0, lr_time = ''2026-05-01T10:00:00.5Z'', lr_level = 4, lr_msg = ''started'', lr_identity = [],
     lr_job = [], lr_attrs = [(''b'', ''2''), (''a'', ''1'')]\<rparr>"

lemma plain_event_line:
  obtains b where "file_line sample_clock (word_of_int DefaultMaxLine) plain_event = Inr b"
    "Encode_record sample_clock plain_event = Inr b"
proof -
  have "case file_line sample_clock (word_of_int DefaultMaxLine) plain_event of
      Inl e \<Rightarrow> False | Inr b \<Rightarrow> Encode_record sample_clock plain_event = Inr b" by code_simp
  then show ?thesis using that by (auto split: sum.splits)
qed

theorem written_then_followed_witness:
  "\<exists>s errs. write_each sample_clock [plain_event, plain_event\<lparr>lr_time := []\<rparr>] (OpenFileSink []) = (s, errs)
    \<and> length errs = 2
    \<and> follow 2 sample_env s [] 2 65536 = Some [wire_of ''2026-05-01T10:00:00.5Z'' plain_event]"
proof -
  let ?rs = "[plain_event, plain_event\<lparr>lr_time := []\<rparr>]" and ?m = "word_of_int DefaultMaxLine :: i64"
  let ?v = "wire_of ''2026-05-01T10:00:00.5Z'' plain_event"
  obtain s errs where w: "write_each sample_clock ?rs (OpenFileSink []) = (s, errs)" by fastforce
  obtain b where b: "file_line sample_clock ?m plain_event = Inr b" "Encode_record sample_clock plain_event = Inr b"
    by (rule plain_event_line)
  have no: "Encode_record sample_clock (plain_event\<lparr>lr_time := []\<rparr>) = Inl (Refusal ''bad_timestamp'' 0)"
    by (simp add: Encode_record_def Let_def sample_clock_def)
  have refused: "\<exists>e. file_line sample_clock ?m (plain_event\<lparr>lr_time := []\<rparr>) = Inl e"
    using no by (simp add: file_line_def)
  then have l: "lines_of sample_clock ?m ?rs = [(plain_event, b)]" using b(1) by auto
  have "channel_ok (OpenFileSink [])" by (rule channel_ok_open)
  moreover have o: "fs_open (OpenFileSink [])" "fs_max (OpenFileSink []) = ?m"
    "fs_content (OpenFileSink []) = []" by (simp_all add: OpenFileSink_def)
  ultimately have f: "fs_content s = b" "length errs = 2" using write_each_facts [OF _ _ w] l by simp_all
  have "line_cap ?m = 3800" by code_simp
  then have "length (fs_content s) < 2 ^ 63" using file_line_Inr(2) [OF b(1)] f(1) by simp
  moreover have "stamp_ok ''2026-05-01T10:00:00.5Z''" by code_simp
  then have "list_all (stamped sample_clock) ?rs" by (simp add: stamped_def sample_clock_def plain_event_def)
  moreover have "all_well sample_env" by (simp add: all_well_def sample_env_def)
  moreover have "\<not> bad_limits 2 65536" by code_simp
  ultimately obtain ws where ws: "list_all2 (read_as sample_clock) [(plain_event, b)] ws"
    "list_all (\<lambda>v. bytes_of v \<le> sint (65536 :: i64)) ws \<longrightarrow> follow (length ws + 1) sample_env s [] 2 65536 = Some ws"
    using written_then_followed [OF w, of sample_env 2 65536] l by auto
  have "ws = [?v]"
    using ws(1) b(2) by (auto simp: list_all2_Cons1 read_as_def sample_clock_def plain_event_def)
  moreover have "bytes_of ?v \<le> 65536" by code_simp
  ultimately have "follow 2 sample_env s [] 2 65536 = Some [?v]" using ws(2) by (simp add: numeral_2_eq_2)
  then show ?thesis using w f(2) by blast
qed

end
