(* ===== verification/History_Observe.thy ===== *)
theory History_Observe
  imports History
begin

text \<open>
  \<^verbatim>\<open>FileSink.ObserveContext\<close> of \<^verbatim>\<open>go/history.go\<close> among the writers, the closer and other
  observers of one sink.  An observation is a sequence of critical sections: the first read,
  which answers or parks the call on the sink's channel; waking, timing out or being cancelled;
  the second read; giving its place back.
\<close>

subsection \<open>One observation\<close>

definition MaxHistoryWaiters :: int where "MaxHistoryWaiters = 32"

datatype first_look = Answer "wire_page call" | Park nat

definition observe_begin ::
  "history_env \<Rightarrow> wire_error option \<Rightarrow> file_sink \<Rightarrow> string \<Rightarrow> i64 \<Rightarrow> i64 \<Rightarrow> i64 \<Rightarrow> file_sink \<times> first_look" where
  "observe_begin env ctx s cursor maxRecords maxBytes waitMS =
     (case ctx of
        Some e \<Rightarrow> (s, Answer (Fails e))
      | None \<Rightarrow>
          if sint waitMS < 0 \<or> sint waitMS > 30000
          then (s, Answer (Done (refusal_page PageOutcomeInvalidRequest cursor)))
          else
            let s1 = (if fs_changed s = None then make_channel s else s);
                (s2, ans) = readHistoryLocked env s1 cursor maxRecords maxBytes
            in case ans of
                 Done page \<Rightarrow>
                   (if pg_outcome page \<noteq> PageOutcomePage \<or> pg_records page \<noteq> [] \<or> \<not> pg_at_end page \<or> waitMS = 0
                    then (s2, Answer ans)
                    else if fs_waiters s2 \<ge> MaxHistoryWaiters
                    then (s2, Answer (Done (refusal_page PageOutcomeUnavailable cursor)))
                    else (s2\<lparr>fs_waiters := fs_waiters s2 + 1\<rparr>, Park (the (fs_changed s1))))
               | _ \<Rightarrow> (s2, Answer ans))"

text \<open>After the wait, unless the context is done: the second read.\<close>

definition observe_again ::
  "history_env \<Rightarrow> wire_error option \<Rightarrow> file_sink \<Rightarrow> string \<Rightarrow> i64 \<Rightarrow> i64 \<Rightarrow> file_sink \<times> wire_page call" where
  "observe_again env ctx s cursor maxRecords maxBytes =
     (case ctx of
        Some e \<Rightarrow> (s, Fails e)
      | None \<Rightarrow> FileSink_Read env s cursor maxRecords maxBytes)"

definition observe_release :: "file_sink \<Rightarrow> file_sink" where
  "observe_release s = s\<lparr>fs_waiters := fs_waiters s - 1\<rparr>"

subsection \<open>Many observations\<close>

text \<open>
  Where a call is.  The length of the file when the call parked is kept beside its channel; the
  code does not keep it, the invariant speaks of it.
\<close>

datatype watcher =
    Parked nat nat string i64 i64
  | Looking string i64 i64
  | Leaving "wire_page call"
  | Left "wire_page call"

datatype 't watch_event =
    Observe history_env "wire_error option" string i64 i64 i64
  | Woken nat
  | Timed_out nat
  | Abort nat wire_error
  | Look_again nat history_env "wire_error option"
  | Release nat
  | Writes "'t log_record" "string \<Rightarrow> nat \<times> string option"
  | Reads history_env string i64 i64
  | Closes "string option"

fun watch :: "('t \<Rightarrow> wire_error + string) \<Rightarrow> 't watch_event \<Rightarrow> file_sink \<times> watcher list
    \<Rightarrow> (file_sink \<times> watcher list) option" where
  "watch T (Observe env ctx cursor maxRecords maxBytes waitMS) (s, calls) =
     (case observe_begin env ctx s cursor maxRecords maxBytes waitMS of
        (s', Answer ans) \<Rightarrow> Some (s', calls @ [Left ans])
      | (s', Park c) \<Rightarrow> Some (s', calls @ [Parked c (length (fs_content s)) cursor maxRecords maxBytes]))"
| "watch T (Woken i) (s, calls) =
     (if i < length calls then
        (case calls ! i of
           Parked c n cursor maxRecords maxBytes \<Rightarrow>
             (if c \<in> set (fs_woken s) then Some (s, calls[i := Looking cursor maxRecords maxBytes]) else None)
         | _ \<Rightarrow> None)
      else None)"
| "watch T (Timed_out i) (s, calls) =
     (if i < length calls then
        (case calls ! i of
           Parked c n cursor maxRecords maxBytes \<Rightarrow> Some (s, calls[i := Looking cursor maxRecords maxBytes])
         | _ \<Rightarrow> None)
      else None)"
| "watch T (Abort i e) (s, calls) =
     (if i < length calls then
        (case calls ! i of
           Parked c n cursor maxRecords maxBytes \<Rightarrow> Some (s, calls[i := Leaving (Fails e)])
         | _ \<Rightarrow> None)
      else None)"
| "watch T (Look_again i env ctx) (s, calls) =
     (if i < length calls then
        (case calls ! i of
           Looking cursor maxRecords maxBytes \<Rightarrow>
             (case observe_again env ctx s cursor maxRecords maxBytes of
                (s', ans) \<Rightarrow> Some (s', calls[i := Leaving ans]))
         | _ \<Rightarrow> None)
      else None)"
| "watch T (Release i) (s, calls) =
     (if i < length calls then
        (case calls ! i of
           Leaving ans \<Rightarrow> Some (observe_release s, calls[i := Left ans])
         | _ \<Rightarrow> None)
      else None)"
| "watch T (Writes r W) (s, calls) = Some (fst (FileSink_Write T W r s), calls)"
| "watch T (Reads env cursor maxRecords maxBytes) (s, calls) = Some (fst (FileSink_Read env s cursor maxRecords maxBytes), calls)"
| "watch T (Closes err) (s, calls) = Some (fst (FileSink_Close err s), calls)"

inductive watching :: "('t \<Rightarrow> wire_error + string) \<Rightarrow> string \<Rightarrow> file_sink \<times> watcher list \<Rightarrow> bool" for T content where
  opened: "watching T content (OpenFileSink content, [])"
| event: "watching T content w \<Longrightarrow> watch T e w = Some w' \<Longrightarrow> watching T content w'"

subsection \<open>No lost wake-up\<close>

definition counted :: "watcher \<Rightarrow> bool" where
  "counted x \<longleftrightarrow> (case x of Left _ \<Rightarrow> False | _ \<Rightarrow> True)"

definition parked_ok :: "file_sink \<Rightarrow> watcher \<Rightarrow> bool" where
  "parked_ok s x \<longleftrightarrow>
     (case x of
        Parked c n _ _ _ \<Rightarrow> c \<in> set (fs_woken s) \<or> (fs_changed s = Some c \<and> fs_open s \<and> n = length (fs_content s))
      | _ \<Rightarrow> True)"

definition watched_ok :: "file_sink \<times> watcher list \<Rightarrow> bool" where
  "watched_ok w \<longleftrightarrow>
     channel_ok (fst w) \<and> fs_waiters (fst w) = int (length (filter counted (snd w)))
     \<and> fs_waiters (fst w) \<le> MaxHistoryWaiters \<and> list_all (parked_ok (fst w)) (snd w)"

lemma page_at_end:
  assumes "readHistoryLocked env s cursor maxRecords maxBytes = (s', Done page)" "pg_outcome page = PageOutcomePage"
  shows "fs_open s"
proof (rule ccontr)
  assume "\<not> fs_open s"
  then have "\<not> fs_open (if fs_epoch s = [] then s\<lparr>fs_epoch := hex_encode (the (he_key env))\<rparr> else s)" by simp
  then show False using assms
    by (auto simp: readHistoryLocked_def Let_def refusal_page_def split: if_splits option.splits)
qed

lemma channel_ok_frame:
  "fs_changed s' = fs_changed s \<Longrightarrow> fs_woken s' = fs_woken s \<Longrightarrow> fs_next s' = fs_next s \<Longrightarrow> fs_open s' = fs_open s \<Longrightarrow>
    fs_historyClosed s' = fs_historyClosed s \<Longrightarrow> channel_ok s' \<longleftrightarrow> channel_ok s"
  by (simp add: channel_ok_def)

lemma channel_ok_make: "channel_ok s \<Longrightarrow> channel_ok (make_channel s)"
  by (auto simp: channel_ok_def make_channel_def)

lemma observe_begin_result:
  assumes "observe_begin env ctx s cursor maxRecords maxBytes waitMS = (s', x)" "channel_ok s"
  shows "channel_ok s' \<and> fs_content s' = fs_content s \<and> fs_woken s' = fs_woken s \<and> fs_open s' = fs_open s
    \<and> (\<forall>c. fs_changed s = Some c \<longrightarrow> fs_changed s' = Some c)
    \<and> (case x of Answer _ \<Rightarrow> fs_waiters s' = fs_waiters s
       | Park c \<Rightarrow> fs_waiters s' = fs_waiters s + 1 \<and> fs_waiters s < MaxHistoryWaiters \<and> fs_changed s' = Some c \<and> fs_open s')"
proof -
  let ?s1 = "if fs_changed s = None then make_channel s else s"
  obtain s2 reply where r: "readHistoryLocked env ?s1 cursor maxRecords maxBytes = (s2, reply)" by force
  have f: "channel_ok ?s1" "fs_content ?s1 = fs_content s" "fs_woken ?s1 = fs_woken s" "fs_open ?s1 = fs_open s"
    "fs_waiters ?s1 = fs_waiters s" "fs_changed s = Some c \<Longrightarrow> fs_changed ?s1 = Some c" "\<exists>c. fs_changed ?s1 = Some c" for c
    using channel_ok_make assms(2) by (simp_all add: make_channel_def)
  note g = readHistoryLocked_frame [OF r]
  have "channel_ok s2" using g channel_ok_frame [of s2 ?s1] f(1) by simp
  moreover have "fs_open s" if "reply = Done page" "pg_outcome page = PageOutcomePage" for page
    using page_at_end [of env ?s1 cursor maxRecords maxBytes s2 page] r that f(4) by simp
  ultimately show ?thesis
    using assms r f g
    by (auto simp: observe_begin_def Let_def channel_ok_def split: option.splits if_splits call.splits)
qed

lemma parked_ok_frame:
  assumes "list_all (parked_ok s) calls" "fs_changed s' = fs_changed s" "fs_woken s' = fs_woken s" "fs_open s' = fs_open s"
    "fs_content s' = fs_content s"
  shows "list_all (parked_ok s') calls"
proof -
  have "parked_ok s' = parked_ok s" by (rule ext) (simp add: parked_ok_def assms(2-5) split: watcher.split)
  then show ?thesis using assms(1) by simp
qed

lemma filter_update:
  "i < length xs \<Longrightarrow> int (length (filter p (xs[i := y]))) =
    int (length (filter p xs)) - (if p (xs ! i) then 1 else 0) + (if p y then 1 else 0)"
proof (induction xs arbitrary: i)
  case (Cons x xs)
  show ?case
  proof (cases i)
    case (Suc j)
    then show ?thesis using Cons.IH [of j] Cons.prems
      by (cases "p (xs ! j)"; cases "p y") simp_all
  qed simp
qed simp

text \<open>A call that moves from one waiting place to another.\<close>

lemma watched_move:
  assumes "watched_ok (s, calls)" "i < length calls" "counted (calls ! i)" "counted y" "parked_ok s y"
  shows "watched_ok (s, calls[i := y])"
  using assms by (simp add: watched_ok_def filter_update list_all_update)

lemma watched_ok_opened: "watched_ok (OpenFileSink content, [])"
  using channel_ok_open by (simp add: watched_ok_def OpenFileSink_def MaxHistoryWaiters_def)

lemma watched_ok_watch:
  assumes "watched_ok w" "watch T e w = Some w'"
  shows "watched_ok w'"
proof -
  obtain s calls where w: "w = (s, calls)" by force
  note ok = assms(1)[unfolded w]
  have place: "counted (Looking a b d)" "counted (Leaving v)" "parked_ok s (Looking a b d)" "parked_ok s (Leaving v)"
    "counted (Parked c n a b d)" for a b d v c n
    by (simp_all add: counted_def parked_ok_def)
  have at: "counted (calls ! i)" if "calls ! i = Parked c n a b d \<or> calls ! i = Looking a b d" for i c n a b d
    using that by (auto simp: counted_def)
  show ?thesis
  proof (cases e)
    case (Observe env ctx cursor maxRecords maxBytes waitMS)
    obtain s' x where x: "observe_begin env ctx s cursor maxRecords maxBytes waitMS = (s', x)" by force
    have r: "channel_ok s'" "fs_content s' = fs_content s" "fs_woken s' = fs_woken s" "fs_open s' = fs_open s"
      "\<forall>c. fs_changed s = Some c \<longrightarrow> fs_changed s' = Some c"
      "case x of Answer _ \<Rightarrow> fs_waiters s' = fs_waiters s
       | Park c \<Rightarrow> fs_waiters s' = fs_waiters s + 1 \<and> fs_waiters s < MaxHistoryWaiters \<and> fs_changed s' = Some c \<and> fs_open s'"
      using observe_begin_result [OF x] ok by (simp_all add: watched_ok_def)
    have p: "list_all (parked_ok s') calls"
      using ok r(2-5) by (auto simp: watched_ok_def list_all_iff parked_ok_def split: watcher.splits)
    show ?thesis
    proof (cases x)
      case (Answer reply)
      then show ?thesis using assms(2) Observe x r(1,6) p ok
        by (auto simp: w watched_ok_def counted_def parked_ok_def)
    next
      case (Park c)
      then show ?thesis using assms(2) Observe x r p ok
        by (auto simp: w watched_ok_def counted_def parked_ok_def)
    qed
  next
    case (Woken i)
    then show ?thesis using assms(2) ok watched_move [of s calls i] place at
      by (auto simp: w split: if_splits watcher.splits)
  next
    case (Timed_out i)
    then show ?thesis using assms(2) ok watched_move [of s calls i] place at
      by (auto simp: w split: if_splits watcher.splits)
  next
    case (Abort i err)
    then show ?thesis using assms(2) ok watched_move [of s calls i] place at
      by (auto simp: w split: if_splits watcher.splits)
  next
    case (Look_again i env ctx)
    then obtain a b d where i: "i < length calls" "calls ! i = Looking a b d"
      using assms(2) by (auto simp: w split: if_splits watcher.splits)
    obtain s' v where v: "observe_again env ctx s a b d = (s', v)" by force
    have f: "fs_content s' = fs_content s" "fs_changed s' = fs_changed s" "fs_woken s' = fs_woken s" "fs_next s' = fs_next s"
      "fs_waiters s' = fs_waiters s" "fs_open s' = fs_open s" "fs_historyClosed s' = fs_historyClosed s"
      using v readHistoryLocked_frame [of env s a b d s' v] by (auto simp: observe_again_def FileSink_Read_def split: option.splits)
    have "watched_ok (s', calls)"
      using ok f channel_ok_frame [of s' s] parked_ok_frame [of s calls s'] by (simp add: watched_ok_def)
    then have "watched_ok (s', calls[i := Leaving v])"
      using watched_move [of s' calls i "Leaving v"] i at place by (simp add: parked_ok_def)
    then show ?thesis using assms(2) Look_again i v by (auto simp: w)
  next
    case (Release i)
    then obtain v where i: "i < length calls" "calls ! i = Leaving v"
      using assms(2) by (auto simp: w split: if_splits watcher.splits)
    have "watched_ok (observe_release s, calls[i := Left v])"
      using ok i parked_ok_frame [of s calls "observe_release s"] channel_ok_frame [of "observe_release s" s]
      by (simp add: watched_ok_def filter_update counted_def observe_release_def)
        (simp add: list_all_update parked_ok_def)
    then show ?thesis using assms(2) Release i by (auto simp: w)
  next
    case (Writes r W)
    let ?s = "fst (FileSink_Write T W r s)"
    have c: "channel_ok s" using ok by (simp add: watched_ok_def)
    have "parked_ok ?s x" if "parked_ok s x" for x
      using that FileSink_Write_wakes [where T = T and W = W and r = r, OF c] FileSink_Write_frame [where T = T and W = W and r = r and s = s]
      by (fastforce simp: parked_ok_def split: watcher.splits)
    then have "list_all (parked_ok ?s) calls" using ok by (auto simp: watched_ok_def list_all_iff)
    then show ?thesis using assms(2) Writes ok FileSink_Write_ok(1) [OF c] FileSink_Write_frame [where T = T and W = W and r = r and s = s]
      by (auto simp: w watched_ok_def)
  next
    case (Reads env cursor maxRecords maxBytes)
    obtain s' v where v: "FileSink_Read env s cursor maxRecords maxBytes = (s', v)" by force
    note f = readHistoryLocked_frame [OF v [unfolded FileSink_Read_def]]
    have "watched_ok (s', calls)"
      using ok f channel_ok_frame [of s' s] parked_ok_frame [of s calls s'] by (simp add: watched_ok_def)
    then show ?thesis using assms(2) Reads v by (auto simp: w)
  next
    case (Closes err)
    let ?s = "fst (FileSink_Close err s)"
    have c: "channel_ok s" using ok by (simp add: watched_ok_def)
    have "parked_ok ?s x" if "parked_ok s x" for x
      using that FileSink_Close_ok [OF c, of err] by (auto simp: parked_ok_def split: watcher.splits)
    then have "list_all (parked_ok ?s) calls" using ok by (auto simp: watched_ok_def list_all_iff)
    then show ?thesis using assms(2) Closes ok FileSink_Close_ok [OF c, of err] by (auto simp: w watched_ok_def)
  qed
qed

lemma watching_ok: "watching T content w \<Longrightarrow> watched_ok w"
  by (induction rule: watching.induct) (auto intro: watched_ok_opened watched_ok_watch)

subsection \<open>Properties of observation\<close>

text \<open>
  C32: No wake-up is lost: whatever writers, readers, closers and other observers do, a call that
  waits is woken as soon as the file is longer than when it read, or closed.
\<close>

theorem no_lost_wakeup:
  assumes "watching T content (s, calls)" "i < length calls" "calls ! i = Parked c n cursor maxRecords maxBytes"
    and "length (fs_content s) \<noteq> n \<or> \<not> fs_open s"
  shows "watch T (Woken i) (s, calls) = Some (s, calls[i := Looking cursor maxRecords maxBytes])"
proof -
  have "parked_ok s (calls ! i)"
    using watching_ok [OF assms(1)] assms(2) by (simp add: watched_ok_def list_all_length)
  then show ?thesis using assms(2-4) by (auto simp: parked_ok_def)
qed

text \<open>
  The waiters are counted exactly and never more than 32 wait: the count is the number of
  calls that have parked and not yet given their place back.
\<close>

theorem waiters_are_bounded:
  assumes "watching T content (s, calls)"
  shows "fs_waiters s = int (length (filter counted calls)) \<and> fs_waiters s \<le> 32"
  using watching_ok [OF assms] by (simp add: watched_ok_def MaxHistoryWaiters_def)

text \<open>
  No channel is ever closed twice: neither a write nor a close panics, whatever happened to
  the sink before.
\<close>

theorem no_double_close:
  assumes "watching T content (s, calls)"
  shows "snd (FileSink_Write T W r s) \<noteq> Some (RuntimePanic x) \<and> snd (FileSink_Close err s) \<noteq> Some (RuntimePanic x)"
proof -
  have c: "channel_ok s" using watching_ok [OF assms] by (simp add: watched_ok_def)
  then show ?thesis using FileSink_Write_ok(2) [OF c] FileSink_Close_ok [OF c] by blast
qed

subsection \<open>Witnesses\<close>

definition quiet_env :: history_env where
  "quiet_env = \<lparr>he_key = Some ''0123456789abcdef'', he_stat = True, he_open = True, he_info = True, he_same = True,
     he_byte = True, he_line = (\<lambda>_. True)\<rparr>"

text \<open>A file with nothing in it, one observer parked.\<close>

lemma parked_observer:
  obtains s cursor where "watching Inr [] (s, [Parked 0 0 [] 10 400])" "fs_open s" "fs_content s = []" "fs_waiters s = 1"
    "fs_changed s = Some 0" "fs_woken s = []" "fs_historyClosed s = False"
proof -
  let ?s = "make_channel (OpenFileSink [])"
  have l: "\<not> bad_limits 10 400" by (simp add: bad_limits_def)
  have r: "readHistoryLocked quiet_env ?s [] 10 400 = (?s\<lparr>fs_epoch := hex_encode ''0123456789abcdef''\<rparr>,
      Done \<lparr>pg_outcome = PageOutcomePage, pg_records = [], pg_next = cursor_of (hex_encode ''0123456789abcdef'') 0, pg_at_end = True\<rparr>)"
    using l by (simp add: readHistoryLocked_def Let_def make_channel_def OpenFileSink_def quiet_env_def cursor_offset_def
        read_loop.simps)
  then obtain s where o: "observe_begin quiet_env None (OpenFileSink []) [] 10 400 1000 = (s, Park 0)"
    and f: "fs_open s" "fs_content s = []" "fs_waiters s = 1" "fs_changed s = Some 0" "fs_woken s = []" "\<not> fs_historyClosed s"
    by (simp add: observe_begin_def Let_def OpenFileSink_def make_channel_def MaxHistoryWaiters_def)
  have "watch Inr (Observe quiet_env None [] 10 400 1000) (OpenFileSink [], []) = Some (s, [Parked 0 0 [] 10 400])"
    using o by (simp add: OpenFileSink_def)
  from watching.event [OF watching.opened this] show ?thesis using that [of s] f by simp
qed

theorem no_lost_wakeup_witness:
  "\<exists>s. watching Inr [] (s :: file_sink, [Parked 0 0 [] 10 400]) \<and> \<not> fs_open s
    \<and> watch Inr (Woken 0) (s, [Parked 0 0 [] 10 400]) = Some (s, [Looking [] 10 400])"
proof (rule parked_observer)
  fix s assume w: "watching Inr [] (s, [Parked 0 0 [] 10 400])" "fs_open s"
  let ?s = "fst (FileSink_Close None s)"
  have "watch Inr (Closes None) (s, [Parked 0 0 [] 10 400]) = Some (?s, [Parked 0 0 [] 10 400])" by simp
  from watching.event [OF w(1) this] have r: "watching Inr [] (?s, [Parked 0 0 [] 10 400])" .
  have "channel_ok s" using watching_ok [OF w(1)] by (simp add: watched_ok_def)
  then have n: "\<not> fs_open ?s" using FileSink_Close_ok by blast
  have "watch Inr (Woken 0) (?s, [Parked 0 0 [] 10 400]) = Some (?s, [Parked 0 0 [] 10 400] [0 := Looking [] 10 400])"
    by (rule no_lost_wakeup [OF r, where c = 0 and n = 0]) (use n in simp_all)
  then show ?thesis using r n by (intro exI [of _ ?s]) (simp only: list_update.simps nat.case simp_thms)
qed

theorem waiters_are_bounded_witness:
  "\<exists>s. watching Inr [] (s :: file_sink, [Parked 0 0 [] 10 400]) \<and> fs_waiters s = 1 \<and> fs_waiters s \<le> 32"
  by (rule parked_observer) (use waiters_are_bounded in blast)

theorem no_double_close_witness:
  "\<exists>s. watching Inr [] (s :: file_sink, [Parked 0 0 [] 10 400]) \<and>
    snd (FileSink_Close None s) \<noteq> Some (RuntimePanic ''close of closed channel'')"
  by (rule parked_observer) (use no_double_close in blast)

end
