(* ===== verification/Service_File.thy ===== *)
theory Service_File
  imports Service History_Observe History_Paging
begin

text \<open>
  The logging service over a file sink, from the application's client to the file and back: the
  provider \<^verbatim>\<open>go/service/serve.go\<close> chooses, the frames carried between client and
  service, and what the client gets.
\<close>

subsection \<open>The file sink as the provider\<close>

text \<open>
  An observation during which nothing else happens to the sink: the first read, and, when it
  parks, the second one after the timer.
\<close>

definition FileSink_ObserveContext ::
  "history_env \<Rightarrow> wire_error option \<Rightarrow> wire_error option \<Rightarrow> file_sink \<Rightarrow> string \<Rightarrow> i64 \<Rightarrow> i64 \<Rightarrow> i64
    \<Rightarrow> file_sink \<times> wire_page call" where
  "FileSink_ObserveContext env ctx later s cursor maxRecords maxBytes waitMS =
     (case observe_begin env ctx s cursor maxRecords maxBytes waitMS of
        (s', Answer x) \<Rightarrow> (s', x)
      | (s', Park c) \<Rightarrow>
          (case observe_again env later s' cursor maxRecords maxBytes of (s'', x) \<Rightarrow> (observe_release s'', x)))"

definition file_provider ::
  "('t \<Rightarrow> wire_error + string) \<Rightarrow> (string \<Rightarrow> nat \<times> string option) \<Rightarrow> history_env \<Rightarrow> wire_error option \<Rightarrow> wire_error option
    \<Rightarrow> ('t, nat \<times> file_sink) provider" where
  "file_provider T W env ctx later =
     \<lparr>out_write = (\<lambda>r (k, s). case FileSink_Write T W r s of (s', err) \<Rightarrow> ((k, s'), err)),
      out_read = Some (\<lambda>(k, s) c n b. case FileSink_Read env s c n b of (s', x) \<Rightarrow> ((k, s'), x)),
      out_observe = Some (\<lambda>(k, s) c n b w.
        case FileSink_ObserveContext env ctx later s c n b w of (s', x) \<Rightarrow> ((k, s'), x))\<rparr>"

text \<open>
  A transport that carries a frame of any length to the service and its reply back, in any time; the
  bounds of \<^verbatim>\<open>ReceiveFramed\<close> and of the client's transport are not in it.
\<close>

definition carried ::
  "(nat \<times> 'w \<Rightarrow> string \<Rightarrow> (nat \<times> 'w) \<times> served) \<Rightarrow> nat \<times> 'w \<Rightarrow> string \<Rightarrow> (nat \<times> 'w) \<times> string call" where
  "carried serve st request =
     (case serve st request of
        (st', Served (Some reply) _) \<Rightarrow> (st', Done reply)
      | (st', Served None _) \<Rightarrow> (st', Fails (HandlerError ''connection closed''))
      | (st', Crashed e) \<Rightarrow> (st', Fails (HandlerError ''connection closed'')))"

subsection \<open>Client, frames and service together\<close>

lemma read_exchanged:
  assumes "validUTF8 c" "clean_result (receiver_Read r out st c n b)"
  shows "HistoryReaderClient_Read (carried (serve_frame T H U os reply_to r out)) st c n b
    = HistoryReaderClient_Read (HistoryReaderDispatcher_ExchangeFrame (receiver_Read r out)) st c n b"
proof -
  let ?h = "receiver_Read r out"
  let ?a = "\<lparr>ra_cursor = c, ra_max_records = n, ra_max_bytes = b\<rparr>"
  let ?v = "\<lparr>sf_version = 1, sf_service = reader_service, sf_method = ''Read'', sf_arguments = read_args_text 1 ?a\<rparr>"
  let ?request = "encOAServiceFrame [] ?v 0"
  have v: "servicePayload ?request = Inr ?v"
    using servicePayload_text [of ?v 1] skips_read_args [of ?a 1] assms by simp
  obtain st' x where x: "invoked_result (?h st c n b) = (st', x)" by fastforce
  obtain reply where f: "serviceReply ?v x = Inr reply"
    using invoked [OF assms(2) _ _ refl, of ?v] x by auto
  have e: "HistoryReaderDispatcher_ExchangeFrame ?h st ?request = (st', Done reply)"
    using v f x read_arguments_back [OF assms(1)]
    by (simp add: HistoryReaderDispatcher_ExchangeFrame_def invokeRead_result answer_def)
  have "ServiceName ?request = Inr reader_service" using v by (simp add: ServiceName_def)
  then have "carried (serve_frame T H U os reply_to r out) st ?request = (st', Done reply)"
    using e by (simp add: carried_def serve_frame_def exchanged_def)
  then show ?thesis
    using e v by (simp add: HistoryReaderClient_Read_def Let_def encOAHistoryReaderReadArguments_text)
qed

lemma observe_exchanged:
  assumes "validUTF8 c" "clean_result (receiver_Observe r out st c n b w)"
  shows "HistoryObserverClient_Observe (carried (serve_frame T H U os reply_to r out)) st c n b w
    = HistoryObserverClient_Observe (HistoryObserverDispatcher_ExchangeFrame (receiver_Observe r out)) st c n b w"
proof -
  let ?h = "receiver_Observe r out"
  let ?a = "\<lparr>oa_cursor = c, oa_max_records = n, oa_max_bytes = b, oa_wait_ms = w\<rparr>"
  let ?v = "\<lparr>sf_version = 1, sf_service = observer_service, sf_method = ''Observe'', sf_arguments = observe_args_text 1 ?a\<rparr>"
  let ?request = "encOAServiceFrame [] ?v 0"
  have v: "servicePayload ?request = Inr ?v"
    using servicePayload_text [of ?v 1] skips_observe_args [of ?a 1] assms by simp
  obtain st' x where x: "invoked_result (?h st c n b w) = (st', x)" by fastforce
  obtain reply where f: "serviceReply ?v x = Inr reply"
    using invoked [OF assms(2) _ _ refl, of ?v] x by auto
  have e: "HistoryObserverDispatcher_ExchangeFrame ?h st ?request = (st', Done reply)"
    using v f x observe_arguments_back [OF assms(1)]
    by (simp add: HistoryObserverDispatcher_ExchangeFrame_def invokeObserve_result answer_def)
  have "ServiceName ?request = Inr observer_service" using v by (simp add: ServiceName_def)
  then have "carried (serve_frame T H U os reply_to r out) st ?request = (st', Done reply)"
    using e by (simp add: carried_def serve_frame_def exchanged_def)
  then show ?thesis
    using e v by (simp add: HistoryObserverClient_Observe_def Let_def encOAHistoryObserverObserveArguments_text)
qed

text \<open>Every answer of a read or an observation, clean and acceptable to the client.\<close>

definition fit_to_send :: "string \<Rightarrow> i64 \<Rightarrow> i64 \<Rightarrow> wire_page \<Rightarrow> bool" where
  "fit_to_send c n b p \<longleftrightarrow> utf8_page p \<and> writable_page p \<and> validateHistoryPage p c n b = Done p"

lemma FileSink_Read_fits:
  assumes "validUTF8 c" "ascii (fs_epoch s)" "length (fs_content s) < 2 ^ 63"
  obtains s' p where "FileSink_Read env s c n b = (s', Done p)" "fit_to_send c n b p" "ascii (fs_epoch s')"
    "fs_content s' = fs_content s"
proof -
  obtain s' x where x: "FileSink_Read env s c n b = (s', x)" by fastforce
  obtain p where p: "x = Done p" "validateHistoryPage p c n b = Done p"
    using client_accepts_page [OF refl assms(3) x] by blast
  then show thesis
    using that [of s' p] FileSink_Read_clean [OF _ assms(1,2), of env n b s' p] x
      readHistoryLocked_frame [of env s c n b s' x]
    by (simp add: fit_to_send_def FileSink_Read_def)
qed

lemma refusal_fits: "read_refusal outcome \<Longrightarrow> validUTF8 c \<Longrightarrow> fit_to_send c n b (refusal_page outcome c)"
  using read_refusal_name [of outcome] outcome_names [of outcome]
  by (auto simp: fit_to_send_def utf8_page_def writable_page_def page_outcome_names refusal_page_def
      ascii_valid validateHistoryPage_def)

lemma FileSink_ObserveContext_fits:
  assumes "validUTF8 c" "ascii (fs_epoch s)" "length (fs_content s) < 2 ^ 63"
  obtains s' p where "FileSink_ObserveContext env None None s c n b w = (s', Done p)" "fit_to_send c n b p"
proof (cases "sint w < 0 \<or> sint w > 30000")
  case True
  then show thesis
    using that [of s "refusal_page PageOutcomeInvalidRequest c"] refusal_fits [of PageOutcomeInvalidRequest c n b] assms(1)
    by (simp add: FileSink_ObserveContext_def observe_begin_def)
next
  case False
  define s1 where "s1 = (if fs_changed s = None then make_channel s else s)"
  have same: "fs_epoch s1 = fs_epoch s" "fs_content s1 = fs_content s" by (simp_all add: s1_def make_channel_def)
  obtain s2 p where r: "FileSink_Read env s1 c n b = (s2, Done p)" "fit_to_send c n b p" "ascii (fs_epoch s2)"
    "fs_content s2 = fs_content s1"
    using FileSink_Read_fits [of c s1 env n b] assms same by auto
  have first: "observe_begin env None s c n b w =
      (if pg_outcome p \<noteq> PageOutcomePage \<or> pg_records p \<noteq> [] \<or> \<not> pg_at_end p \<or> w = 0 then (s2, Answer (Done p))
       else if fs_waiters s2 \<ge> MaxHistoryWaiters then (s2, Answer (Done (refusal_page PageOutcomeUnavailable c)))
       else (s2\<lparr>fs_waiters := fs_waiters s2 + 1\<rparr>, Park (the (fs_changed s1))))"
    using r(1) False by (simp add: observe_begin_def FileSink_Read_def Let_def flip: s1_def)
  let ?s3 = "s2\<lparr>fs_waiters := fs_waiters s2 + 1\<rparr>"
  obtain s4 q where again: "FileSink_Read env ?s3 c n b = (s4, Done q)" "fit_to_send c n b q"
    by (rule FileSink_Read_fits [of c ?s3 env n b]) (use assms r same in auto)
  let ?answered = "pg_outcome p \<noteq> PageOutcomePage \<or> pg_records p \<noteq> [] \<or> \<not> pg_at_end p \<or> w = 0"
  consider "?answered" | "\<not> ?answered" "fs_waiters s2 \<ge> MaxHistoryWaiters" | "\<not> ?answered" "\<not> fs_waiters s2 \<ge> MaxHistoryWaiters"
    by blast
  then show thesis
  proof cases
    case 1
    then have "FileSink_ObserveContext env None None s c n b w = (s2, Done p)"
      by (simp only: FileSink_ObserveContext_def first if_True prod.case first_look.case)
    then show thesis using that r(2) by blast
  next
    case 2
    then have "FileSink_ObserveContext env None None s c n b w = (s2, Done (refusal_page PageOutcomeUnavailable c))"
      by (simp only: FileSink_ObserveContext_def first if_True if_False prod.case first_look.case)
    then show thesis using that refusal_fits [of PageOutcomeUnavailable c n b] assms(1) by simp
  next
    case 3
    then have "FileSink_ObserveContext env None None s c n b w = (observe_release s4, Done q)"
      by (simp only: FileSink_ObserveContext_def first if_False prod.case first_look.case observe_again_def option.case again)
    then show thesis using that again(2) by blast
  qed
qed

subsection \<open>What the application reads\<close>

lemma file_provider_Read:
  assumes "authorizeHistory r 0 = None" "FileSink_Read env s c n b = (s', Done p)"
  shows "receiver_Read r (file_provider T W env ctx later) (k, s) c n b = ((k, s'), Done p)"
proof (cases "bad_limits n b")
  case True
  then have "FileSink_Read env s c n b = (s, Done (refusal_page PageOutcomeInvalidRequest c))"
    by (simp add: FileSink_Read_def readHistoryLocked_def)
  then show ?thesis using assms True by (simp add: receiver_Read_def)
next
  case False
  then show ?thesis using assms by (simp add: receiver_Read_def file_provider_def)
qed

text \<open>
  C13: From end to end: an application of the file's owner that asks for history through its client,
  the frames, the service and the dispatcher gets exactly the page the file sink answers, in
  canonical form, for any cursor, limits, stored bytes and outcome of the file calls; neither a
  check on the way nor the client's own check can turn a page into an error.  The transport carries
  every frame whole: its bound on a frame's length (1 MiB on either side) and its deadlines are its own.
\<close>

theorem client_reads_the_file:
  assumes "authorizeHistory r 0 = None" "validUTF8 c" "ascii (fs_epoch s)" "length (fs_content s) < 2 ^ 63"
  shows "\<exists>s' p. FileSink_Read env s c n b = (s', Done p)
    \<and> Reader_ReadContext (carried (serve_frame T H U os reply_to r (file_provider T W env ctx later))) None (k, s) c n b
      = ((k, s'), Done (canonical_page p))"
proof -
  let ?out = "file_provider T W env ctx later"
  obtain s' p where p: "FileSink_Read env s c n b = (s', Done p)" "fit_to_send c n b p"
    using FileSink_Read_fits [OF assms(2-4), of env n b] by blast
  then have clean: "utf8_page p" "writable_page p" "validateHistoryPage p c n b = Done p"
    by (simp_all add: fit_to_send_def)
  have h: "receiver_Read r ?out (k, s) c n b = ((k, s'), Done p)"
    by (rule file_provider_Read [OF assms(1) p(1)])
  have "HistoryReaderClient_Read (carried (serve_frame T H U os reply_to r ?out)) (k, s) c n b
      = HistoryReaderClient_Read (HistoryReaderDispatcher_ExchangeFrame (receiver_Read r ?out)) (k, s) c n b"
    by (rule read_exchanged [OF assms(2)]) (simp add: h clean)
  then have "Reader_ReadContext (carried (serve_frame T H U os reply_to r ?out)) None (k, s) c n b
      = Reader_ReadContext (HistoryReaderDispatcher_ExchangeFrame (receiver_Read r ?out)) None (k, s) c n b"
    by (simp add: Reader_ReadContext_def)
  then show ?thesis
    using client_reads [of "receiver_Read r ?out", OF h assms(2) clean] p(1) by simp
qed

text \<open>The file holds the sample line twice.\<close>

theorem client_reads_the_file_witness:
  "\<exists>s' p. FileSink_Read sample_env sample_file [] 10 4096 = (s', Done p)
    \<and> Reader_ReadContext (carried (serve_frame (\<lambda>t :: string. Inr t) (\<lambda>k b. b) (\<lambda>l. Inl ''bad'') ''linux'' (\<lambda>x. None)
        (anns_call ''1000'') (file_provider (\<lambda>t. Inr t) (\<lambda>b. (length b, None)) sample_env None None)))
      None (0, sample_file) [] 10 4096 = ((0, s'), Done (canonical_page p))"
proof (rule client_reads_the_file)
  show "validUTF8 []" by (simp add: validUTF8.simps)
  show "ascii (fs_epoch sample_file)" by (simp add: sample_file_def OpenFileSink_def)
qed (simp_all only: ann_is_owner sample_file_facts(4))

text \<open>
  The same for an observation that waits undisturbed: with a place among the observers and both
  checks passed, the client gets the page the sink answers after the wait, and the place is free
  again.
\<close>

theorem client_observes_the_file:
  assumes "authorizeHistory r 0 = None" "authorizeHistory r 1 = None" "validUTF8 c" "ascii (fs_epoch s)"
    "length (fs_content s) < 2 ^ 63" "\<not> bad_limits n b" "0 \<le> sint w" "sint w \<le> 30000" "k < MaxObservers"
  shows "\<exists>s' p. FileSink_ObserveContext env None None s c n b w = (s', Done p)
    \<and> Observer_ObserveContext (carried (serve_frame T H U os reply_to r (file_provider T W env None None))) None
        (k, s) c n b w = ((k, s'), Done (canonical_page p))"
proof -
  let ?out = "file_provider T W env None None"
  obtain s' p where p: "FileSink_ObserveContext env None None s c n b w = (s', Done p)" "fit_to_send c n b p"
    using FileSink_ObserveContext_fits [OF assms(3-5), of env n b w] by blast
  then have clean: "utf8_page p" "writable_page p" "validateHistoryPage p c n b = Done p"
    by (simp_all add: fit_to_send_def)
  have h: "receiver_Observe r ?out (k, s) c n b w = ((k, s'), Done p)"
    using assms p(1) by (simp add: receiver_Observe_def file_provider_def Let_def)
  have "HistoryObserverClient_Observe (carried (serve_frame T H U os reply_to r ?out)) (k, s) c n b w
      = HistoryObserverClient_Observe (HistoryObserverDispatcher_ExchangeFrame (receiver_Observe r ?out)) (k, s) c n b w"
    by (rule observe_exchanged [OF assms(3)]) (simp add: h clean)
  then have "Observer_ObserveContext (carried (serve_frame T H U os reply_to r ?out)) None (k, s) c n b w
      = Observer_ObserveContext (HistoryObserverDispatcher_ExchangeFrame (receiver_Observe r ?out)) None (k, s) c n b w"
    by (simp add: Observer_ObserveContext_def)
  then show ?thesis
    using client_observes [of "receiver_Observe r ?out", OF h assms(3) clean assms(7,8)] p(1) by simp
qed

theorem client_observes_the_file_witness:
  "\<exists>s' p. FileSink_ObserveContext sample_env None None sample_file [] 10 4096 500 = (s', Done p)
    \<and> Observer_ObserveContext (carried (serve_frame (\<lambda>t :: string. Inr t) (\<lambda>k b. b) (\<lambda>l. Inl ''bad'') ''linux'' (\<lambda>x. None)
        (anns_call ''1000'') (file_provider (\<lambda>t. Inr t) (\<lambda>b. (length b, None)) sample_env None None)))
      None (31, sample_file) [] 10 4096 500 = ((31, s'), Done (canonical_page p))"
proof (rule client_observes_the_file)
  show "validUTF8 []" by (simp add: validUTF8.simps)
  show "ascii (fs_epoch sample_file)" by (simp add: sample_file_def OpenFileSink_def)
  show "\<not> bad_limits 10 4096" by (simp add: bad_limits_def)
  show "(31 :: nat) < MaxObservers" by (simp add: MaxObservers_def)
  show "length (fs_content sample_file) < 2 ^ 63" by (rule sample_file_facts)
qed (simp_all add: ann_is_owner)

end
