(* ===== verification/Async_Sink.thy ===== *)
theory Async_Sink
  imports Sinks
begin

text \<open>
  \<^verbatim>\<open>go/async.go\<close>: the sink that queues records and delivers them on a goroutine of its
  own.  The callers, the delivery goroutine, the goroutine that calls the inner sink under a
  write timeout, the closers and the timers interleave; each atomic piece of the code (a critical
  section under the mutex, one channel operation, one call of the inner sink or its return) is an
  event, and \<open>step\<close> says what it does, \<open>None\<close> where the code is not at that point or would wait.
  The scheduler, the inner sink's answers and the timers are the choice of the next event.
\<close>

subsection \<open>State\<close>

record async_counts =
  ac_accepted :: u64
  ac_dropped :: u64
  ac_written :: u64
  ac_failed :: u64
  ac_abandoned :: u64
  ac_queued :: nat
  ac_overflowing :: bool
  ac_failing :: bool
  ac_lastError :: "sink_error option"

text \<open>
  Where the delivery goroutine is, with the record in its hands: between two records, before the
  look at the stop flag, inside the inner sink, waiting for an earlier delivery, about to hand the
  record over, waiting for its result, back with a result, gone.
\<close>

datatype 'r worker =
    Idle
  | Taken 'r
  | Delivering 'r
  | AwaitingPending 'r
  | Handing 'r
  | Awaiting 'r
  | Back 'r "sink_error option"
  | Gone

text \<open>
  The goroutine of \<^verbatim>\<open>boundedDelivery\<close> with the result channel of its last attempt.
\<close>

datatype 'r attempt = Free | Running 'r | Finished 'r "sink_error option"

datatype closer =
    NotCalled
  | Draining
  | AtDeadline nat
  | Cancelled nat
  | Closed

record 'r async =
  as_capacity :: nat
  as_bounded :: bool
  as_queue :: "'r list"
  as_closed :: bool
  as_stop :: bool
  as_counts :: async_counts
  as_worker :: "'r worker"
  as_attempt :: "'r attempt"
  as_pending :: bool
  as_closers :: "nat \<Rightarrow> closer"

definition zero_counts :: async_counts where
  "zero_counts =
     \<lparr>ac_accepted = 0, ac_dropped = 0, ac_written = 0, ac_failed = 0, ac_abandoned = 0, ac_queued = 0,
      ac_overflowing = False, ac_failing = False, ac_lastError = None\<rparr>"

definition DefaultAsyncCapacity :: nat where "DefaultAsyncCapacity = 1024"

definition NewAsyncSink :: "int \<Rightarrow> int \<Rightarrow> 'r async" where
  "NewAsyncSink capacity write_timeout =
     \<lparr>as_capacity = (if capacity \<le> 0 then DefaultAsyncCapacity else nat capacity),
      as_bounded = (write_timeout > 0), as_queue = [], as_closed = False, as_stop = False,
      as_counts = zero_counts, as_worker = Idle, as_attempt = Free, as_pending = False,
      as_closers = (\<lambda>_. NotCalled)\<rparr>"

subsection \<open>What can be seen\<close>

datatype outcome = Written | Failed sink_error | Abandoned

datatype 'r sight =
    Answered 'r "sink_error option"
  | Calls 'r
  | Returns 'r "sink_error option"
  | Ends 'r outcome
  | OnOverflow async_counts
  | OnFailure sink_error async_counts
  | OnRecovery async_counts
  | CloseReturned nat async_counts "nat option"

subsection \<open>Operations\<close>

definition snapshotLocked :: "'r async \<Rightarrow> async_counts" where
  "snapshotLocked s = (as_counts s)\<lparr>ac_queued := length (as_queue s)\<rparr>"

definition AsyncSink_Write :: "'r \<Rightarrow> 'r async \<Rightarrow> 'r async \<times> 'r sight list" where
  "AsyncSink_Write r s =
     (if as_closed s then (s, [Answered r (Some ErrSinkClosed)])
      else if length (as_queue s) < as_capacity s then
        (s\<lparr>as_queue := as_queue s @ [r],
           as_counts := (as_counts s)\<lparr>ac_accepted := ac_accepted (as_counts s) + 1, ac_overflowing := False\<rparr>\<rparr>,
         [Answered r None])
      else
        let first = \<not> ac_overflowing (as_counts s);
            s' = s\<lparr>as_counts := (as_counts s)\<lparr>ac_dropped := ac_dropped (as_counts s) + 1, ac_overflowing := True\<rparr>\<rparr>
        in (s', (if first then [OnOverflow (snapshotLocked s')] else []) @ [Answered r (Some ErrQueueFull)]))"

text \<open>Enqueueing never waits, so a context has nothing to bound; \<^verbatim>\<open>Counts\<close> is the snapshot under the lock.\<close>

definition AsyncSink_WriteContext :: "'c \<Rightarrow> 'r \<Rightarrow> 'r async \<Rightarrow> 'r async \<times> 'r sight list" where
  "AsyncSink_WriteContext ctx r s = AsyncSink_Write r s"

definition Counts :: "'r async \<Rightarrow> async_counts" where
  "Counts s = snapshotLocked s"

definition run_account :: "'r \<Rightarrow> sink_error option \<Rightarrow> 'r async \<Rightarrow> 'r async \<times> 'r sight list" where
  "run_account r err s =
     (let c = as_counts s in
      case err of
        Some e \<Rightarrow>
          (let s' = s\<lparr>as_counts := c\<lparr>ac_failed := ac_failed c + 1, ac_failing := True, ac_lastError := Some e\<rparr>,
                      as_worker := Idle\<rparr>
           in (s', Ends r (Failed e) # (if ac_failing c then [] else [OnFailure e (snapshotLocked s')])))
      | None \<Rightarrow>
          (let s' = s\<lparr>as_counts := c\<lparr>ac_written := ac_written c + 1, ac_failing := False\<rparr>, as_worker := Idle\<rparr>
           in (s', Ends r Written # (if ac_failing c then [OnRecovery (snapshotLocked s')] else []))))"

text \<open>The error of a delivery that is not waited for any longer.\<close>

definition gave_up :: "'r async \<Rightarrow> sink_error" where
  "gave_up s = (if as_stop s then Canceled else ErrWriteTimeout)"

datatype 'r event =
    Write_call 'r
  | Take
  | Look
  | Hand
  | Inner_returns "sink_error option"
  | Drained
  | Result
  | Give_up
  | Account
  | Leave
  | Close_call nat
  | Close_done nat
  | Deadline nat
  | Cancel nat
  | Close_return nat

definition run_take :: "'r async \<Rightarrow> ('r async \<times> 'r sight list) option" where
  "run_take s =
     (case as_worker s of
        Idle \<Rightarrow>
          (case as_queue s of
             [] \<Rightarrow> None
           | r # rs \<Rightarrow> Some (s\<lparr>as_queue := rs, as_worker := Taken r\<rparr>, []))
      | _ \<Rightarrow> None)"

definition run_leave :: "'r async \<Rightarrow> ('r async \<times> 'r sight list) option" where
  "run_leave s =
     (case as_worker s of
        Idle \<Rightarrow> (if as_queue s = [] \<and> as_closed s then Some (s\<lparr>as_worker := Gone\<rparr>, []) else None)
      | _ \<Rightarrow> None)"

definition run_look :: "'r async \<Rightarrow> ('r async \<times> 'r sight list) option" where
  "run_look s =
     (case as_worker s of
        Taken r \<Rightarrow>
          (if as_stop s then
             Some (s\<lparr>as_counts := (as_counts s)\<lparr>ac_abandoned := ac_abandoned (as_counts s) + 1\<rparr>, as_worker := Idle\<rparr>,
               [Ends r Abandoned])
           else if as_bounded s then
             Some (s\<lparr>as_worker := (if as_pending s then AwaitingPending r else Handing r)\<rparr>, [])
           else Some (s\<lparr>as_worker := Delivering r\<rparr>, [Calls r]))
      | _ \<Rightarrow> None)"

text \<open>The steps of \<^verbatim>\<open>boundedDelivery.deliver\<close> and of its \<^verbatim>\<open>loop\<close>.\<close>

definition deliver_drained :: "'r async \<Rightarrow> ('r async \<times> 'r sight list) option" where
  "deliver_drained s =
     (case as_worker s of
        AwaitingPending r \<Rightarrow>
          (case as_attempt s of
             Finished x err \<Rightarrow> Some (s\<lparr>as_attempt := Free, as_pending := False, as_worker := Handing r\<rparr>, [])
           | _ \<Rightarrow> None)
      | _ \<Rightarrow> None)"

definition deliver_hand :: "'r async \<Rightarrow> ('r async \<times> 'r sight list) option" where
  "deliver_hand s =
     (case as_worker s of
        Handing r \<Rightarrow>
          (case as_attempt s of
             Running x \<Rightarrow> None
           | _ \<Rightarrow> Some (s\<lparr>as_attempt := Running r, as_worker := Awaiting r\<rparr>, [Calls r]))
      | _ \<Rightarrow> None)"

definition deliver_result :: "'r async \<Rightarrow> ('r async \<times> 'r sight list) option" where
  "deliver_result s =
     (case as_worker s of
        Awaiting r \<Rightarrow>
          (case as_attempt s of
             Finished x err \<Rightarrow> Some (s\<lparr>as_attempt := Free, as_worker := Back r err\<rparr>, [])
           | _ \<Rightarrow> None)
      | _ \<Rightarrow> None)"

definition deliver_give_up :: "'r async \<Rightarrow> ('r async \<times> 'r sight list) option" where
  "deliver_give_up s =
     (case as_worker s of
        AwaitingPending r \<Rightarrow> Some (s\<lparr>as_worker := Back r (Some (gave_up s))\<rparr>, [])
      | Awaiting r \<Rightarrow> Some (s\<lparr>as_pending := True, as_worker := Back r (Some (gave_up s))\<rparr>, [])
      | _ \<Rightarrow> None)"

definition inner_returns :: "sink_error option \<Rightarrow> 'r async \<Rightarrow> ('r async \<times> 'r sight list) option" where
  "inner_returns err s =
     (case as_worker s of
        Delivering r \<Rightarrow> Some (s\<lparr>as_worker := Back r err\<rparr>, [Returns r err])
      | _ \<Rightarrow>
          (case as_attempt s of
             Running r \<Rightarrow> Some (s\<lparr>as_attempt := Finished r err\<rparr>, [Returns r err])
           | _ \<Rightarrow> None))"

text \<open>\<^verbatim>\<open>Close\<close>, call number \<open>i\<close>.\<close>

definition close_step :: "nat \<Rightarrow> closer \<Rightarrow> 'r async \<Rightarrow> 'r async" where
  "close_step i pc s = s\<lparr>as_closers := (as_closers s)(i := pc)\<rparr>"

definition AsyncSink_Close :: "'r event \<Rightarrow> 'r async \<Rightarrow> ('r async \<times> 'r sight list) option" where
  "AsyncSink_Close e s =
     (case e of
        Close_call i \<Rightarrow>
          (if as_closers s i = NotCalled then Some (close_step i Draining (s\<lparr>as_closed := True\<rparr>), []) else None)
      | Close_done i \<Rightarrow>
          (if as_closers s i = Draining \<and> as_worker s = Gone
           then Some (close_step i Closed s, [CloseReturned i (snapshotLocked s) None]) else None)
      | Deadline i \<Rightarrow>
          (if as_closers s i = Draining then Some (close_step i (AtDeadline (length (as_queue s))) s, []) else None)
      | Cancel i \<Rightarrow>
          (case as_closers s i of
             AtDeadline n \<Rightarrow> Some (close_step i (Cancelled n) (s\<lparr>as_stop := True\<rparr>), [])
           | _ \<Rightarrow> None)
      | Close_return i \<Rightarrow>
          (case as_closers s i of
             Cancelled n \<Rightarrow>
               (if as_bounded s \<and> as_worker s \<noteq> Gone then None
                else Some (close_step i Closed s, [CloseReturned i (snapshotLocked s) (Some n)]))
           | _ \<Rightarrow> None)
      | _ \<Rightarrow> None)"

fun step :: "'r event \<Rightarrow> 'r async \<Rightarrow> ('r async \<times> 'r sight list) option" where
  "step (Write_call r) s = Some (AsyncSink_Write r s)"
| "step Take s = run_take s"
| "step Leave s = run_leave s"
| "step Look s = run_look s"
| "step Drained s = deliver_drained s"
| "step Hand s = deliver_hand s"
| "step Result s = deliver_result s"
| "step Give_up s = deliver_give_up s"
| "step (Inner_returns err) s = inner_returns err s"
| "step Account s = (case as_worker s of Back r err \<Rightarrow> Some (run_account r err s) | _ \<Rightarrow> None)"
| "step (Close_call i) s = AsyncSink_Close (Close_call i) s"
| "step (Close_done i) s = AsyncSink_Close (Close_done i) s"
| "step (Deadline i) s = AsyncSink_Close (Deadline i) s"
| "step (Cancel i) s = AsyncSink_Close (Cancel i) s"
| "step (Close_return i) s = AsyncSink_Close (Close_return i) s"

fun run :: "'r event list \<Rightarrow> 'r async \<Rightarrow> ('r async \<times> 'r sight list) option" where
  "run [] s = Some (s, [])"
| "run (e # es) s =
     (case step e s of
        None \<Rightarrow> None
      | Some (s1, out1) \<Rightarrow> (case run es s1 of None \<Rightarrow> None | Some (s2, out2) \<Rightarrow> Some (s2, out1 @ out2)))"

text \<open>The states the sink reaches, with all that was seen on the way.\<close>

inductive reaches :: "int \<Rightarrow> int \<Rightarrow> 'r sight list \<Rightarrow> 'r async \<Rightarrow> bool" for capacity write_timeout where
  start: "reaches capacity write_timeout [] (NewAsyncSink capacity write_timeout)"
| more: "reaches capacity write_timeout seen s \<Longrightarrow> step e s = Some (s', out)
    \<Longrightarrow> reaches capacity write_timeout (seen @ out) s'"

subsection \<open>What was seen, record by record\<close>

definition accepted :: "'r sight list \<Rightarrow> 'r list" where
  "accepted seen = concat (map (\<lambda>x. case x of Answered r None \<Rightarrow> [r] | _ \<Rightarrow> []) seen)"

definition dropped :: "'r sight list \<Rightarrow> 'r list" where
  "dropped seen = concat (map (\<lambda>x. case x of Answered r (Some ErrQueueFull) \<Rightarrow> [r] | _ \<Rightarrow> []) seen)"

definition called :: "'r sight list \<Rightarrow> 'r list" where
  "called seen = concat (map (\<lambda>x. case x of Calls r \<Rightarrow> [r] | _ \<Rightarrow> []) seen)"

definition returned :: "'r sight list \<Rightarrow> ('r \<times> sink_error option) list" where
  "returned seen = concat (map (\<lambda>x. case x of Returns r e \<Rightarrow> [(r, e)] | _ \<Rightarrow> []) seen)"

definition ended :: "'r sight list \<Rightarrow> ('r \<times> outcome) list" where
  "ended seen = concat (map (\<lambda>x. case x of Ends r out \<Rightarrow> [(r, out)] | _ \<Rightarrow> []) seen)"

definition answers :: "'r sight list \<Rightarrow> sink_error option list" where
  "answers seen = concat (map (\<lambda>x. case x of Answered r e \<Rightarrow> [e] | _ \<Rightarrow> []) seen)"

lemmas seen_defs = answers_def accepted_def dropped_def called_def returned_def ended_def

text \<open>The record the delivery goroutine holds, the one it offered, the one inside the inner sink.\<close>

fun in_hand :: "'r worker \<Rightarrow> 'r list" where
  "in_hand Idle = []"
| "in_hand (Taken r) = [r]"
| "in_hand (Delivering r) = [r]"
| "in_hand (AwaitingPending r) = [r]"
| "in_hand (Handing r) = [r]"
| "in_hand (Awaiting r) = [r]"
| "in_hand (Back r err) = [r]"
| "in_hand Gone = []"

definition offered :: "'r worker \<Rightarrow> 'r list" where
  "offered w = (case w of Delivering r \<Rightarrow> [r] | Awaiting r \<Rightarrow> [r] | Back r _ \<Rightarrow> [r] | _ \<Rightarrow> [])"

definition running :: "'r async \<Rightarrow> 'r list" where
  "running s =
     (case as_worker s of Delivering r \<Rightarrow> [r]
      | _ \<Rightarrow> (case as_attempt s of Running r \<Rightarrow> [r] | _ \<Rightarrow> []))"

subsection \<open>The steps one by one\<close>

text \<open>
  The same steps as a relation, one rule for each thing that can happen: what the invariants are
  proved over.
\<close>

inductive moves :: "'r async \<Rightarrow> 'r sight list \<Rightarrow> 'r async \<Rightarrow> bool" where
  refuse: "as_closed s \<Longrightarrow> moves s [Answered r (Some ErrSinkClosed)] s"
| enqueue: "\<not> as_closed s \<Longrightarrow> length (as_queue s) < as_capacity s \<Longrightarrow>
    moves s [Answered r None]
      (s\<lparr>as_queue := as_queue s @ [r],
         as_counts := (as_counts s)\<lparr>ac_accepted := ac_accepted (as_counts s) + 1, ac_overflowing := False\<rparr>\<rparr>)"
| overflow_first: "\<not> as_closed s \<Longrightarrow> \<not> length (as_queue s) < as_capacity s \<Longrightarrow> \<not> ac_overflowing (as_counts s) \<Longrightarrow>
    s' = s\<lparr>as_counts := (as_counts s)\<lparr>ac_dropped := ac_dropped (as_counts s) + 1, ac_overflowing := True\<rparr>\<rparr> \<Longrightarrow>
    moves s [OnOverflow (snapshotLocked s'), Answered r (Some ErrQueueFull)] s'"
| overflow_again: "\<not> as_closed s \<Longrightarrow> \<not> length (as_queue s) < as_capacity s \<Longrightarrow> ac_overflowing (as_counts s) \<Longrightarrow>
    s' = s\<lparr>as_counts := (as_counts s)\<lparr>ac_dropped := ac_dropped (as_counts s) + 1, ac_overflowing := True\<rparr>\<rparr> \<Longrightarrow>
    moves s [Answered r (Some ErrQueueFull)] s'"
| take_one: "as_worker s = Idle \<Longrightarrow> as_queue s = r # rs \<Longrightarrow> moves s [] (s\<lparr>as_queue := rs, as_worker := Taken r\<rparr>)"
| leave: "as_worker s = Idle \<Longrightarrow> as_queue s = [] \<Longrightarrow> as_closed s \<Longrightarrow> moves s [] (s\<lparr>as_worker := Gone\<rparr>)"
| abandon: "as_worker s = Taken r \<Longrightarrow> as_stop s \<Longrightarrow>
    moves s [Ends r Abandoned]
      (s\<lparr>as_counts := (as_counts s)\<lparr>ac_abandoned := ac_abandoned (as_counts s) + 1\<rparr>, as_worker := Idle\<rparr>)"
| call: "as_worker s = Taken r \<Longrightarrow> \<not> as_stop s \<Longrightarrow> \<not> as_bounded s \<Longrightarrow> moves s [Calls r] (s\<lparr>as_worker := Delivering r\<rparr>)"
| ready: "as_worker s = Taken r \<Longrightarrow> \<not> as_stop s \<Longrightarrow> as_bounded s \<Longrightarrow> \<not> as_pending s \<Longrightarrow>
    moves s [] (s\<lparr>as_worker := Handing r\<rparr>)"
| blocked: "as_worker s = Taken r \<Longrightarrow> \<not> as_stop s \<Longrightarrow> as_bounded s \<Longrightarrow> as_pending s \<Longrightarrow>
    moves s [] (s\<lparr>as_worker := AwaitingPending r\<rparr>)"
| drained: "as_worker s = AwaitingPending r \<Longrightarrow> as_attempt s = Finished x err \<Longrightarrow>
    moves s [] (s\<lparr>as_attempt := Free, as_pending := False, as_worker := Handing r\<rparr>)"
| hand: "as_worker s = Handing r \<Longrightarrow> \<forall>x. as_attempt s \<noteq> Running x \<Longrightarrow>
    moves s [Calls r] (s\<lparr>as_attempt := Running r, as_worker := Awaiting r\<rparr>)"
| result: "as_worker s = Awaiting r \<Longrightarrow> as_attempt s = Finished x err \<Longrightarrow>
    moves s [] (s\<lparr>as_attempt := Free, as_worker := Back r err\<rparr>)"
| no_wait: "as_worker s = AwaitingPending r \<Longrightarrow> moves s [] (s\<lparr>as_worker := Back r (Some (gave_up s))\<rparr>)"
| no_result: "as_worker s = Awaiting r \<Longrightarrow>
    moves s [] (s\<lparr>as_pending := True, as_worker := Back r (Some (gave_up s))\<rparr>)"
| inner_back: "as_worker s = Delivering r \<Longrightarrow> moves s [Returns r err] (s\<lparr>as_worker := Back r err\<rparr>)"
| attempt_back: "\<forall>x. as_worker s \<noteq> Delivering x \<Longrightarrow> as_attempt s = Running r \<Longrightarrow>
    moves s [Returns r err] (s\<lparr>as_attempt := Finished r err\<rparr>)"
| account: "as_worker s = Back r err \<Longrightarrow> run_account r err s = (s', out) \<Longrightarrow> moves s out s'"
| close_call: "as_closers s i = NotCalled \<Longrightarrow> moves s [] (close_step i Draining (s\<lparr>as_closed := True\<rparr>))"
| close_done: "as_closers s i = Draining \<Longrightarrow> as_worker s = Gone \<Longrightarrow>
    moves s [CloseReturned i (snapshotLocked s) None] (close_step i Closed s)"
| deadline: "as_closers s i = Draining \<Longrightarrow> moves s [] (close_step i (AtDeadline (length (as_queue s))) s)"
| cancel: "as_closers s i = AtDeadline n \<Longrightarrow> moves s [] (close_step i (Cancelled n) (s\<lparr>as_stop := True\<rparr>))"
| close_return: "as_closers s i = Cancelled n \<Longrightarrow> \<not> as_bounded s \<or> as_worker s = Gone \<Longrightarrow>
    moves s [CloseReturned i (snapshotLocked s) (Some n)] (close_step i Closed s)"

lemma write_moves: "AsyncSink_Write r s = (s', out) \<Longrightarrow> moves s out s'"
  by (auto simp: AsyncSink_Write_def Let_def intro: moves.intros split: if_splits)

lemma run_take_moves: "run_take s = Some (s', out) \<Longrightarrow> moves s out s'"
  by (auto simp: run_take_def intro: moves.intros split: worker.splits list.splits)

lemma run_leave_moves: "run_leave s = Some (s', out) \<Longrightarrow> moves s out s'"
  by (auto simp: run_leave_def intro: moves.intros split: worker.splits if_splits)

lemma run_look_moves: "run_look s = Some (s', out) \<Longrightarrow> moves s out s'"
  by (auto simp: run_look_def intro: moves.intros split: worker.splits if_splits)

lemma deliver_drained_moves: "deliver_drained s = Some (s', out) \<Longrightarrow> moves s out s'"
  by (auto simp: deliver_drained_def intro: moves.intros split: worker.splits attempt.splits)

lemma deliver_hand_moves: "deliver_hand s = Some (s', out) \<Longrightarrow> moves s out s'"
  by (auto simp: deliver_hand_def intro: moves.intros split: worker.splits attempt.splits)

lemma deliver_result_moves: "deliver_result s = Some (s', out) \<Longrightarrow> moves s out s'"
  by (auto simp: deliver_result_def intro: moves.intros split: worker.splits attempt.splits)

lemma deliver_give_up_moves: "deliver_give_up s = Some (s', out) \<Longrightarrow> moves s out s'"
  by (auto simp: deliver_give_up_def intro: moves.intros split: worker.splits)

lemma inner_returns_moves: "inner_returns err s = Some (s', out) \<Longrightarrow> moves s out s'"
  by (cases "as_worker s"; cases "as_attempt s") (auto simp: inner_returns_def intro: moves.intros)

lemma close_moves: "AsyncSink_Close e s = Some (s', out) \<Longrightarrow> moves s out s'"
  by (cases e) (auto simp: AsyncSink_Close_def intro: moves.intros split: if_splits closer.splits)

lemma step_moves: "step e s = Some (s', out) \<Longrightarrow> moves s out s'"
  by (cases e) (auto intro: write_moves run_take_moves run_leave_moves run_look_moves deliver_drained_moves
      deliver_hand_moves deliver_result_moves deliver_give_up_moves inner_returns_moves close_moves moves.account
      split: worker.splits)

subsection \<open>Where the goroutines can be\<close>

text \<open>
  Without a write timeout the second goroutine does not exist.  With one, an attempt is
  outstanding exactly when it is awaited or pending, never both, and nothing is handed over while
  one is.
\<close>

definition places_ok :: "'r async \<Rightarrow> bool" where
  "places_ok s \<longleftrightarrow>
     (case as_worker s of
        Delivering r \<Rightarrow> \<not> as_bounded s
      | AwaitingPending r \<Rightarrow> as_bounded s \<and> as_pending s
      | Handing r \<Rightarrow> as_bounded s \<and> \<not> as_pending s
      | Awaiting r \<Rightarrow> as_bounded s \<and> \<not> as_pending s \<and> (as_attempt s = Running r \<or> (\<exists>e. as_attempt s = Finished r e))
      | Gone \<Rightarrow> as_closed s \<and> as_queue s = []
      | _ \<Rightarrow> True)
     \<and> (as_attempt s \<noteq> Free \<longleftrightarrow> as_pending s \<or> (\<exists>r. as_worker s = Awaiting r))
     \<and> (\<not> as_bounded s \<longrightarrow> \<not> as_pending s)
     \<and> (as_stop s \<longrightarrow> as_closed s) \<and> (\<forall>i. as_closers s i \<noteq> NotCalled \<longrightarrow> as_closed s)"

lemma places_ok_new: "places_ok (NewAsyncSink c t)"
  by (simp add: places_ok_def NewAsyncSink_def)

lemma places_ok_moves: "moves s out s' \<Longrightarrow> places_ok s \<Longrightarrow> places_ok s'"
proof (induction rule: moves.induct)
  case (account s r err s' out)
  then show ?case
    by (cases err) (auto simp: places_ok_def run_account_def Let_def)
qed (auto simp: places_ok_def close_step_def split: worker.splits)

lemma constant_moves:
  "moves s out s' \<Longrightarrow> as_capacity s' = as_capacity s \<and> as_bounded s' = as_bounded s"
  by (induction rule: moves.induct)
    (auto simp: run_account_def close_step_def Let_def split: option.splits)

lemma reaches_places: "reaches c t seen s \<Longrightarrow> places_ok s"
  by (induction rule: reaches.induct) (auto intro: places_ok_new places_ok_moves step_moves)

lemma reaches_constant:
  "reaches c t seen s \<Longrightarrow> as_capacity s = as_capacity (NewAsyncSink c t :: 'r async) \<and> as_bounded s = (t > 0)"
  for s :: "'r async"
  by (induction rule: reaches.induct) (auto simp: NewAsyncSink_def dest!: step_moves constant_moves)

subsection \<open>Every record ends once, in order\<close>

text \<open>
  What was accepted is what has ended, then the record in hand, then the queue: in this order, each
  once.  What was called is what returned, then the one inside the inner sink.
\<close>

definition history_ok :: "'r sight list \<Rightarrow> 'r async \<Rightarrow> bool" where
  "history_ok seen s \<longleftrightarrow>
     accepted seen = map fst (ended seen) @ in_hand (as_worker s) @ as_queue s
     \<and> called seen = map fst (returned seen) @ running s
     \<and> subseq (called seen) (map fst (ended seen) @ offered (as_worker s))
     \<and> length (as_queue s) \<le> as_capacity s"

lemma history_ok_new: "history_ok [] (NewAsyncSink c t)"
  by (simp add: history_ok_def NewAsyncSink_def seen_defs running_def offered_def)

lemma seen_append [simp]:
  "accepted (a @ b) = accepted a @ accepted b" "dropped (a @ b) = dropped a @ dropped b"
  "called (a @ b) = called a @ called b" "returned (a @ b) = returned a @ returned b"
  "ended (a @ b) = ended a @ ended b" "answers (a @ b) = answers a @ answers b"
  by (simp_all add: seen_defs)

lemma seen_Cons [simp]:
  "accepted (x # xs) = (case x of Answered r None \<Rightarrow> [r] | _ \<Rightarrow> []) @ accepted xs"
  "dropped (x # xs) = (case x of Answered r (Some ErrQueueFull) \<Rightarrow> [r] | _ \<Rightarrow> []) @ dropped xs"
  "called (x # xs) = (case x of Calls r \<Rightarrow> [r] | _ \<Rightarrow> []) @ called xs"
  "returned (x # xs) = (case x of Returns r e \<Rightarrow> [(r, e)] | _ \<Rightarrow> []) @ returned xs"
  "ended (x # xs) = (case x of Ends r out \<Rightarrow> [(r, out)] | _ \<Rightarrow> []) @ ended xs"
  "answers (x # xs) = (case x of Answered r e \<Rightarrow> [e] | _ \<Rightarrow> []) @ answers xs"
  "accepted [] = []" "dropped [] = []" "called [] = []" "returned [] = []" "ended [] = []" "answers [] = []"
  by (simp_all add: seen_defs)

lemma accepted_moves:
  assumes "moves s out s'" "accepted seen = map fst (ended seen) @ in_hand (as_worker s) @ as_queue s"
    "length (as_queue s) \<le> as_capacity s"
  shows "accepted (seen @ out) = map fst (ended (seen @ out)) @ in_hand (as_worker s') @ as_queue s'"
    and "length (as_queue s') \<le> as_capacity s'"
  using assms
proof (induction rule: moves.induct)
  case (account s r err s' out)
  {
    case 1
    with account show ?case
      by (cases err; cases "ac_failing (as_counts s)") (auto simp: run_account_def Let_def)
  next
    case 2
    with account show ?case
      by (cases err; cases "ac_failing (as_counts s)") (auto simp: run_account_def Let_def)
  }
qed (simp_all add: close_step_def)

lemma called_moves:
  assumes "moves s out s'" "places_ok s" "called seen = map fst (returned seen) @ running s"
  shows "called (seen @ out) = map fst (returned (seen @ out)) @ running s'"
  using assms
proof (induction rule: moves.induct)
  case (account s r err s' out)
  then show ?case
    by (cases err; cases "ac_failing (as_counts s)") (auto simp: run_account_def Let_def running_def)
next
  case (inner_back s r err)
  then have "as_attempt s = Free" by (auto simp: places_ok_def)
  with inner_back show ?case by (simp add: running_def)
next
  case (attempt_back s r err)
  then have "running s = [r]" by (auto simp: running_def split: worker.splits)
  moreover have "running (s\<lparr>as_attempt := Finished r err\<rparr>) = []"
    using attempt_back by (auto simp: running_def split: worker.splits)
  ultimately show ?case using attempt_back by simp
qed (simp_all add: close_step_def running_def places_ok_def split: attempt.splits)

lemma offered_moves:
  assumes "moves s out s'" "subseq (called seen) (map fst (ended seen) @ offered (as_worker s))"
  shows "subseq (called (seen @ out)) (map fst (ended (seen @ out)) @ offered (as_worker s'))"
  using assms
proof (induction rule: moves.induct)
  case (account s r err s' out)
  then show ?case
    by (cases err; cases "ac_failing (as_counts s)") (auto simp: run_account_def Let_def offered_def)
qed (simp_all add: close_step_def offered_def subseq_rev_drop_many)

lemma history_ok_moves:
  assumes "moves s out s'" "places_ok s" "history_ok seen s"
  shows "history_ok (seen @ out) s'"
  using accepted_moves [OF assms(1)] called_moves [OF assms(1,2)] offered_moves [OF assms(1)] assms(3)
  unfolding history_ok_def by blast

lemma reaches_history: "reaches c t seen s \<Longrightarrow> history_ok seen s"
  by (induction rule: reaches.induct)
    (auto intro: history_ok_new history_ok_moves step_moves reaches_places)

subsection \<open>The counts\<close>

definition tally :: "'r sight list \<Rightarrow> (outcome \<Rightarrow> bool) \<Rightarrow> u64" where
  "tally seen p = of_nat (length (filter (\<lambda>x. p (snd x)) (ended seen)))"

definition is_failed :: "outcome \<Rightarrow> bool" where
  "is_failed x \<longleftrightarrow> (case x of Failed e \<Rightarrow> True | _ \<Rightarrow> False)"

definition counts_ok :: "'r sight list \<Rightarrow> async_counts \<Rightarrow> bool" where
  "counts_ok seen c \<longleftrightarrow>
     ac_accepted c = of_nat (length (accepted seen)) \<and> ac_dropped c = of_nat (length (dropped seen))
     \<and> ac_written c = tally seen (\<lambda>x. x = Written) \<and> ac_failed c = tally seen is_failed
     \<and> ac_abandoned c = tally seen (\<lambda>x. x = Abandoned)"

lemma counts_ok_new: "counts_ok [] (as_counts (NewAsyncSink c t))"
  by (simp add: counts_ok_def NewAsyncSink_def zero_counts_def seen_defs tally_def)

lemma counts_ok_moves:
  assumes "moves s out s'" "counts_ok seen (as_counts s)"
  shows "counts_ok (seen @ out) (as_counts s')"
  using assms
proof (induction rule: moves.induct)
  case (account s r err s' out)
  then show ?case
    by (cases err) (auto simp: counts_ok_def run_account_def Let_def seen_defs tally_def is_failed_def)
qed (auto simp: counts_ok_def close_step_def seen_defs tally_def is_failed_def)

lemma reaches_counts: "reaches c t seen s \<Longrightarrow> counts_ok seen (as_counts s)"
  by (induction rule: reaches.induct) (auto intro: counts_ok_new counts_ok_moves step_moves)

subsection \<open>Notifications\<close>

text \<open>
  The reference: of a sequence of verdicts (is it bad?), the changes, starting from good.
\<close>

fun edges :: "bool \<Rightarrow> bool list \<Rightarrow> bool list" where
  "edges prev [] = []"
| "edges prev (x # xs) = (if x = prev then edges x xs else x # edges x xs)"

lemma edges_snoc: "edges p (xs @ [x]) = edges p xs @ (if x = last (p # xs) then [] else [x])"
  by (induction xs arbitrary: p) auto

definition deliveries :: "'r sight list \<Rightarrow> bool list" where
  "deliveries seen = concat (map (\<lambda>x. case x of Ends r Written \<Rightarrow> [False] | Ends r (Failed e) \<Rightarrow> [True] | _ \<Rightarrow> []) seen)"

definition alarms :: "'r sight list \<Rightarrow> bool list" where
  "alarms seen = concat (map (\<lambda>x. case x of OnFailure e c \<Rightarrow> [True] | OnRecovery c \<Rightarrow> [False] | _ \<Rightarrow> []) seen)"

definition admissions :: "'r sight list \<Rightarrow> bool list" where
  "admissions seen = concat (map (\<lambda>x. case x of Answered r None \<Rightarrow> [False] | Answered r (Some ErrQueueFull) \<Rightarrow> [True] | _ \<Rightarrow> []) seen)"

definition overflows :: "'r sight list \<Rightarrow> bool list" where
  "overflows seen = concat (map (\<lambda>x. case x of OnOverflow c \<Rightarrow> [True] | _ \<Rightarrow> []) seen)"

lemma notice_append [simp]:
  "deliveries (a @ b) = deliveries a @ deliveries b" "alarms (a @ b) = alarms a @ alarms b"
  "admissions (a @ b) = admissions a @ admissions b" "overflows (a @ b) = overflows a @ overflows b"
  by (simp_all add: deliveries_def alarms_def admissions_def overflows_def)

lemma notice_Cons [simp]:
  "deliveries (x # xs) = (case x of Ends r Written \<Rightarrow> [False] | Ends r (Failed e) \<Rightarrow> [True] | _ \<Rightarrow> []) @ deliveries xs"
  "alarms (x # xs) = (case x of OnFailure e c \<Rightarrow> [True] | OnRecovery c \<Rightarrow> [False] | _ \<Rightarrow> []) @ alarms xs"
  "admissions (x # xs) = (case x of Answered r None \<Rightarrow> [False] | Answered r (Some ErrQueueFull) \<Rightarrow> [True] | _ \<Rightarrow> []) @ admissions xs"
  "overflows (x # xs) = (case x of OnOverflow c \<Rightarrow> [True] | _ \<Rightarrow> []) @ overflows xs"
  "deliveries [] = []" "alarms [] = []" "admissions [] = []" "overflows [] = []"
  by (simp_all add: deliveries_def alarms_def admissions_def overflows_def)

definition notices_ok :: "'r sight list \<Rightarrow> async_counts \<Rightarrow> bool" where
  "notices_ok seen c \<longleftrightarrow>
     ac_failing c = last (False # deliveries seen) \<and> alarms seen = edges False (deliveries seen)
     \<and> ac_overflowing c = last (False # admissions seen)
     \<and> overflows seen = filter (\<lambda>x. x) (edges False (admissions seen))"

lemma notices_ok_moves:
  assumes "moves s out s'" "notices_ok seen (as_counts s)"
  shows "notices_ok (seen @ out) (as_counts s')"
  using assms
proof (induction rule: moves.induct)
  case (account s r err s' out)
  then show ?case
    by (cases err; cases "ac_failing (as_counts s)") (auto simp: notices_ok_def run_account_def Let_def edges_snoc)
qed (auto simp: notices_ok_def close_step_def edges_snoc split: if_splits)

lemma reaches_notices: "reaches c t seen s \<Longrightarrow> notices_ok seen (as_counts s)"
proof (induction rule: reaches.induct)
  case start
  show ?case by (simp add: notices_ok_def NewAsyncSink_def zero_counts_def)
qed (auto intro: notices_ok_moves step_moves)

subsection \<open>What the inner sink answered\<close>

definition verdict :: "sink_error option \<Rightarrow> outcome" where
  "verdict err = (case err of None \<Rightarrow> Written | Some e \<Rightarrow> Failed e)"

definition came_back :: "'r worker \<Rightarrow> ('r \<times> outcome) list" where
  "came_back w = (case w of Back r err \<Rightarrow> [(r, verdict err)] | _ \<Rightarrow> [])"

definition verdicts_ok :: "'r sight list \<Rightarrow> 'r async \<Rightarrow> bool" where
  "verdicts_ok seen s \<longleftrightarrow>
     map (\<lambda>x. (fst x, verdict (snd x))) (returned seen) = filter (\<lambda>x. snd x \<noteq> Abandoned) (ended seen) @ came_back (as_worker s)"

lemma verdict_Abandoned [simp]: "verdict err \<noteq> Abandoned"
  by (simp add: verdict_def split: option.splits)

lemma verdicts_ok_moves:
  assumes "moves s out s'" "\<not> as_bounded s" "places_ok s" "verdicts_ok seen s"
  shows "verdicts_ok (seen @ out) s'"
  using assms
proof (induction rule: moves.induct)
  case (account s r err s' out)
  then show ?case
    by (cases err; cases "ac_failing (as_counts s)")
      (auto simp: verdicts_ok_def run_account_def Let_def came_back_def verdict_def)
next
  case (attempt_back s r err)
  then show ?case by (cases "as_worker s") (auto simp: places_ok_def)
qed (simp_all add: verdicts_ok_def close_step_def came_back_def places_ok_def)

lemma reaches_verdicts:
  assumes "reaches c t seen s" "\<not> t > 0"
  shows "verdicts_ok seen s"
  using assms
proof (induction rule: reaches.induct)
  case start
  show ?case by (simp add: verdicts_ok_def NewAsyncSink_def came_back_def)
next
  case (more seen s e s' out)
  then show ?case using reaches_constant [OF more.hyps(1)] reaches_places [OF more.hyps(1)]
    by (auto intro: verdicts_ok_moves step_moves)
qed

text \<open>Every Write is answered in one of three ways.\<close>

definition answers_ok :: "'r sight list \<Rightarrow> bool" where
  "answers_ok seen \<longleftrightarrow>
     length (answers seen) = length (accepted seen) + length (dropped seen) + count_list (answers seen) (Some ErrSinkClosed)"

lemma answers_ok_moves: "moves s out s' \<Longrightarrow> answers_ok seen \<Longrightarrow> answers_ok (seen @ out)"
proof (induction rule: moves.induct)
  case (account s r err s' out)
  then show ?case by (cases err) (auto simp: answers_ok_def run_account_def Let_def)
qed (simp_all add: answers_ok_def)

lemma reaches_answers: "reaches c t seen s \<Longrightarrow> answers_ok seen"
  by (induction rule: reaches.induct) (auto simp: answers_ok_def [of "[]"] intro: answers_ok_moves step_moves)

text \<open>With a write timeout too, what ends as written is what the inner sink took without an error.\<close>

definition written_soon :: "'r async \<Rightarrow> 'r list" where
  "written_soon s =
     (case as_worker s of
        Back r None \<Rightarrow> [r]
      | Awaiting r \<Rightarrow> (case as_attempt s of Finished x None \<Rightarrow> [x] | _ \<Rightarrow> [])
      | _ \<Rightarrow> [])"

definition written :: "'r sight list \<Rightarrow> 'r list" where
  "written seen = map fst (filter (\<lambda>(r, fate). fate = Written) (ended seen))"

definition taken :: "'r sight list \<Rightarrow> 'r list" where
  "taken seen = map fst (filter (\<lambda>(r, err). err = None) (returned seen))"

definition taken_ok :: "'r sight list \<Rightarrow> 'r async \<Rightarrow> bool" where
  "taken_ok seen s \<longleftrightarrow> subseq (written seen @ written_soon s) (taken seen)"

lemma subseq_less: "subseq (a @ b) c \<Longrightarrow> subseq a c"
  by (rule subseq_order.trans [OF subseq_rev_drop_many [OF subseq_order.refl]])

lemma taken_ok_moves:
  assumes "moves s out s'" "places_ok s" "taken_ok seen s"
  shows "taken_ok (seen @ out) s'"
  using assms
proof (induction rule: moves.induct)
  case (account s r err s' out)
  then show ?case
    by (cases err; cases "ac_failing (as_counts s)")
      (auto simp: taken_ok_def written_def taken_def written_soon_def run_account_def Let_def)
next
  case (attempt_back s r err)
  have "subseq (written seen) (taken seen)" using attempt_back.prems(2) subseq_less unfolding taken_ok_def by blast
  then show ?case using attempt_back
    by (cases "as_worker s"; cases err)
      (auto simp: taken_ok_def written_def taken_def written_soon_def places_ok_def
        intro: list_emb_append_mono subseq_rev_drop_many split: option.splits)
next
  case (inner_back s r err)
  then show ?case
    by (cases err) (auto simp: taken_ok_def written_def taken_def written_soon_def intro: list_emb_append_mono)
qed (auto simp: taken_ok_def written_def taken_def written_soon_def places_ok_def close_step_def gave_up_def
    dest: subseq_less split: worker.splits attempt.splits option.splits)

lemma reaches_taken: "reaches c t seen s \<Longrightarrow> subseq (written seen) (taken seen)"
proof -
  assume "reaches c t seen s"
  then have "taken_ok seen s"
  proof (induction rule: reaches.induct)
    case start
    show ?case by (simp add: taken_ok_def written_def taken_def written_soon_def NewAsyncSink_def)
  qed (auto intro: taken_ok_moves step_moves reaches_places)
  then show ?thesis using subseq_less unfolding taken_ok_def by blast
qed

subsection \<open>Progress under a write timeout\<close>

text \<open>The events of the delivery goroutine and its timers; the inner sink's returns are not among them.\<close>

definition own_event :: "'r event \<Rightarrow> bool" where
  "own_event e \<longleftrightarrow> (case e of Take \<Rightarrow> True | Leave \<Rightarrow> True | Look \<Rightarrow> True | Drained \<Rightarrow> True | Hand \<Rightarrow> True
     | Result \<Rightarrow> True | Give_up \<Rightarrow> True | Account \<Rightarrow> True | _ \<Rightarrow> False)"

fun worker_weight :: "'r worker \<Rightarrow> nat" where
  "worker_weight Gone = 0"
| "worker_weight Idle = 1"
| "worker_weight (Back r err) = 2"
| "worker_weight (Awaiting r) = 3"
| "worker_weight (Delivering r) = 3"
| "worker_weight (Handing r) = 4"
| "worker_weight (AwaitingPending r) = 5"
| "worker_weight (Taken r) = 6"

definition work_left :: "'r async \<Rightarrow> nat" where
  "work_left s = 6 * length (as_queue s) + worker_weight (as_worker s)"

lemma own_decreases:
  assumes "own_event e" "step e s = Some (s', out)"
  shows "work_left s' < work_left s \<and> (as_closed s' \<longleftrightarrow> as_closed s)"
  using assms(1)
proof (cases e)
  case Take
  then show ?thesis using assms(2)
    by (auto simp: run_take_def work_left_def split: worker.splits list.splits)
next
  case Look
  then show ?thesis using assms(2)
    by (auto simp: run_look_def work_left_def split: worker.splits if_splits)
next
  case Hand
  then show ?thesis using assms(2)
    by (auto simp: deliver_hand_def work_left_def split: worker.splits attempt.splits)
next
  case Drained
  then show ?thesis using assms(2)
    by (auto simp: deliver_drained_def work_left_def split: worker.splits attempt.splits)
next
  case Result
  then show ?thesis using assms(2)
    by (auto simp: deliver_result_def work_left_def split: worker.splits attempt.splits)
next
  case Give_up
  then show ?thesis using assms(2)
    by (auto simp: deliver_give_up_def work_left_def split: worker.splits)
next
  case Account
  then show ?thesis using assms(2)
    by (auto simp: run_account_def work_left_def Let_def split: worker.splits option.splits)
next
  case Leave
  then show ?thesis using assms(2)
    by (auto simp: run_leave_def work_left_def split: worker.splits if_splits)
qed (simp_all add: own_event_def)

lemma own_enabled:
  assumes p: "places_ok s" and b: "as_bounded s" and c: "as_closed s" and w: "as_worker s \<noteq> Gone"
  shows "\<exists>e s' out. own_event e \<and> step e s = Some (s', out)"
proof (cases "as_worker s")
  case Idle
  show ?thesis
  proof (cases "as_queue s")
    case Nil
    then have "step Leave s = Some (s\<lparr>as_worker := Gone\<rparr>, [])" using Idle c by (simp add: run_leave_def)
    then show ?thesis by (intro exI [of _ Leave]) (simp add: own_event_def)
  next
    case (Cons r rs)
    then have "step Take s = Some (s\<lparr>as_queue := rs, as_worker := Taken r\<rparr>, [])" using Idle by (simp add: run_take_def)
    then show ?thesis by (intro exI [of _ Take]) (simp add: own_event_def)
  qed
next
  case (Taken r)
  then have "\<exists>s' out. step Look s = Some (s', out)" by (simp add: run_look_def)
  then show ?thesis by (intro exI [of _ Look]) (simp add: own_event_def)
next
  case (Delivering r)
  then show ?thesis using p b by (simp add: places_ok_def)
next
  case (AwaitingPending r)
  then have "\<exists>s' out. step Give_up s = Some (s', out)" by (simp add: deliver_give_up_def)
  then show ?thesis by (intro exI [of _ Give_up]) (simp add: own_event_def)
next
  case (Handing r)
  then have "as_attempt s = Free" using p by (auto simp: places_ok_def)
  then have "\<exists>s' out. step Hand s = Some (s', out)" using Handing by (simp add: deliver_hand_def)
  then show ?thesis by (intro exI [of _ Hand]) (simp add: own_event_def)
next
  case (Awaiting r)
  then have "\<exists>s' out. step Give_up s = Some (s', out)" by (simp add: deliver_give_up_def)
  then show ?thesis by (intro exI [of _ Give_up]) (simp add: own_event_def)
next
  case (Back r err)
  then have "\<exists>s' out. step Account s = Some (s', out)" by (cases "run_account r err s") simp
  then show ?thesis by (intro exI [of _ Account]) (simp add: own_event_def)
qed (use w in simp)

lemma reaches_run:
  "reaches c t seen s \<Longrightarrow> run es s = Some (s', out) \<Longrightarrow> reaches c t (seen @ out) s'"
proof (induction es arbitrary: seen s out)
  case (Cons e es)
  then obtain s1 o1 o2 where "step e s = Some (s1, o1)" "run es s1 = Some (s', o2)" "out = o1 @ o2"
    by (auto split: option.splits prod.splits)
  then show ?case using Cons.IH [OF reaches.more [OF Cons.prems(1)]] by fastforce
qed simp

lemma run_own:
  assumes "list_all own_event es" "run es s = Some (s', out)"
  shows "work_left s' + length es \<le> work_left s \<and> (as_closed s' \<longleftrightarrow> as_closed s)"
  using assms
proof (induction es arbitrary: s out)
  case (Cons e es)
  then obtain s1 o1 o2 where r: "step e s = Some (s1, o1)" "run es s1 = Some (s', o2)"
    by (auto split: option.splits prod.splits)
  then have "work_left s1 < work_left s \<and> (as_closed s1 \<longleftrightarrow> as_closed s)"
    using own_decreases [OF _ r(1)] Cons.prems(1) by simp
  moreover have "work_left s' + length es \<le> work_left s1 \<and> (as_closed s' \<longleftrightarrow> as_closed s1)"
    using Cons.IH [OF _ r(2)] Cons.prems(1) by simp
  ultimately show ?case by auto
qed simp

lemma gone_moves:
  assumes "moves s out s'" "as_worker s = Gone" "places_ok s"
  shows "as_counts s' = as_counts s \<and> as_worker s' = Gone"
  using assms by (induction rule: moves.induct) (auto simp: places_ok_def close_step_def)

lemma gone_ended:
  assumes "reaches c t seen s" "as_worker s = Gone"
  shows "accepted seen = map fst (ended seen)"
  using reaches_history [OF assms(1)] reaches_places [OF assms(1)] assms(2)
  by (simp add: history_ok_def places_ok_def)

subsection \<open>The sink as a queue\<close>

text \<open>
  The specification: a list of records pending and a list of records ended with what became of
  them.  A record is accepted at the end of the pending ones, ends from their front, or nothing
  changes.  At most one more than the capacity is pending: the one in the worker's hands.
\<close>

inductive fifo :: "nat \<Rightarrow> 'r list \<times> ('r \<times> outcome) list \<Rightarrow> 'r list \<times> ('r \<times> outcome) list \<Rightarrow> bool" for cap where
  accept: "length pending \<le> cap \<Longrightarrow> fifo cap (pending, done) (pending @ [r], done)"
| finish: "fifo cap (r # pending, done) (pending, done @ [(r, what)])"
| same: "fifo cap st st"

definition fifo_of :: "'r sight list \<Rightarrow> 'r async \<Rightarrow> 'r list \<times> ('r \<times> outcome) list" where
  "fifo_of seen s = (in_hand (as_worker s) @ as_queue s, ended seen)"

lemma in_hand_short: "length (in_hand w) \<le> 1"
  by (cases w) simp_all

lemma moves_fifo:
  assumes "moves s out s'"
  shows "fifo (as_capacity s) (fifo_of seen s) (fifo_of (seen @ out) s')"
  using assms
proof (induction rule: moves.induct)
  case (enqueue s r)
  then have "length (in_hand (as_worker s) @ as_queue s) \<le> as_capacity s"
    using in_hand_short [of "as_worker s"] by simp
  from fifo.accept [OF this, of "ended seen" r] show ?case by (simp add: fifo_of_def)
next
  case (account s r err s' out)
  then show ?case
    by (cases err; cases "ac_failing (as_counts s)")
      (auto simp: run_account_def Let_def fifo_of_def intro: fifo.finish)
qed (auto simp: fifo_of_def close_step_def intro: fifo.finish fifo.same)

subsection \<open>The sink keeps the contract\<close>

text \<open>
  As an append-only sink, with what was accepted as the log: the world is the sink and what was
  seen of it.
\<close>

definition async_put :: "'r \<Rightarrow> 'r sight list \<times> 'r async \<Rightarrow> ('r sight list \<times> 'r async) \<times> sink_error option" where
  "async_put r w =
     (let (s', out) = AsyncSink_Write r (snd w)
      in ((fst w @ out, s'), (case last out of Answered x err \<Rightarrow> err | _ \<Rightarrow> None)))"

interpretation async_log: append_only async_put "\<lambda>w. accepted (fst w)" "\<lambda>w. reaches c t (fst w) (snd w)"
proof unfold_locales
  fix w :: "'r sight list \<times> 'r async" and r
  assume "reaches c t (fst w) (snd w)"
  then have "reaches c t (fst w @ snd (AsyncSink_Write r (snd w))) (fst (AsyncSink_Write r (snd w)))"
    by (rule reaches.more [where e = "Write_call r"]) simp
  then show "reaches c t (fst (fst (async_put r w))) (snd (fst (async_put r w)))"
    by (cases "AsyncSink_Write r (snd w)") (simp add: async_put_def)
  show "prefix (accepted (fst w)) (accepted (fst (fst (async_put r w))))"
    by (simp add: async_put_def split: prod.splits)
qed

subsection \<open>Properties of the asynchronous sink\<close>

text \<open>
  C21: In every state the sink reaches, under every interleaving, what it accepted is exactly what
  has ended, then the record in the worker's hands, then the queue, in the order of acceptance and
  each once; the queue never exceeds its capacity; and the records handed to the inner sink are
  accepted ones in that order.
\<close>

theorem accepted_in_order:
  fixes s :: "'r async"
  assumes "reaches c t seen s"
  shows "accepted seen = map fst (ended seen) @ in_hand (as_worker s) @ as_queue s
    \<and> length (as_queue s) \<le> (if c \<le> 0 then 1024 else nat c)
    \<and> subseq (called seen) (accepted seen)"
proof -
  have "subseq (map fst (ended seen) @ offered (as_worker s)) (accepted seen)"
    using reaches_history [OF assms] by (cases "as_worker s") (auto simp: history_ok_def offered_def)
  then show ?thesis
    using reaches_history [OF assms] reaches_constant [OF assms]
    by (auto simp: history_ok_def NewAsyncSink_def DefaultAsyncCapacity_def intro: subseq_order.trans)
qed

text \<open>
  C22: The counts account for every record: each counter is the number of records that met that fate
  (as 64-bit counters), accepted is written plus failed plus abandoned plus what is queued or in hand,
  and every Write is accepted, dropped, or turned away because the sink is closed, which no counter
  counts.  What is counted as written the inner sink took without an error, in order; without a write
  timeout the fates are what the inner sink answered, one by one, but for one not yet looked at.
\<close>

theorem counts_account_for_all:
  assumes "reaches c t seen s"
  shows "ac_accepted (as_counts s) = ac_written (as_counts s) + ac_failed (as_counts s) + ac_abandoned (as_counts s)
      + of_nat (length (in_hand (as_worker s)) + length (as_queue s))
    \<and> ac_accepted (as_counts s) = of_nat (length (accepted seen))
    \<and> ac_dropped (as_counts s) = of_nat (length (dropped seen))
    \<and> ac_written (as_counts s) = of_nat (length (filter (\<lambda>(r, fate). fate = Written) (ended seen)))
    \<and> ac_failed (as_counts s) = of_nat (length (filter (\<lambda>(r, fate). \<exists>e. fate = Failed e) (ended seen)))
    \<and> ac_abandoned (as_counts s) = of_nat (length (filter (\<lambda>(r, fate). fate = Abandoned) (ended seen)))
    \<and> length (answers seen) = length (accepted seen) + length (dropped seen) + count_list (answers seen) (Some ErrSinkClosed)
    \<and> subseq (written seen) (taken seen)
    \<and> (t \<le> 0 \<longrightarrow> (\<exists>held. length held \<le> 1 \<and>
        map (\<lambda>(r, err). (r, verdict err)) (returned seen) = filter (\<lambda>(r, fate). fate \<noteq> Abandoned) (ended seen) @ held))"
proof -
  have n: "length xs = length (filter (\<lambda>x. snd x = Written) xs) + length (filter (\<lambda>x. is_failed (snd x)) xs)
      + length (filter (\<lambda>x. snd x = Abandoned) xs)" for xs :: "('a \<times> outcome) list"
    by (induction xs) (auto simp: is_failed_def split: outcome.splits)
  have h: "length (accepted seen) = length (ended seen) + length (in_hand (as_worker s)) + length (as_queue s)"
    using reaches_history [OF assms] by (simp add: history_ok_def)
  have f: "is_failed x \<longleftrightarrow> (\<exists>e. x = Failed e)" for x by (cases x) (simp_all add: is_failed_def)
  have v: "\<exists>held. length held \<le> 1 \<and>
      map (\<lambda>(r, err). (r, verdict err)) (returned seen) = filter (\<lambda>(r, fate). fate \<noteq> Abandoned) (ended seen) @ held" if "t \<le> 0"
  proof -
    have "length (came_back (as_worker s)) \<le> 1" by (simp add: came_back_def split: worker.splits)
    then show ?thesis using reaches_verdicts [OF assms] that by (auto simp: verdicts_ok_def case_prod_unfold)
  qed
  note c = reaches_counts [OF assms, unfolded counts_ok_def tally_def f]
  show ?thesis
    using c h n [of "ended seen", unfolded f] v reaches_answers [OF assms] reaches_taken [OF assms]
    by (simp add: answers_ok_def case_prod_unfold)
qed

text \<open>
  C23: The inner sink is never called while a call of it has not returned, with or without a write
  timeout, whether or not it honours cancellation.
\<close>

theorem inner_never_concurrent:
  assumes "reaches c t seen s"
  shows "map fst (returned seen) = called seen \<or> (\<exists>r. map fst (returned seen) @ [r] = called seen)"
proof -
  have "called seen = map fst (returned seen) @ running s" using reaches_history [OF assms] by (simp add: history_ok_def)
  then show ?thesis by (auto simp: running_def split: worker.splits attempt.splits)
qed

text \<open>
  Without a write timeout the fate of every record that was not abandoned is what the inner
  sink answered for it, in order.
\<close>

theorem outcomes_are_the_answers:
  assumes "reaches c t seen s" "t \<le> 0"
  shows "\<exists>held. map (\<lambda>x. (fst x, verdict (snd x))) (returned seen) =
    filter (\<lambda>x. snd x \<noteq> Abandoned) (ended seen) @ held \<and> length held \<le> 1"
proof -
  have "length (came_back (as_worker s)) \<le> 1" by (simp add: came_back_def split: worker.splits)
  then show ?thesis using reaches_verdicts [OF assms(1)] assms(2) by (auto simp: verdicts_ok_def)
qed

text \<open>
  The notifications are the edges: failure and recovery are reported exactly when the verdict
  of a delivery differs from the one before it, and an overflow once for each run of dropped
  records.
\<close>

theorem notifications_are_edges:
  assumes "reaches c t seen s"
  shows "alarms seen = edges False (deliveries seen)
    \<and> overflows seen = filter (\<lambda>x. x) (edges False (admissions seen))"
  using reaches_notices [OF assms] by (simp add: notices_ok_def)

text \<open>
  C26: Every step of the sink is a step of the bounded queue: a record joins the pending ones, or the
  oldest one ends, or nothing changes.
\<close>

theorem async_refines_fifo:
  assumes "reaches c t seen s" "step e s = Some (s', out)"
  shows "fifo (as_capacity s) (fifo_of seen s) (fifo_of (seen @ out) s')"
  by (rule moves_fifo [OF step_moves [OF assms(2)]])

text \<open>
  C25: With a write timeout the delivery goroutine always ends what it has to do without waiting for
  the inner sink: however its own steps are scheduled they are at most six for each queued record
  and six more, and until it has gone one of them is possible.
\<close>

theorem delivery_terminates:
  assumes "reaches c t seen s" "t > 0" "as_closed s" "list_all own_event es" "run es s = Some (s', out)"
  shows "length es \<le> 6 * length (as_queue s) + 6
    \<and> (as_worker s' = Gone \<or> (\<exists>e s'' out'. own_event e \<and> step e s' = Some (s'', out')))"
proof -
  have "work_left s' + length es \<le> work_left s" "as_closed s'" using run_own [OF assms(4,5)] assms(3) by simp_all
  moreover have "worker_weight (as_worker s) \<le> 6" by (cases "as_worker s") simp_all
  moreover have "reaches c t (seen @ out) s'" by (rule reaches_run [OF assms(1,5)])
  ultimately show ?thesis
    using own_enabled [of s'] reaches_places [of c t "seen @ out" s'] reaches_constant [of c t "seen @ out" s'] assms(2)
    by (auto simp: work_left_def)
qed

lemma own_accepts_nothing: "own_event e \<Longrightarrow> step e s = Some (s', out) \<Longrightarrow> accepted out = []"
  by (cases e) (auto simp: own_event_def run_take_def run_leave_def run_look_def deliver_drained_def deliver_hand_def
      deliver_result_def deliver_give_up_def run_account_def Let_def
      split: worker.splits list.splits if_splits attempt.splits option.splits)

lemma run_own_accepts_nothing: "list_all own_event es \<Longrightarrow> run es s = Some (s', out) \<Longrightarrow> accepted out = []"
proof (induction es arbitrary: s out)
  case (Cons e es)
  then obtain s1 o1 o2 where r: "step e s = Some (s1, o1)" "run es s1 = Some (s', o2)" "out = o1 @ o2"
    by (auto split: option.splits prod.splits)
  then show ?case using own_accepts_nothing [OF _ r(1)] Cons.IH [OF _ r(2)] Cons.prems(1) by simp
qed simp

lemma own_run_to_end:
  assumes "reaches c t seen s" "t > 0" "as_closed s"
  shows "\<exists>es s' out. list_all own_event es \<and> run es s = Some (s', out) \<and> as_worker s' = Gone"
  using assms
proof (induction "work_left s" arbitrary: s seen rule: less_induct)
  case less
  show ?case
  proof (cases "as_worker s = Gone")
    case True
    then show ?thesis by (intro exI [of _ "[]"]) simp
  next
    case False
    obtain e s1 o1 where e: "own_event e" "step e s = Some (s1, o1)"
      using own_enabled [OF reaches_places [OF less.prems(1)] _ less.prems(3) False]
        reaches_constant [OF less.prems(1)] less.prems(2) by auto
    have d: "work_left s1 < work_left s" "as_closed s1" using own_decreases [OF e] less.prems(3) by simp_all
    from less.hyps [OF d(1) reaches.more [OF less.prems(1) e(2)] less.prems(2) d(2)] obtain es s' out where
      "list_all own_event es" "run es s1 = Some (s', out)" "as_worker s' = Gone" by blast
    with e show ?thesis by (intro exI [of _ "e # es"] exI [of _ s'] exI [of _ "o1 @ out"]) simp
  qed
qed

text \<open>
  C24: With a write timeout a closed sink drains even if the inner sink never returns: the goroutine
  can finish on its own, and then every record accepted has ended exactly once, in order.
\<close>

theorem close_drains:
  assumes "reaches c t seen s" "t > 0" "as_closed s"
  shows "\<exists>es s' out. list_all own_event es \<and> length es \<le> 6 * length (as_queue s) + 6
    \<and> run es s = Some (s', out) \<and> as_worker s' = Gone \<and> map fst (ended (seen @ out)) = accepted seen"
proof -
  from own_run_to_end [OF assms] obtain es s' out where e:
    "list_all own_event es" "run es s = Some (s', out)" "as_worker s' = Gone" by blast
  moreover have "worker_weight (as_worker s) \<le> 6" by (cases "as_worker s") simp_all
  then have "length es \<le> 6 * length (as_queue s) + 6"
    using run_own [OF e(1,2)] by (simp add: work_left_def)
  moreover have "map fst (ended (seen @ out)) = accepted seen"
    using gone_ended [OF reaches_run [OF assms(1) e(2)] e(3)] run_own_accepts_nothing [OF e(1,2)] by simp
  ultimately show ?thesis by blast
qed

lemma gone_run:
  assumes "reaches c t seen s" "as_worker s = Gone" "run es s = Some (s', out)"
  shows "as_counts s' = as_counts s"
  using assms
proof (induction es arbitrary: s seen out)
  case (Cons e es)
  then obtain s1 o1 o2 where r: "step e s = Some (s1, o1)" "run es s1 = Some (s', o2)"
    by (auto split: option.splits prod.splits)
  have "as_counts s1 = as_counts s \<and> as_worker s1 = Gone"
    by (rule gone_moves [OF step_moves [OF r(1)] Cons.prems(2) reaches_places [OF Cons.prems(1)]])
  then show ?case using Cons.IH [OF reaches.more [OF Cons.prems(1) r(1)] _ r(2)] by simp
qed simp

lemma CloseReturned_step:
  assumes "step e s = Some (s', out)" "CloseReturned i cs n \<in> set out" "as_bounded s \<or> n = None"
  shows "as_worker s = Gone \<and> cs = snapshotLocked s"
  using step_moves [OF assms(1)] assms(2,3)
proof (induction rule: moves.induct)
  case (account s r err s' out)
  then show ?case by (cases err) (auto simp: run_account_def Let_def split: if_splits)
qed auto

text \<open>
  The counts that \<^verbatim>\<open>Close\<close> returns are final, when it returns no error or the sink has
  a write timeout: nothing is queued, accepted is written plus failed plus abandoned, and no later
  event changes them.
\<close>

theorem close_counts_final:
  assumes "reaches c t seen s" "step e s = Some (s', out)" "CloseReturned i cs n \<in> set out" "t > 0 \<or> n = None"
    "run es s' = Some (s'', out')"
  shows "ac_queued cs = 0 \<and> ac_accepted cs = ac_written cs + ac_failed cs + ac_abandoned cs
    \<and> snapshotLocked s'' = cs\<lparr>ac_queued := length (as_queue s'')\<rparr>"
proof -
  have g: "as_worker s = Gone" "cs = snapshotLocked s"
    using CloseReturned_step [OF assms(2,3)] reaches_constant [OF assms(1)] assms(4) by auto
  have q: "as_queue s = []" using reaches_places [OF assms(1)] g(1) by (simp add: places_ok_def)
  have "length (accepted seen) = length (ended seen)" using gone_ended [OF assms(1) g(1)] by simp
  moreover have "length xs = length (filter (\<lambda>x. snd x = Written) xs) + length (filter (\<lambda>x. is_failed (snd x)) xs)
      + length (filter (\<lambda>x. snd x = Abandoned) xs)" for xs :: "('a \<times> outcome) list"
    by (induction xs) (auto simp: is_failed_def split: outcome.splits)
  from this [of "ended seen"] have "ac_accepted (as_counts s) =
      ac_written (as_counts s) + ac_failed (as_counts s) + ac_abandoned (as_counts s)"
    using reaches_counts [OF assms(1)] calculation by (simp add: counts_ok_def tally_def)
  moreover have s': "as_counts s' = as_counts s" "as_worker s' = Gone"
    using gone_moves [OF step_moves [OF assms(2)] g(1) reaches_places [OF assms(1)]] by simp_all
  moreover have "as_counts s'' = as_counts s'"
    by (rule gone_run [OF reaches.more [OF assms(1,2)] s'(2) assms(5)])
  ultimately show ?thesis using g(2) q by (simp add: snapshotLocked_def)
qed

subsection \<open>Where the comments promise more\<close>

text \<open>
  A record refused because the sink is closed is neither accepted nor dropped: no counter
  changes.
\<close>

theorem closed_write_is_not_counted:
  assumes "as_closed s"
  shows "AsyncSink_Write r s = (s, [Answered r (Some ErrSinkClosed)])"
  using assms by (simp add: AsyncSink_Write_def)

lemmas run_defs = AsyncSink_Write_def run_account_def run_take_def run_leave_def run_look_def deliver_drained_def
  deliver_hand_def deliver_result_def deliver_give_up_def inner_returns_def AsyncSink_Close_def close_step_def
  snapshotLocked_def NewAsyncSink_def zero_counts_def Let_def

text \<open>
  The number that \<^verbatim>\<open>Close\<close> reports with its deadline error is read before delivery is
  cancelled: a run in which it reports one abandoned record although that record was written.
\<close>

theorem deadline_number_overstates:
  "\<exists>es s out cs. run es (NewAsyncSink 1 0 :: nat async) = Some (s, out) \<and> CloseReturned 0 cs (Some 1) \<in> set out
    \<and> ac_abandoned cs = 0 \<and> ac_written cs = 1 \<and> ac_accepted cs = 1"
  by (rule exI [of _ "[Write_call 7, Close_call 0, Deadline 0, Take, Look, Inner_returns None, Account, Cancel 0, Close_return 0]"])
    (simp add: run_defs)

subsection \<open>Witnesses\<close>

lemma reaches_by_run: "run es (NewAsyncSink c t) = Some (s, out) \<Longrightarrow> reaches c t out s"
  using reaches_run [OF reaches.start] by fastforce

text \<open>
  Capacity one, a write timeout: the first record's delivery times out and the inner sink is still
  in it; a second is in hand, a third is queued, a fourth was dropped, and the sink is closing.
\<close>

definition sample_run :: "nat event list" where
  "sample_run =
     [Write_call 1, Take, Look, Hand, Give_up, Account, Write_call 2, Take, Look, Write_call 3, Write_call 4, Close_call 0]"

lemma sample_run_reaches:
  obtains s :: "nat async" and out where "reaches 1 1 out s" "as_closed s" "as_queue s = [3]" "ended out = [(1, Failed ErrWriteTimeout)]"
    "accepted out = [1, 2, 3]" "called out = [1]" "returned out = []" "as_worker s = AwaitingPending 2"
proof -
  obtain s out where r: "run sample_run (NewAsyncSink 1 1) = Some (s, out)" and
    p: "as_closed s" "as_queue s = [3]" "ended out = [(1, Failed ErrWriteTimeout)]" "accepted out = [1, 2, 3]"
    "called out = [1]" "returned out = []" "as_worker s = AwaitingPending 2"
    by (simp add: sample_run_def run_defs gave_up_def)
  with reaches_by_run [OF r] show ?thesis using that by blast
qed

theorem accepted_in_order_witness:
  "\<exists>out s. reaches 1 1 out s \<and> accepted out = [1, 2, 3 :: nat] \<and> subseq (called out) (accepted out) \<and> called out = [1]"
  by (rule sample_run_reaches) (use accepted_in_order in blast)

text \<open>One delivery fails, one succeeds, a third record is dropped, and a fourth comes after Close.\<close>

theorem counts_account_for_all_witness:
  "\<exists>out s. reaches 1 0 out (s :: nat async) \<and> ended out = [(1, Failed (SystemError ''disk full'')), (2, Written)]
    \<and> ac_accepted (as_counts s) = 2 \<and> ac_written (as_counts s) = 1 \<and> ac_failed (as_counts s) = 1 \<and> ac_dropped (as_counts s) = 1
    \<and> length (answers out) = 4"
proof -
  obtain s out where r: "run [Write_call 1, Take, Write_call 2, Write_call 3, Look, Inner_returns (Some (SystemError ''disk full'')),
      Account, Take, Look, Inner_returns None, Account, Close_call 0, Write_call 4] (NewAsyncSink 1 0 :: nat async) = Some (s, out)"
    and e: "ended out = [(1, Failed (SystemError ''disk full'')), (2, Written)]" "length (accepted out) = 2"
      "length (dropped out) = 1" "count_list (answers out) (Some ErrSinkClosed) = 1"
    by (simp add: run_defs)
  note c = conjunct2 [OF counts_account_for_all [OF reaches_by_run [OF r]]]
  show ?thesis using c e reaches_by_run [OF r] by (intro exI [of _ out] exI [of _ s]) simp
qed

theorem inner_never_concurrent_witness:
  "\<exists>out s. reaches 1 1 out (s :: nat async) \<and> called out = [1] \<and>
    (map fst (returned out) = called out \<or> (\<exists>r. map fst (returned out) @ [r] = called out))"
  by (rule sample_run_reaches) (use inner_never_concurrent in blast)

theorem outcomes_are_the_answers_witness:
  "\<exists>out s held. reaches 4 0 out (s :: nat async) \<and> ended out = [(1, Failed (SystemError ''disk full'')), (2, Written)]
    \<and> map (\<lambda>x. (fst x, verdict (snd x))) (returned out) = filter (\<lambda>x. snd x \<noteq> Abandoned) (ended out) @ held"
proof -
  obtain s out where r: "run [Write_call 1, Write_call 2, Take, Look, Inner_returns (Some (SystemError ''disk full'')), Account,
      Take, Look, Inner_returns None, Account] (NewAsyncSink 4 0 :: nat async) = Some (s, out)"
    and e: "ended out = [(1, Failed (SystemError ''disk full'')), (2, Written)]"
    by (simp add: run_defs)
  from outcomes_are_the_answers [OF reaches_by_run [OF r]] e reaches_by_run [OF r] show ?thesis by fastforce
qed

theorem notifications_are_edges_witness:
  "\<exists>out s. reaches 1 1 out (s :: nat async) \<and> accepted out = [1, 2, 3] \<and> alarms out = edges False (deliveries out)"
  by (rule sample_run_reaches) (use notifications_are_edges in blast)

theorem async_refines_fifo_witness:
  "\<exists>out s s' o'. reaches 1 1 out (s :: nat async) \<and> step Give_up s = Some (s', o')
    \<and> fifo (as_capacity s) (fifo_of out s) (fifo_of (out @ o') s')"
proof (rule sample_run_reaches)
  fix s and out :: "nat sight list" assume r: "reaches 1 1 out s" and w: "as_worker s = AwaitingPending 2"
  then obtain s' o' where "step Give_up s = Some (s', o')" by (simp add: deliver_give_up_def)
  with async_refines_fifo [OF r this] r show ?thesis by blast
qed

theorem delivery_terminates_witness:
  "\<exists>out s s' o'. reaches 1 1 out (s :: nat async) \<and> run [Give_up, Account, Take] s = Some (s', o')
    \<and> length [Give_up, Account, Take :: nat event] \<le> 6 * length (as_queue s) + 6"
proof (rule sample_run_reaches)
  fix s and out :: "nat sight list"
  assume r: "reaches 1 1 out s" and c: "as_closed s" and w: "as_worker s = AwaitingPending 2" and q: "as_queue s = [3]"
  then obtain s' o' where e: "run [Give_up, Account, Take] s = Some (s', o')"
    by (auto simp: run_defs split: option.splits)
  have "list_all own_event [Give_up, Account, Take :: nat event]" by (simp add: own_event_def)
  with delivery_terminates [OF r _ c this e] e r show ?thesis by auto
qed

theorem close_drains_witness:
  "\<exists>out s es s' o'. reaches 1 1 out (s :: nat async) \<and> run es s = Some (s', o') \<and> as_worker s' = Gone
    \<and> map fst (ended (out @ o')) = [1, 2, 3]"
proof (rule sample_run_reaches)
  fix s and out :: "nat sight list"
  assume r: "reaches 1 1 out s" and c: "as_closed s" and a: "accepted out = [1, 2, 3]"
  from close_drains [OF r _ c] a show ?thesis using r by fastforce
qed

theorem close_counts_final_witness:
  "\<exists>out s s' o' cs. reaches 4 0 out (s :: nat async) \<and> step (Close_done 0) s = Some (s', o') \<and> CloseReturned 0 cs None \<in> set o'
    \<and> ac_accepted cs = ac_written cs + ac_failed cs + ac_abandoned cs \<and> ac_accepted cs = 1"
proof -
  obtain s out where r: "run [Write_call 1, Take, Look, Inner_returns None, Account, Close_call 0, Leave]
      (NewAsyncSink 4 0 :: nat async) = Some (s, out)" and w: "as_worker s = Gone" "as_closers s 0 = Draining"
    "ac_accepted (as_counts s) = 1"
    by (simp add: run_defs)
  then obtain s' where e: "step (Close_done 0) s = Some (s', [CloseReturned 0 (snapshotLocked s) None])"
    by (simp add: AsyncSink_Close_def)
  from close_counts_final [OF reaches_by_run [OF r] e, of 0 "snapshotLocked s" None "[]"] e reaches_by_run [OF r] w(3)
  show ?thesis by (intro exI) (auto simp: snapshotLocked_def)
qed

theorem closed_write_is_not_counted_witness:
  "AsyncSink_Write (9::nat) ((NewAsyncSink 1 0)\<lparr>as_closed := True\<rparr>) =
    ((NewAsyncSink 1 0)\<lparr>as_closed := True\<rparr>, [Answered 9 (Some ErrSinkClosed)])"
  by (rule closed_write_is_not_counted) simp

end
