(* ===== verification/Spec2Isabelle.thy ===== *)
theory Spec2Isabelle
  imports Replay_Verdicts Startup Default_Handler Generic_Codec Accept_Loop Written_Read Host Service_File
    History_Paging History_Observe Async_Sink Provenance Wire_Dispatch
begin

text \<open>
  A verification library for the Go implementation of the logging layer, \<^verbatim>\<open>src/go\<close>.

  \<^bold>\<open>The program.\<close>  A program logs through a \<^verbatim>\<open>log/slog\<close> handler.  The handler makes a record with
  the writer's own claim as the first hop of its identity chain and hands it to a sink: a file, a
  socket of a receiving server, several sinks, an asynchronous queue, or the client of the machine's
  logging service, found when the first record comes.  A receiving server stamps what the kernel says
  of the peer as the next hop; what a hop is worth is assessed later.  The machine service stores records in a file sink and gives the
  file's owner bounded pages of it, and observations that wait for more.  Clients and service speak
  the generated codec of \<^verbatim>\<open>go/abstraction/logging/rec.go\<close>; lines in files and on the socket are the
  standard library's JSON.  A driver, \<^verbatim>\<open>cmd/replay\<close>, runs scripts of commands over the library and writes
  transcripts of what an observer would have seen after each.

  \<^bold>\<open>Theories and code.\<close>

  \<^item> \<^verbatim>\<open>Prelude\<close>: bytes, integers, errors of the wire code, lemmas on lists, the proof collections.
  \<^item> \<^verbatim>\<open>Wire_Writer\<close>, \<^verbatim>\<open>Wire_Reader\<close>, \<^verbatim>\<open>Wire_Timestamp\<close>, \<^verbatim>\<open>Wire_Skip\<close>, \<^verbatim>\<open>Wire_Objects\<close>, \<^verbatim>\<open>Wire_Codec\<close>,
    \<^verbatim>\<open>Wire_Frames\<close>, \<^verbatim>\<open>Wire_Raw\<close>, \<^verbatim>\<open>Wire_Dispatch\<close>, \<^verbatim>\<open>Generic_Codec\<close>: the generated file \<^verbatim>\<open>rec.go\<close>.  Writers append to a byte
    string; readers take a record of buffer, position and depth (\<^verbatim>\<open>reader\<close>) and return a value and the
    reader after it, or a refusal with its position.  The readers of objects and lists are
    interpretations of the locales \<^verbatim>\<open>object_decoder\<close> and \<^verbatim>\<open>list_decoder\<close>, in which progress, what a
    decoded value satisfies, and reading back a writer's text are proved once.  Clients and dispatchers
    take transport and handler as state transformers.  \<^verbatim>\<open>Generic_Codec\<close> holds the lists of strings and maps
    of opaque values that the generator emits and no type here uses.
  \<^item> \<^verbatim>\<open>Log_Record\<close> (\<^verbatim>\<open>record.go\<close>): records, level names, \<^verbatim>\<open>Record.Encode\<close> with \<^verbatim>\<open>json.Marshal\<close> for
    these types.  \<^verbatim>\<open>Provenance\<close> (\<^verbatim>\<open>identity.go\<close>, \<^verbatim>\<open>Server.Accept\<close>): chains, stamps, bindings, assessment,
    separation.
  \<^item> \<^verbatim>\<open>Json_Read\<close>, \<^verbatim>\<open>Json_Record\<close>: \<^verbatim>\<open>json.Unmarshal\<close> for the record's types, member names under any case,
    numbers, nulls and unknown members included, and what it reads of a line \<^verbatim>\<open>Record.Encode\<close> wrote.
  \<^item> \<^verbatim>\<open>Sinks\<close>, \<^verbatim>\<open>File_Sink\<close> (\<^verbatim>\<open>sink.go\<close>): a sink is a state transformer with an optional error; the locale
    \<^verbatim>\<open>append_only\<close> is what file sinks promise.  The file sink's state is the file's bytes, the line
    cap, the epoch, the channel that wakes readers and the count of waiters.
  \<^item> \<^verbatim>\<open>Async_Sink\<close> (\<^verbatim>\<open>async.go\<close>): queue, worker, bounded delivery and Close as an event system.
  \<^item> \<^verbatim>\<open>History\<close>, \<^verbatim>\<open>History_Paging\<close>, \<^verbatim>\<open>History_Observe\<close> (\<^verbatim>\<open>history.go\<close>, the page check of
    \<^verbatim>\<open>client/client.go\<close>): reading a page, following cursors, observers among writers.
  \<^item> \<^verbatim>\<open>Client\<close> (\<^verbatim>\<open>client/client.go\<close>, \<^verbatim>\<open>client/observer.go\<close>), \<^verbatim>\<open>Service\<close> (one call of
    \<^verbatim>\<open>service/service.go\<close>), \<^verbatim>\<open>Host\<close> (its accept loop and closing), \<^verbatim>\<open>Service_File\<close> (client, frames and
    service over a file sink).
  \<^item> \<^verbatim>\<open>Service_Sink\<close> (\<^verbatim>\<open>service.go\<close>, \<^verbatim>\<open>linereader.go\<close>, discovery in \<^verbatim>\<open>sink.go\<close>): forwarding with a
    fallback, the connection loop, \<^verbatim>\<open>FromEnv\<close> and \<^verbatim>\<open>LegacyAuto\<close>.  \<^verbatim>\<open>Accept_Loop\<close>: \<^verbatim>\<open>Serve\<close>, \<^verbatim>\<open>track\<close> and
    \<^verbatim>\<open>Close\<close> of the receiving server.
  \<^item> \<^verbatim>\<open>Slog_Handler\<close> (\<^verbatim>\<open>slog.go\<close>): handlers, \<^verbatim>\<open>put\<close> as a recursive function and as appends on a shared
    slice.  \<^verbatim>\<open>Client_Sink\<close> (\<^verbatim>\<open>client_handler.go\<close>, \<^verbatim>\<open>resolved.go\<close>): records to a client, and finding the
    service once.  \<^verbatim>\<open>Default_Handler\<close> (\<^verbatim>\<open>slog.go\<close>, \<^verbatim>\<open>resolved.go\<close>): loggers over that sink.  \<^verbatim>\<open>Startup\<close> (\<^verbatim>\<open>peer_linux.go\<close>, \<^verbatim>\<open>peer_other.go\<close>, \<^verbatim>\<open>service/serve.go\<close>).
  \<^item> \<^verbatim>\<open>Json_Line\<close>, \<^verbatim>\<open>Written_Read\<close>, \<^verbatim>\<open>Log_Call\<close>, \<^verbatim>\<open>Sent_Provenance\<close> join the halves: the wire codec reads what
    \<^verbatim>\<open>Record.Encode\<close> writes; what a file sink wrote is what its history returns; a logger's call reaches the
    provider, and a sent record the receiving sink; a bound stamp holds of the record a reader decodes.
  \<^item> \<^verbatim>\<open>Replay\<close>, \<^verbatim>\<open>Replay_Sinks\<close> (\<^verbatim>\<open>cmd/replay/main.go\<close>): the driver as a function from a script to a
    transcript, one definition for each command, a state kept between lines.  \<^verbatim>\<open>Replay_Worlds\<close>,
    \<^verbatim>\<open>Replay_Verdicts\<close>: what holds of every state a script reaches, and what the driver answers about
    provenance.

  \<^bold>\<open>What the groups of lemmas show.\<close>  The codec: reading back what was written, up to the normal form of
  times and key order; every accepted document re-encodes; skipping opaque values; delivery of calls
  and of their errors through envelope and dispatcher.  Provenance: assessment is a trust relation
  defined hop by hop without the loop; lies are disputed.  File sink: lines within the cap, the
  ladder of shortened records, what a refusal means.  Asynchronous sink: order, each counter the number of
  records with that fate, refinement of a bounded queue, termination of delivery.  History: pages hold what fits, follow each other and
  pass the client's check.  Service: who may read, what is answered otherwise, bounded calls and
  observers whose places are given back on every way out, an orderly end.  Logger to provider: one
  way, as the contract has it; the caller learns what the transport did, the operator what the
  provider refused, and a frame that arrives is one stamped record with the provider.  Forwarding: no record lost between socket and fallback.  Handler:
  flattening of any derivation, and what sharing the slice does to concurrent records; from refusing to
  delivering.  Driver: every command answered under its number, no torn line in any file it wrote,
  authors named only on evidence.

  \<^bold>\<open>Errors, bounds and fuel.\<close>  A Go error is a value of \<^verbatim>\<open>wire_error\<close> or \<^verbatim>\<open>sink_error\<close> in a sum or
  option; a run-time panic is a value too, and is proved absent where the code can.  \<^verbatim>\<open>int\<close> and
  \<^verbatim>\<open>int64\<close> are 64-bit words.  Loops are recursions with a measure (the bytes left to read, the
  message's length, the records left); none is cut off by fuel except \<^verbatim>\<open>follow\<close>, which counts pages:
  one more than there are records is enough, because every page but the last holds a record; and the
  reader of JSON values, which counts values nested or begun: twice the text's length and one more is
  proved enough, and the depth of 10000 the standard library allows is a refusal of its own.  The
  delivery goroutine's own steps are bounded by six for each queued record and six more.  A file is
  shorter than \<open>2 ^ 63\<close> bytes, as on any system the program runs on.

  \<^bold>\<open>Interleaving.\<close>  Host, accept loop, asynchronous sink, observers, bindings and the shared slice are step
  functions on a state, one event per atomic piece of the code (a critical section, a channel
  operation, a deferred call); reachability is inductive and the invariants are proved by rule
  induction, so that they hold for every schedule.

  \<^bold>\<open>Parameters.\<close>  What other repositories provide is an argument: the text of an instant and reading it
  (the job module), caller facts and frame transports (the identity module), selection and resolution
  (the facade modules).  So are the keyed hash, the clock, the file system, the network, the kernel's
  credentials, the scheduler and the room a slice can have in the runtime (\<^verbatim>\<open>bn_room\<close>: a longer
  \<^verbatim>\<open>strings.Repeat\<close> panics).  The transport of one-way calls is a function that says of each frame
  whether it arrives and what the submitter is told (\<^verbatim>\<open>one_way\<close>); the one of exchanges carries every
  frame and reply (\<^verbatim>\<open>carried\<close>): the frame limit of \<open>2 ^ 20\<close> bytes and the deadlines, which the
  identity module enforces, are not in it.  \<^verbatim>\<open>json.Unmarshal\<close> is an argument of the service's definitions; the
  theorems that join writer and reader put the model of it there.  What is assumed is a hypothesis named
  in the theorem: an instant's text is a timestamp (\<^verbatim>\<open>stamp_ok\<close>), an instant's text can be read
  (\<^verbatim>\<open>readable\<close>), and then has the text it had (\<^verbatim>\<open>instants\<close>), a write of a connection is whole unless it
  fails (\<^verbatim>\<open>keeps_io\<close>), an append to a file is whole or nothing (\<^verbatim>\<open>whole_appends\<close>), and an address nobody
  listens on cannot be dialled (\<^verbatim>\<open>refuses\<close>).

  \<^bold>\<open>Not modelled.\<close>  The bindings in other languages, tests and data; \<^verbatim>\<open>PerUser\<close>, \<^verbatim>\<open>Path\<close> and \<^verbatim>\<open>Addr\<close>, which
  build or return a string; the \<^verbatim>\<open>Error\<close> methods, which only word an error that is a value here; the
  flags of the driver and writing its transcript out; the deadlines of socket writes except as the time
  the network is given.

  \<^bold>\<open>Findings.\<close>  Modelling showed that the flag which is to refuse a late history policy is never set;
  that closing the receiving server can miss the connection being admitted; that concurrent records
  with groups on one handler can exchange group names; that the driver ends in a panic on a line of
  other white space than blanks and tabs, and on a count that is negative or asks for
  a text longer than a slice can be; and places where a comment says more
  than the code does (the number in the deadline error, records after Close, refusing oversized records, one
  reconnect, the contract of slog handlers).
\<close>

end
